(* ===== verification/Prelude.thy ===== *)
theory Prelude
  imports Main "HOL-Library.Word"
begin

text \<open>
  Shared vocabulary of the development: the widths of the C integer types, the results
  of kernel code that may stop the machine, the page size arithmetic of
  \<^verbatim>\<open>olive/include/olive.h\<close> and \<^verbatim>\<open>olive/include/mm/pmm.h\<close>, and
  the generic facts on words and lists the component theories share.
\<close>

unbundle bit_operations_syntax

named_theorems page_simps \<open>page arithmetic: alignment, page numbers, slots in a page\<close>
named_theorems mem_frame \<open>what a store leaves unchanged\<close>

section \<open>Types\<close>

text \<open>The target is x86-64: pointers, \<open>size_t\<close> and \<open>uintptr_t\<close> are 64 bits wide.\<close>

type_synonym u8 = "8 word"
type_synonym u16 = "16 word"
type_synonym u32 = "32 word"
type_synonym u64 = "64 word"

text \<open>
  \<open>Ret a s\<close> is a return with value \<open>a\<close> in state \<open>s\<close>; \<open>Halt s\<close> is a call
  of \<open>hcf()\<close> (interrupts off, \<open>hlt\<close> for ever) reached in state \<open>s\<close>.
  Code that can also loop without end has type \<open>('a, 's) outcome option\<close>, with
  \<open>None\<close> for the endless loop.
\<close>

datatype ('a, 's) outcome = Ret 'a 's | Halt 's

section \<open>Page arithmetic\<close>

definition PAGE_SIZE :: u64 where
  "PAGE_SIZE = 4096"

definition DIV_ROUND_UP :: "u64 \<Rightarrow> u64 \<Rightarrow> u64" where
  "DIV_ROUND_UP x y = (x + (y - 1)) div y"

definition ALIGN_UP :: "u64 \<Rightarrow> u64 \<Rightarrow> u64" where
  "ALIGN_UP x y = DIV_ROUND_UP x y * y"

definition ALIGN_DOWN :: "u64 \<Rightarrow> u64 \<Rightarrow> u64" where
  "ALIGN_DOWN x y = (x div y) * y"

text \<open>
  Page alignment and page numbers, in the terms the proofs use: \<open>aligned a\<close> says that
  the low twelve bits of \<open>a\<close> are clear, \<open>pgno a\<close> is the number of the page that
  holds the byte \<open>a\<close>.
\<close>

definition aligned :: "u64 \<Rightarrow> bool" where
  "aligned a \<longleftrightarrow> take_bit 12 a = 0"

definition pgno :: "u64 \<Rightarrow> u64" where
  "pgno a = drop_bit 12 a"

lemma aligned_dvd: "aligned a \<longleftrightarrow> 4096 dvd unat a"
proof -
  have "unat (take_bit 12 a) = unat a mod 4096"
    by (simp add: take_bit_eq_mod unat_mod_distrib)
  then show ?thesis
    by (metis aligned_def dvd_eq_mod_eq_0 unat_eq_zero)
qed

lemma aligned_0 [simp]: "aligned 0"
  by (simp add: aligned_def)

lemma unat_pgno: "unat (pgno a) = unat a div 4096"
  by (simp add: pgno_def unat_drop_bit_eq drop_bit_eq_div unat_div_distrib)

lemma aligned_mod: "aligned a \<longleftrightarrow> a mod PAGE_SIZE = 0"
  by (simp add: aligned_dvd PAGE_SIZE_def unat_mod_distrib dvd_eq_mod_eq_0 word_unat_eq_iff)

lemma aligned_add [page_simps]:
  assumes "aligned a" "aligned b"
  shows "aligned (a + b)"
proof -
  have "4096 dvd (unat a + unat b) mod 2 ^ 64"
    using assms by (subst dvd_mod_iff) (simp_all add: aligned_dvd)
  then show ?thesis
    by (simp add: aligned_dvd unat_word_ariths)
qed

lemma u64_bound: "unat (a :: u64) < 2 ^ 64"
  using unsigned_less [of a, where ?'a = nat] by simp

lemma aligned_room: "aligned a \<Longrightarrow> unat a + 4096 \<le> 2 ^ 64"
  using u64_bound [of a] by (auto simp: aligned_dvd)

lemma aligned_minus:
  assumes "aligned a"
  shows "aligned (- a)"
proof -
  have "unat (0 - a) = (if unat a = 0 then 0 else 2 ^ 64 - unat a)"
    by (simp only: unat_sub_if') simp
  moreover have "4096 dvd 2 ^ 64 - unat a"
    using assms by (intro dvd_diff_nat) (simp_all add: aligned_dvd)
  ultimately show ?thesis
    by (simp add: aligned_dvd)
qed

lemma aligned_diff [page_simps]: "aligned a \<Longrightarrow> aligned b \<Longrightarrow> aligned (a - b)"
  using aligned_add [of a "- b"] aligned_minus [of b] by simp

lemma aligned_PAGE_SIZE [simp]: "aligned PAGE_SIZE"
  by (simp add: aligned_dvd PAGE_SIZE_def)

lemma aligned_mult_PAGE_SIZE [simp]: "aligned (x * PAGE_SIZE)" "aligned (PAGE_SIZE * x)"
proof -
  have "4096 dvd (unat x * 4096) mod 2 ^ 64"
    by (subst dvd_mod_iff) simp_all
  then show "aligned (x * PAGE_SIZE)" "aligned (PAGE_SIZE * x)"
    by (simp_all add: aligned_dvd PAGE_SIZE_def unat_word_ariths mult.commute)
qed

lemma aligned_ALIGN_UP [simp]: "aligned (ALIGN_UP x PAGE_SIZE)"
  by (simp add: ALIGN_UP_def)

lemma aligned_ALIGN_DOWN [simp]: "aligned (ALIGN_DOWN x PAGE_SIZE)"
  by (simp add: ALIGN_DOWN_def)

lemma unat_aligned_add:
  assumes "aligned a" "unat w < 4096"
  shows "unat (a + w) = unat a + unat w"
  using aligned_room [OF assms(1)] assms(2) by (simp add: unat_word_ariths)

lemma pgno_offset [page_simps]:
  assumes "aligned a" "unat w < 4096"
  shows "pgno (a + w) = pgno a"
proof -
  have "unat (pgno (a + w)) = unat (pgno a)"
    using assms by (auto simp: unat_pgno unat_aligned_add aligned_dvd)
  then show ?thesis
    by (simp add: word_unat_eq_iff)
qed

lemma pgno_eq_iff: "aligned a \<Longrightarrow> aligned b \<Longrightarrow> pgno a = pgno b \<longleftrightarrow> a = b"
  by (auto simp: word_unat_eq_iff unat_pgno aligned_dvd elim!: dvdE)

lemma pgno_split: "a = ALIGN_DOWN a PAGE_SIZE + take_bit 12 a"
proof -
  have "unat (ALIGN_DOWN a PAGE_SIZE) = unat a div 4096 * 4096"
    using u64_bound [of a]
    by (simp add: ALIGN_DOWN_def PAGE_SIZE_def unat_word_ariths unat_div_distrib)
  then have "unat (ALIGN_DOWN a PAGE_SIZE + take_bit 12 a) = unat a"
    using u64_bound [of a]
    by (simp add: unat_word_ariths unsigned_take_bit_eq take_bit_eq_mod)
  then show ?thesis
    by (simp add: word_unat_eq_iff)
qed

lemma ALIGN_UP_unat:
  assumes "unat x + 4095 < 2 ^ 64"
  shows "unat (ALIGN_UP x PAGE_SIZE) = (unat x + 4095) div 4096 * 4096"
  using assms
  by (simp add: ALIGN_UP_def DIV_ROUND_UP_def PAGE_SIZE_def unat_word_ariths unat_div_distrib)

lemma ALIGN_DOWN_unat: "unat (ALIGN_DOWN x PAGE_SIZE) = unat x div 4096 * 4096"
  using u64_bound [of x]
  by (simp add: ALIGN_DOWN_def PAGE_SIZE_def unat_word_ariths unat_div_distrib)

section \<open>Words and lists\<close>

lemma word_eq_add_iff: "(a :: 'a::len word) + b = c \<longleftrightarrow> b = c - a"
  by (auto simp: algebra_simps)

lemma unat_add_small: "unat a + unat b < 2 ^ 64 \<Longrightarrow> unat (a + b :: u64) = unat a + unat b"
  by (simp add: unat_word_ariths)

lemma unat_of_nat_small: "n < 2 ^ 64 \<Longrightarrow> unat (of_nat n :: u64) = n"
  by (simp add: unat_of_nat)

lemma unat_of_nat_le: "unat (of_nat n :: u64) \<le> n"
  by (simp add: unat_of_nat)

lemma unat_Suc_word: "(w :: u64) < v \<Longrightarrow> unat (w + 1) = Suc (unat w)"
  using u64_bound [of v] by (simp add: word_less_nat_alt unat_word_ariths)

lemma nth_append_last: "xs \<noteq> [] \<Longrightarrow> xs = ys @ [x] \<Longrightarrow> xs ! (length xs - 1) = x"
  by simp

end
