(* ===== verification/Memory.thy ===== *)
theory Memory
  imports Prelude
begin

text \<open>
  The byte-addressed memory the kernel's C code runs on: every 64-bit address holds a
  byte, and an \<open>n\<close>-byte integer is stored little-endian at consecutive addresses
  (address arithmetic wraps at \<open>2 ^ 64\<close>). Accesses are total: an access to an address
  the machine has not mapped is not modelled as a fault. The file gives typed loads and
  stores, what a load sees after a store, and when a store is invisible to a load: the two
  ranges are disjoint (\<open>disj\<close>), or they lie in different pages.
\<close>

type_synonym mem = "u64 \<Rightarrow> u8"

section \<open>Loads and stores\<close>

fun ld_bytes :: "nat \<Rightarrow> mem \<Rightarrow> u64 \<Rightarrow> nat" where
  "ld_bytes 0 m a = 0"
| "ld_bytes (Suc n) m a = unat (m a) + 256 * ld_bytes n m (a + 1)"

fun st_bytes :: "nat \<Rightarrow> u64 \<Rightarrow> nat \<Rightarrow> mem \<Rightarrow> mem" where
  "st_bytes 0 a v m = m"
| "st_bytes (Suc n) a v m = (st_bytes n (a + 1) (v div 256) m)(a := of_nat v)"

definition ld64 :: "mem \<Rightarrow> u64 \<Rightarrow> u64" where
  "ld64 m a = of_nat (ld_bytes 8 m a)"

definition st64 :: "u64 \<Rightarrow> u64 \<Rightarrow> mem \<Rightarrow> mem" where
  "st64 a v m = st_bytes 8 a (unat v) m"

definition ld32 :: "mem \<Rightarrow> u64 \<Rightarrow> u32" where
  "ld32 m a = of_nat (ld_bytes 4 m a)"

definition st32 :: "u64 \<Rightarrow> u32 \<Rightarrow> mem \<Rightarrow> mem" where
  "st32 a v m = st_bytes 4 a (unat v) m"

definition ld8 :: "mem \<Rightarrow> u64 \<Rightarrow> u8" where
  "ld8 m a = m a"

definition st8 :: "u64 \<Rightarrow> u8 \<Rightarrow> mem \<Rightarrow> mem" where
  "st8 a v m = m(a := v)"

lemma st8_apply: "st8 a v m x = (if x = a then v else m x)"
  by (simp add: st8_def)

section \<open>Disjoint ranges\<close>

text \<open>
  The ranges of \<open>n\<close> bytes at \<open>a\<close> and \<open>k\<close> bytes at \<open>b\<close> do not meet: both
  distances around the address circle are at least the length of the range they start from.
\<close>

definition disj :: "u64 \<Rightarrow> nat \<Rightarrow> u64 \<Rightarrow> nat \<Rightarrow> bool" where
  "disj a n b k \<longleftrightarrow> n \<le> unat (b - a) \<and> k \<le> unat (a - b)"

lemma disj_sym: "disj a n b k \<Longrightarrow> disj b k a n"
  by (simp add: disj_def)

lemma disj_neq:
  assumes "disj a n b k" "i < n" "j < k"
  shows "a + of_nat i \<noteq> b + of_nat j"
proof
  assume eq: "a + of_nat i = b + of_nat j"
  show False
  proof (cases "j \<le> i")
    case True
    with eq have "b - a = of_nat (i - j)"
      by (simp add: algebra_simps)
    then have "unat (b - a) \<le> i - j"
      using unat_of_nat_le [of "i - j"] by simp
    with assms show False unfolding disj_def by linarith
  next
    case False
    with eq have "a - b = of_nat (j - i)"
      by (simp add: algebra_simps)
    then have "unat (a - b) \<le> j - i"
      using unat_of_nat_le [of "j - i"] by simp
    with assms show False unfolding disj_def by linarith
  qed
qed

section \<open>What a load reads\<close>

lemma ld_bytes_bound: "ld_bytes n m a < 256 ^ n"
proof (induction n arbitrary: a)
  case (Suc n)
  have "unat (m a) < 256"
    using unsigned_less [of "m a", where ?'a = nat] by simp
  with Suc.IH [of "a + 1"] show ?case by simp
qed simp

lemma ld_bytes_cong:
  "(\<And>i. i < n \<Longrightarrow> m (a + of_nat i) = m' (a + of_nat i)) \<Longrightarrow> ld_bytes n m a = ld_bytes n m' a"
proof (induction n arbitrary: a)
  case (Suc n)
  have "m (a + 1 + of_nat i) = m' (a + 1 + of_nat i)" if "i < n" for i
    using Suc.prems [of "Suc i"] that by (simp add: add.assoc)
  then have "ld_bytes n m (a + 1) = ld_bytes n m' (a + 1)"
    by (rule Suc.IH)
  with Suc.prems [of 0] show ?case by simp
qed simp

lemma ld_bytes_zero: "(\<And>i. i < n \<Longrightarrow> m (a + of_nat i) = 0) \<Longrightarrow> ld_bytes n m a = 0"
proof (induction n arbitrary: a)
  case (Suc n)
  have "m (a + 1 + of_nat i) = 0" if "i < n" for i
    using Suc.prems [of "Suc i"] that by (simp add: add.assoc)
  then have "ld_bytes n m (a + 1) = 0"
    by (rule Suc.IH)
  with Suc.prems [of 0] show ?case by simp
qed simp

lemma st_bytes_other: "(\<And>j. j < n \<Longrightarrow> x \<noteq> a + of_nat j) \<Longrightarrow> st_bytes n a v m x = m x"
proof (induction n arbitrary: a v)
  case (Suc n)
  have "x \<noteq> a + 1 + of_nat j" if "j < n" for j
    using Suc.prems [of "Suc j"] that by (simp add: add.assoc)
  then have "st_bytes n (a + 1) (v div 256) m x = m x"
    by (rule Suc.IH)
  with Suc.prems [of 0] show ?case by simp
qed simp

lemma ld_st_bytes:
  assumes "n < 2 ^ 64"
  shows "ld_bytes n (st_bytes n a v m) a = v mod 256 ^ n"
  using assms
proof (induction n arbitrary: a v)
  case (Suc n)
  let ?m = "st_bytes n (a + 1) (v div 256) m"
  have "ld_bytes n (?m(a := of_nat v)) (a + 1) = ld_bytes n ?m (a + 1)"
  proof (rule ld_bytes_cong)
    fix i assume "i < n"
    then have "unat (1 + of_nat i :: u64) \<noteq> 0"
      using Suc.prems by (simp add: unat_of_nat_small flip: of_nat_Suc)
    then show "(?m(a := of_nat v)) (a + 1 + of_nat i) = ?m (a + 1 + of_nat i)"
      by (auto simp: add.assoc)
  qed
  moreover have "unat (of_nat v :: u8) = v mod 256"
    by (simp add: unat_of_nat)
  moreover have "ld_bytes n ?m (a + 1) = v div 256 mod 256 ^ n"
    using Suc.IH [of "a + 1" "v div 256"] Suc.prems by simp
  ultimately show ?case
    by (simp only: st_bytes.simps ld_bytes.simps fun_upd_same)
       (simp add: mod_mult2_eq)
qed simp

text \<open>Storing back what is there changes nothing.\<close>

lemma st_ld_bytes: "st_bytes n a (ld_bytes n m a) m = m"
proof (induction n arbitrary: a)
  case (Suc n)
  have "unat (m a) < 256"
    using unsigned_less [of "m a", where ?'a = nat] by simp
  then have "ld_bytes (Suc n) m a div 256 = ld_bytes n m (a + 1)"
    by simp
  moreover have "unat (of_nat (ld_bytes (Suc n) m a) :: u8) = unat (m a)"
    by (simp only: unat_of_nat) (simp add: \<open>unat (m a) < 256\<close>)
  then have "(of_nat (ld_bytes (Suc n) m a) :: u8) = m a"
    by (rule word_unat_eq_iff [THEN iffD2])
  ultimately show ?case
    by (simp only: st_bytes.simps Suc.IH fun_upd_triv)
qed simp

lemma ld_st_bytes_disj:
  assumes "disj a n b k"
  shows "ld_bytes n (st_bytes k b v m) a = ld_bytes n m a"
  by (rule ld_bytes_cong, rule st_bytes_other) (rule disj_neq [OF assms])

lemma ld64_st64 [simp]: "ld64 (st64 a v m) a = v"
proof -
  have "unat v mod 256 ^ 8 = unat v"
    using u64_bound [of v] by simp
  then show ?thesis
    by (simp add: ld64_def st64_def ld_st_bytes del: st_bytes.simps)
qed

lemma st64_ld64 [simp]: "st64 a (ld64 m a) m = m"
proof -
  have "unat (ld64 m a) = ld_bytes 8 m a"
    using ld_bytes_bound [of 8 m a] by (simp add: ld64_def unat_of_nat del: ld_bytes.simps)
  then show ?thesis
    by (simp add: st64_def st_ld_bytes del: st_bytes.simps)
qed

lemma ld32_st32 [simp]: "ld32 (st32 a v m) a = v"
proof -
  have "unat v mod 256 ^ 4 = unat v"
    using unsigned_less [of v, where ?'a = nat] by simp
  then show ?thesis
    by (simp add: ld32_def st32_def ld_st_bytes del: st_bytes.simps)
qed

lemma ld8_st8 [simp]: "ld8 (st8 a v m) a = v"
  by (simp add: ld8_def st8_def)

lemma st8_eq: "st8 b v m = st_bytes 1 b (unat v) m"
  by (simp add: st8_def)

lemma ld8_eq: "unat (ld8 m a) = ld_bytes 1 m a"
  by (simp add: ld8_def)

lemma ld64_st64_disj [mem_frame]: "disj a 8 b 8 \<Longrightarrow> ld64 (st64 b v m) a = ld64 m a"
  by (simp only: ld64_def st64_def ld_st_bytes_disj)

lemma ld64_st32_disj [mem_frame]: "disj a 8 b 4 \<Longrightarrow> ld64 (st32 b w m) a = ld64 m a"
  by (simp only: ld64_def st32_def ld_st_bytes_disj)

lemma ld32_st64_disj [mem_frame]: "disj a 4 b 8 \<Longrightarrow> ld32 (st64 b v m) a = ld32 m a"
  by (simp only: ld32_def st64_def ld_st_bytes_disj)

lemma ld32_st32_disj [mem_frame]: "disj a 4 b 4 \<Longrightarrow> ld32 (st32 b w m) a = ld32 m a"
  by (simp only: ld32_def st32_def ld_st_bytes_disj)

lemma ld64_st8_disj [mem_frame]: "disj a 8 b 1 \<Longrightarrow> ld64 (st8 b w m) a = ld64 m a"
  by (simp only: ld64_def st8_eq ld_st_bytes_disj)

lemma ld32_st8_disj [mem_frame]: "disj a 4 b 1 \<Longrightarrow> ld32 (st8 b w m) a = ld32 m a"
  by (simp only: ld32_def st8_eq ld_st_bytes_disj)

lemma st64_other: "(\<And>j. j < 8 \<Longrightarrow> x \<noteq> a + of_nat j) \<Longrightarrow> st64 a v m x = m x"
  unfolding st64_def by (rule st_bytes_other)

lemma st32_other: "(\<And>j. j < 4 \<Longrightarrow> x \<noteq> a + of_nat j) \<Longrightarrow> st32 a v m x = m x"
  unfolding st32_def by (rule st_bytes_other)

lemma ld64_cong: "(\<And>i. i < 8 \<Longrightarrow> m (a + of_nat i) = m' (a + of_nat i)) \<Longrightarrow> ld64 m a = ld64 m' a"
  unfolding ld64_def by (rule arg_cong [where f = of_nat], rule ld_bytes_cong)

lemma ld32_cong: "(\<And>i. i < 4 \<Longrightarrow> m (a + of_nat i) = m' (a + of_nat i)) \<Longrightarrow> ld32 m a = ld32 m' a"
  unfolding ld32_def by (rule arg_cong [where f = of_nat], rule ld_bytes_cong)

lemma ld64_zero: "(\<And>i. i < 8 \<Longrightarrow> m (a + of_nat i) = 0) \<Longrightarrow> ld64 m a = 0"
  unfolding ld64_def using ld_bytes_zero [of 8 m a] by simp

section \<open>Slots of a page\<close>

text \<open>
  A page holds 512 eight-byte slots; the slot \<open>i\<close> of the page at \<open>t\<close> is at
  \<open>t + 8 * i\<close>. All its bytes lie in the page.
\<close>

lemma slot_byte_pgno:
  assumes "aligned t" "i < 512" "j < 8"
  shows "pgno (t + 8 * i + of_nat j) = pgno t"
proof -
  have "unat i < 512"
    using assms(2) by (simp add: word_less_nat_alt)
  with assms(3) have "unat (8 * i + of_nat j) < 4096"
    by (simp add: unat_word_ariths unat_of_nat)
  then have "pgno (t + (8 * i + of_nat j)) = pgno t"
    using assms(1) by (rule pgno_offset [rotated])
  then show ?thesis by (simp add: add.assoc)
qed

lemma slot_disj:
  assumes "i < 512" "j < 512" "i \<noteq> j"
  shows "disj (t + 8 * i) 8 (t + 8 * j) 8"
proof -
  have bounds: "unat i < 512" "unat j < 512" "unat i \<noteq> unat j"
    using assms by (auto simp: word_less_nat_alt word_unat_eq_iff)
  have *: "8 \<le> unat (8 * x - 8 * y)"
    if "unat x < 512" "unat y < 512" "unat x \<noteq> unat y" for x y :: u64
    using that by (auto simp: unat_word_ariths unat_sub_if')
  show ?thesis
    using * [OF bounds] * [of j i] bounds by (simp add: disj_def)
qed

lemma ld64_slot_frame [mem_frame]:
  assumes "aligned t" "i < 512"
    and "\<And>x. pgno x = pgno t \<Longrightarrow> m' x = m x"
  shows "ld64 m' (t + 8 * i) = ld64 m (t + 8 * i)"
  by (rule ld64_cong) (simp add: assms slot_byte_pgno)

lemma st64_slot_other:
  assumes "aligned t" "i < 512" "pgno x \<noteq> pgno t"
  shows "st64 (t + 8 * i) v m x = m x"
proof (rule st64_other)
  fix j :: nat assume "j < 8"
  then have "pgno (t + 8 * i + of_nat j) = pgno t"
    using assms by (intro slot_byte_pgno)
  with assms(3) show "x \<noteq> t + 8 * i + of_nat j" by auto
qed

end
