(* ===== verification/LibString.thy ===== *)
theory LibString
  imports Memory
begin

text \<open>
  \<^verbatim>\<open>olive/src/lib/string.c\<close>: the four byte-block functions the kernel links
  against. Each loop of the C code is a recursive function over the same counter, every
  counter and pointer a 64-bit word. The lemmas give each function's effect on the whole
  memory in closed form, with the exact overlap conditions under which a copy loop
  reproduces the source block.
\<close>

section \<open>The functions\<close>

function memcpy_loop :: "u64 \<Rightarrow> u64 \<Rightarrow> u64 \<Rightarrow> u64 \<Rightarrow> mem \<Rightarrow> mem" where
  "memcpy_loop d s i n m =
     (if i < n then memcpy_loop d s (i + 1) n (st8 (d + i) (ld8 m (s + i)) m) else m)"
  by pat_completeness auto
termination
  by (relation "measure (\<lambda>(d, s, i, n, m). unat n - unat i)")
     (auto simp: unat_Suc_word word_less_nat_alt)

declare memcpy_loop.simps [simp del]

definition memcpy :: "u64 \<Rightarrow> u64 \<Rightarrow> u64 \<Rightarrow> mem \<Rightarrow> u64 \<times> mem" where
  "memcpy d s n m = (d, memcpy_loop d s 0 n m)"

function memset_loop :: "u64 \<Rightarrow> u8 \<Rightarrow> u64 \<Rightarrow> mem \<Rightarrow> mem" where
  "memset_loop p c n m = (if n \<noteq> 0 then memset_loop (p + 1) c (n - 1) (st8 p c m) else m)"
  by pat_completeness auto
termination
  by (relation "measure (\<lambda>(p, c, n, m). unat n)") (auto simp: unat_minus_one unat_gt_0)

declare memset_loop.simps [simp del]

definition memset :: "u64 \<Rightarrow> u32 \<Rightarrow> u64 \<Rightarrow> mem \<Rightarrow> u64 \<times> mem" where
  "memset s c n m = (s, memset_loop s (ucast c) n m)"

function memmove_back_loop :: "u64 \<Rightarrow> u64 \<Rightarrow> u64 \<Rightarrow> mem \<Rightarrow> mem" where
  "memmove_back_loop d s i m =
     (if 0 < i then memmove_back_loop d s (i - 1) (st8 (d + (i - 1)) (ld8 m (s + (i - 1))) m) else m)"
  by pat_completeness auto
termination
  by (relation "measure (\<lambda>(d, s, i, m). unat i)")
     (auto simp: unat_minus_one unat_gt_0 word_gt_0)

declare memmove_back_loop.simps [simp del]

definition memmove :: "u64 \<Rightarrow> u64 \<Rightarrow> u64 \<Rightarrow> mem \<Rightarrow> u64 \<times> mem" where
  "memmove d s n m =
     (if s > d then (d, memcpy_loop d s 0 n m) else (d, memmove_back_loop d s n m))"

function memcmp_loop :: "u64 \<Rightarrow> u64 \<Rightarrow> u64 \<Rightarrow> mem \<Rightarrow> int" where
  "memcmp_loop p1 p2 n m =
     (if n \<noteq> 0 then
        (if ld8 m p1 \<noteq> ld8 m p2 then (if ld8 m p1 < ld8 m p2 then -1 else 1)
         else memcmp_loop (p1 + 1) (p2 + 1) (n - 1) m)
      else 0)"
  by pat_completeness auto
termination
  by (relation "measure (\<lambda>(p1, p2, n, m). unat n)") (auto simp: unat_minus_one unat_gt_0)

declare memcmp_loop.simps [simp del]

definition memcmp :: "u64 \<Rightarrow> u64 \<Rightarrow> u64 \<Rightarrow> mem \<Rightarrow> int" where
  "memcmp s1 s2 n m = memcmp_loop s1 s2 n m"

section \<open>Closed forms\<close>

text \<open>\<open>filled\<close> and \<open>copied\<close> say what memory should be after a fill and a block copy.\<close>

definition filled :: "u64 \<Rightarrow> u8 \<Rightarrow> u64 \<Rightarrow> mem \<Rightarrow> mem" where
  "filled p c n m = (\<lambda>x. if x - p < n then c else m x)"

definition copied :: "u64 \<Rightarrow> u64 \<Rightarrow> u64 \<Rightarrow> mem \<Rightarrow> mem" where
  "copied d s n m = (\<lambda>x. if x - d < n then m (s + (x - d)) else m x)"

lemma word_less_pred:
  fixes n y :: u64
  assumes "n \<noteq> 0"
  shows "y < n \<longleftrightarrow> y = 0 \<or> y - 1 < n - 1"
proof (cases "y = 0")
  case False
  with assms show ?thesis
    by (simp add: word_less_nat_alt unat_minus_one unat_gt_0) (metis Suc_less_eq Suc_pred unat_gt_0)
qed (use assms in \<open>simp add: word_gt_0\<close>)

lemma memset_loop_filled: "memset_loop p c n m = filled p c n m"
proof (induction p c n m rule: memset_loop.induct)
  case (1 p c n m)
  show ?case
  proof (cases "n = 0")
    case True
    then show ?thesis
      by (simp add: memset_loop.simps [of p c 0 m] filled_def)
  next
    case False
    then have "memset_loop p c n m = filled (p + 1) c (n - 1) (st8 p c m)"
      using 1 by (simp add: memset_loop.simps [of p c n m])
    also have "\<dots> = filled p c n m"
    proof
      fix x
      have e: "x - (p + 1) = (x - p) - 1"
        by (simp add: algebra_simps)
      show "filled (p + 1) c (n - 1) (st8 p c m) x = filled p c n m x"
        unfolding filled_def st8_apply e
        using word_less_pred [OF False, of "x - p"] by auto
    qed
    finally show ?thesis .
  qed
qed

lemma memset_filled: "memset s c n m = (s, filled s (ucast c) n m)"
  by (simp add: memset_def memset_loop_filled)

lemma memcpy_loop_copied:
  assumes "d = s \<or> n \<le> d - s"
  shows "memcpy_loop d s i n m = (\<lambda>x. if i \<le> x - d \<and> x - d < n then m (s + (x - d)) else m x)"
  using assms
proof (induction d s i n m rule: memcpy_loop.induct)
  case (1 d s i n m)
  show ?case
  proof (cases "i < n")
    case False
    then have "\<not> (i \<le> y \<and> y < n)" for y
      by auto
    with False show ?thesis
      by (subst memcpy_loop.simps) (simp only: if_False)
  next
    case True
    let ?m = "st8 (d + i) (ld8 m (s + i)) m"
    from True 1 have IH: "memcpy_loop d s i n m =
        (\<lambda>x. if i + 1 \<le> x - d \<and> x - d < n then ?m (s + (x - d)) else ?m x)"
      by (simp add: memcpy_loop.simps [of d s i n m])
    have next_i: "unat (i + 1) = Suc (unat i)"
      using True by (rule unat_Suc_word)
    have kept: "s + y = d + i \<Longrightarrow> i < y \<Longrightarrow> y < n \<Longrightarrow> d = s" for y
    proof -
      assume "s + y = d + i" "i < y" "y < n"
      then have "d - s = y - i" by (simp add: algebra_simps)
      moreover have "y - i < n"
        using \<open>i < y\<close> \<open>y < n\<close> by (simp add: word_less_nat_alt unat_sub_if')
      ultimately show "d = s" using "1.prems" by auto
    qed
    show ?thesis
    proof
      fix x
      have "x = d + i \<longleftrightarrow> x - d = i" by (auto simp: algebra_simps)
      moreover have "i + 1 \<le> x - d \<longleftrightarrow> i < x - d" and "i \<le> x - d \<longleftrightarrow> i < x - d \<or> x - d = i"
        by (auto simp: word_le_nat_alt word_less_nat_alt next_i word_unat_eq_iff)
      ultimately show "memcpy_loop d s i n m x =
          (if i \<le> x - d \<and> x - d < n then m (s + (x - d)) else m x)"
        using True kept [of "x - d"] unfolding IH by (auto simp: algebra_simps st8_apply ld8_def)
    qed
  qed
qed

lemma memmove_back_copied:
  assumes "d = s \<or> n \<le> s - d" "i \<le> n"
  shows "memmove_back_loop d s i m = copied d s i m"
  using assms
proof (induction d s i m rule: memmove_back_loop.induct)
  case (1 d s i m)
  show ?case
  proof (cases "0 < i")
    case False
    then have "i = 0" by (simp add: word_gt_0)
    then show ?thesis
      by (simp add: memmove_back_loop.simps [of d s 0 m] copied_def)
  next
    case True
    let ?m = "st8 (d + (i - 1)) (ld8 m (s + (i - 1))) m"
    have pred: "unat (i - 1) = unat i - 1" "0 < unat i"
      using True by (simp_all add: unat_minus_one unat_gt_0 word_gt_0)
    from pred "1.prems"(2) have "i - 1 \<le> n"
      by (simp add: word_le_nat_alt)
    with True 1 have IH: "memmove_back_loop d s i m = copied d s (i - 1) ?m"
      by (simp add: memmove_back_loop.simps [of d s i m])
    have kept: "s + y = d + (i - 1) \<Longrightarrow> y < i - 1 \<Longrightarrow> d = s" for y
    proof -
      assume "s + y = d + (i - 1)" "y < i - 1"
      then have "s - d = (i - 1) - y" by (simp add: algebra_simps)
      moreover have "(i - 1) - y < n"
        using \<open>y < i - 1\<close> "1.prems"(2) pred
        by (simp add: word_less_nat_alt word_le_nat_alt unat_sub_if')
      ultimately show "d = s" using "1.prems"(1) by auto
    qed
    show ?thesis
    proof
      fix x
      obtain y where x: "x = d + y" by (metis add_diff_eq add_diff_cancel_left')
      have "y < i \<longleftrightarrow> y < i - 1 \<or> y = i - 1"
        using pred by (auto simp: word_less_nat_alt word_unat_eq_iff)
      then show "memmove_back_loop d s i m x = copied d s i m x"
        using kept [of y] unfolding IH copied_def by (auto simp: x st8_apply ld8_def)
    qed
  qed
qed

text \<open>
  A forward copy is right unless the destination starts inside the source, a backward copy
  unless the source starts inside the destination; \<^verbatim>\<open>memmove\<close> picks the right one.
\<close>

lemma memcpy_copied:
  "d = s \<or> n \<le> d - s \<Longrightarrow> memcpy d s n m = (d, copied d s n m)"
  by (simp add: memcpy_def memcpy_loop_copied copied_def)

text \<open>
  C31. \<^verbatim>\<open>memmove\<close> copies correctly however its blocks overlap, as long as neither
  runs past the end of the address space: afterwards the destination holds the old contents
  of the source and every other byte is unchanged.
\<close>

theorem memmove_copied:
  assumes "unat s + unat n \<le> 2 ^ 64" "unat d + unat n \<le> 2 ^ 64"
  shows "memmove d s n m = (d, copied d s n m)"
proof (cases "s > d")
  case True
  then have "n \<le> d - s"
    using assms(1) by (simp add: word_le_nat_alt word_less_nat_alt unat_sub_if')
  with True show ?thesis
    by (simp add: memmove_def memcpy_loop_copied copied_def)
next
  case False
  then have "d = s \<or> n \<le> s - d"
    using assms(2) by (auto simp: word_le_nat_alt word_less_nat_alt unat_sub_if' word_unat_eq_iff)
  then have "memmove_back_loop d s n m = copied d s n m"
    by (rule memmove_back_copied) simp
  with False show ?thesis
    by (simp add: memmove_def)
qed

lemma memmove_copied_witness:
  "snd (memmove 0x1002 0x1000 4 (\<lambda>a. ucast a)) 0x1005 = 3 \<and>
   snd (memmove 0x1002 0x1000 4 (\<lambda>a. ucast a)) 0x1001 = 1"
proof -
  have "memmove 0x1002 0x1000 4 (\<lambda>a. ucast a) = (0x1002, copied 0x1002 0x1000 4 (\<lambda>a. ucast a))"
    by (rule memmove_copied) simp_all
  then show ?thesis by (simp add: copied_def)
qed

section \<open>Comparison\<close>

text \<open>
  The first difference decides: \<open>memcmp\<close> is the sign of the comparison at the least
  offset where the blocks differ, and \<open>0\<close> when there is none.
\<close>

definition first_diff :: "u64 \<Rightarrow> u64 \<Rightarrow> u64 \<Rightarrow> mem \<Rightarrow> u64 \<Rightarrow> bool" where
  "first_diff p q n m k \<longleftrightarrow>
     k < n \<and> m (p + k) \<noteq> m (q + k) \<and> (\<forall>j<k. m (p + j) = m (q + j))"

lemma all_less_pred:
  fixes n :: u64
  assumes "n \<noteq> 0"
  shows "(\<forall>j<n. P j) \<longleftrightarrow> P 0 \<and> (\<forall>j<n - 1. P (j + 1))"
proof (intro iffI conjI allI impI)
  assume *: "\<forall>j<n. P j"
  then show "P 0" using assms by (simp add: word_gt_0)
  fix j assume "j < n - 1"
  then show "P (j + 1)"
    using * word_less_pred [OF assms, of "j + 1"] by simp
next
  fix j assume *: "P 0 \<and> (\<forall>j<n - 1. P (j + 1))" and "j < n"
  then have "j = 0 \<or> j - 1 < n - 1"
    using word_less_pred [OF assms] by simp
  with * show "P j"
    using spec [of "\<lambda>j. j < n - 1 \<longrightarrow> P (j + 1)" "j - 1"] by auto
qed

lemma first_diff_step:
  assumes "n \<noteq> 0" "m p = m q" "first_diff (p + 1) (q + 1) (n - 1) m k"
  shows "first_diff p q n m (k + 1)"
proof -
  have "unat (k + 1) = Suc (unat k)"
    using assms(3) by (intro unat_Suc_word) (auto simp: first_diff_def)
  then have "k + 1 \<noteq> 0" by (metis nat.distinct(1) unat_0)
  then show ?thesis
    using assms word_less_pred [OF assms(1), of "k + 1"] all_less_pred [OF \<open>k + 1 \<noteq> 0\<close>]
    by (simp add: first_diff_def add.assoc add.commute [of 1])
qed

lemma memcmp_loop_cases:
  "(memcmp_loop p q n m = 0 \<and> (\<forall>j<n. m (p + j) = m (q + j))) \<or>
   (\<exists>k. first_diff p q n m k \<and>
      memcmp_loop p q n m = (if m (p + k) < m (q + k) then -1 else 1))"
proof (induction p q n m rule: memcmp_loop.induct)
  case (1 p q n m)
  note eq = memcmp_loop.simps [of p q n m]
  consider (empty) "n = 0" | (diff) "n \<noteq> 0" "m p \<noteq> m q" | (same) "n \<noteq> 0" "m p = m q"
    by blast
  then show ?case
  proof cases
    case empty
    then show ?thesis by (simp add: memcmp_loop.simps [of p q 0 m])
  next
    case diff
    then have "first_diff p q n m 0"
      by (simp add: first_diff_def word_gt_0)
    moreover have "memcmp_loop p q n m = (if m (p + 0) < m (q + 0) then -1 else 1)"
      using diff by (simp add: eq ld8_def)
    ultimately show ?thesis by blast
  next
    case same
    then have loop: "memcmp_loop p q n m = memcmp_loop (p + 1) (q + 1) (n - 1) m"
      by (simp add: eq ld8_def)
    have "(memcmp_loop (p + 1) (q + 1) (n - 1) m = 0 \<and>
        (\<forall>j<n - 1. m (p + 1 + j) = m (q + 1 + j))) \<or>
      (\<exists>k. first_diff (p + 1) (q + 1) (n - 1) m k \<and>
        memcmp_loop (p + 1) (q + 1) (n - 1) m =
          (if m (p + 1 + k) < m (q + 1 + k) then -1 else 1))"
      using 1 same by (simp add: ld8_def)
    then show ?thesis
    proof (elim disjE exE conjE)
      assume "\<forall>j<n - 1. m (p + 1 + j) = m (q + 1 + j)"
        and "memcmp_loop (p + 1) (q + 1) (n - 1) m = 0"
      with same show ?thesis
        using all_less_pred [OF same(1), of "\<lambda>j. m (p + j) = m (q + j)"]
        by (simp add: loop add.assoc add.commute [of 1])
    next
      fix k assume "first_diff (p + 1) (q + 1) (n - 1) m k"
        and "memcmp_loop (p + 1) (q + 1) (n - 1) m =
          (if m (p + 1 + k) < m (q + 1 + k) then -1 else 1)"
      with same first_diff_step [OF same] show ?thesis
        by (intro disjI2 exI [of _ "k + 1"]) (simp add: loop add.assoc add.commute [of 1])
    qed
  qed
qed

text \<open>
  \<^verbatim>\<open>memcmp\<close> is \<open>0\<close> exactly when the two blocks are equal, negative when the byte
  of the first block is smaller at the least offset where they differ, and \<open>1\<close> when it is
  larger there.
\<close>

lemma memcmp_first_difference:
  "(memcmp p q n m = 0 \<longleftrightarrow> (\<forall>j<n. m (p + j) = m (q + j))) \<and>
   (memcmp p q n m = -1 \<longleftrightarrow> (\<exists>k. first_diff p q n m k \<and> m (p + k) < m (q + k))) \<and>
   (memcmp p q n m = 1 \<longleftrightarrow> (\<exists>k. first_diff p q n m k \<and> m (q + k) < m (p + k)))"
proof -
  have unique: "k = l" if "first_diff p q n m k" "first_diff p q n m l" for k l
    using that by (metis first_diff_def linorder_neqE)
  have none: "\<not> (\<forall>j<n. m (p + j) = m (q + j))" if "first_diff p q n m k" for k
    using that by (auto simp: first_diff_def)
  show ?thesis
    using memcmp_loop_cases [of p q n m]
  proof (elim disjE exE conjE)
    assume z: "memcmp_loop p q n m = 0" and eq: "\<forall>j<n. m (p + j) = m (q + j)"
    then have "\<nexists>k. first_diff p q n m k" using none by blast
    with z eq show ?thesis by (simp add: memcmp_def)
  next
    fix k assume k: "first_diff p q n m k"
      and r: "memcmp_loop p q n m = (if m (p + k) < m (q + k) then -1 else 1)"
    have at_k: "(\<exists>l. first_diff p q n m l \<and> P l) \<longleftrightarrow> P k" for P
      using k unique [OF k] by blast
    have "m (p + k) \<noteq> m (q + k)" using k by (simp add: first_diff_def)
    then have "m (q + k) < m (p + k) \<longleftrightarrow> \<not> m (p + k) < m (q + k)" by auto
    then show ?thesis
      using r none [OF k] unfolding memcmp_def at_k by simp
  qed
qed

lemma memcmp_first_difference_witness:
  "memcmp 0x1000 0x1001 4 (\<lambda>a. ucast a) = -1 \<and> memcmp 0x1000 0x2000 0x1000 (\<lambda>_. 7) = 0"
proof -
  have "first_diff 0x1000 0x1001 4 (\<lambda>a. ucast a) 0" by (simp add: first_diff_def)
  then have "\<exists>k. first_diff 0x1000 0x1001 4 (\<lambda>a. ucast a) k \<and>
      (ucast (0x1000 + k) :: u8) < ucast (0x1001 + k)" by (intro exI [of _ 0]) simp
  then have "memcmp 0x1000 0x1001 4 (\<lambda>a. ucast a) = -1"
    using memcmp_first_difference [of "0x1000" "0x1001" 4 "\<lambda>a. ucast a"] by simp
  moreover have "memcmp 0x1000 0x2000 0x1000 (\<lambda>_. 7) = 0"
    using memcmp_first_difference [of "0x1000" "0x2000" "0x1000" "\<lambda>_. 7"] by simp
  ultimately show ?thesis by simp
qed

end
