(* ===== verification/Nanoprintf.thy ===== *)
theory Nanoprintf
  imports Memory "HOL-Library.Signed_Division"
begin

text \<open>
  The formatter \<^verbatim>\<open>olive/include/lib/internal/nanoprintf.h\<close> in the configuration of
  \<^verbatim>\<open>olive/src/lib/printf.c\<close>: field widths, precisions and the large length modifiers on;
  floats, binary and write-back off. The parts of the header for the options that are off
  are not compiled and not modelled.

  A C string is the list of its characters up to the terminating null, so that reading the
  terminator is reading the end of the list. The variable arguments are a list of eight-byte
  slots and strings; \<open>None\<close> is the undefined behaviour of a missing or mistyped argument.
  Values of type \<open>int\<close> are mathematical integers: the code is undefined where they overflow.
\<close>

section \<open>Format specifications\<close>

datatype npf_fmt_spec_opt_t =
    NPF_FMT_SPEC_OPT_NONE
  | NPF_FMT_SPEC_OPT_LITERAL
  | NPF_FMT_SPEC_OPT_STAR

datatype npf_format_spec_length_modifier_t =
    NPF_FMT_SPEC_LEN_MOD_NONE
  | NPF_FMT_SPEC_LEN_MOD_SHORT
  | NPF_FMT_SPEC_LEN_MOD_LONG_DOUBLE
  | NPF_FMT_SPEC_LEN_MOD_CHAR
  | NPF_FMT_SPEC_LEN_MOD_LONG
  | NPF_FMT_SPEC_LEN_MOD_LARGE_LONG_LONG
  | NPF_FMT_SPEC_LEN_MOD_LARGE_INTMAX
  | NPF_FMT_SPEC_LEN_MOD_LARGE_SIZET
  | NPF_FMT_SPEC_LEN_MOD_LARGE_PTRDIFFT

datatype npf_format_spec_conversion_t =
    NPF_FMT_SPEC_CONV_PERCENT
  | NPF_FMT_SPEC_CONV_CHAR
  | NPF_FMT_SPEC_CONV_STRING
  | NPF_FMT_SPEC_CONV_SIGNED_INT
  | NPF_FMT_SPEC_CONV_OCTAL
  | NPF_FMT_SPEC_CONV_HEX_INT
  | NPF_FMT_SPEC_CONV_UNSIGNED_INT
  | NPF_FMT_SPEC_CONV_POINTER

text \<open>The flags the code keeps as \<open>char\<close> and only tests for zero are truth values here.\<close>

record npf_format_spec_t =
  prepend :: char
  alt_form :: bool
  field_width_opt :: npf_fmt_spec_opt_t
  field_width :: int
  left_justified :: bool
  leading_zero_pad :: bool
  prec_opt :: npf_fmt_spec_opt_t
  prec :: int
  length_modifier :: npf_format_spec_length_modifier_t
  conv_spec :: npf_format_spec_conversion_t
  case_adjust :: nat

definition NUL :: char where "NUL = CHR 0x00"

section \<open>Parsing\<close>

definition empty_spec :: npf_format_spec_t where
  "empty_spec =
     \<lparr>prepend = NUL, alt_form = False, field_width_opt = NPF_FMT_SPEC_OPT_NONE, field_width = 0,
      left_justified = False, leading_zero_pad = False, prec_opt = NPF_FMT_SPEC_OPT_NONE, prec = 0,
      length_modifier = NPF_FMT_SPEC_LEN_MOD_NONE, conv_spec = NPF_FMT_SPEC_CONV_PERCENT,
      case_adjust = 32\<rparr>"

fun parse_flags :: "npf_format_spec_t \<Rightarrow> string \<Rightarrow> npf_format_spec_t \<times> string" where
  "parse_flags sp [] = (sp, [])"
| "parse_flags sp (c # cs) =
     (if c = CHR ''-'' then parse_flags (sp\<lparr>left_justified := True, leading_zero_pad := False\<rparr>) cs
      else if c = CHR ''0'' then parse_flags (sp\<lparr>leading_zero_pad := \<not> left_justified sp\<rparr>) cs
      else if c = CHR ''+'' then parse_flags (sp\<lparr>prepend := CHR ''+''\<rparr>) cs
      else if c = CHR '' '' then
        parse_flags (if prepend sp = NUL then sp\<lparr>prepend := CHR '' ''\<rparr> else sp) cs
      else if c = CHR ''#'' then parse_flags (sp\<lparr>alt_form := True\<rparr>) cs
      else (sp, c # cs))"

definition is_digit :: "char \<Rightarrow> bool" where
  "is_digit c \<longleftrightarrow> 48 \<le> (of_char c :: nat) \<and> (of_char c :: nat) \<le> 57"

fun parse_digits :: "int \<Rightarrow> string \<Rightarrow> int \<times> string" where
  "parse_digits n [] = (n, [])"
| "parse_digits n (c # cs) =
     (if is_digit c then parse_digits (n * 10 + (of_char c - 48)) cs else (n, c # cs))"

fun parse_width :: "npf_format_spec_t \<Rightarrow> string \<Rightarrow> npf_format_spec_t \<times> string" where
  "parse_width sp [] = (sp\<lparr>field_width_opt := NPF_FMT_SPEC_OPT_NONE, field_width := 0\<rparr>, [])"
| "parse_width sp (c # cs) =
     (if c = CHR ''*'' then (sp\<lparr>field_width_opt := NPF_FMT_SPEC_OPT_STAR\<rparr>, cs)
      else
        (case parse_digits 0 (c # cs) of
           (n, rest) \<Rightarrow>
             (sp\<lparr>field_width_opt := (if is_digit c then NPF_FMT_SPEC_OPT_LITERAL
                                    else NPF_FMT_SPEC_OPT_NONE),
                 field_width := n\<rparr>, rest)))"

fun parse_precision :: "npf_format_spec_t \<Rightarrow> string \<Rightarrow> npf_format_spec_t \<times> string" where
  "parse_precision sp cs =
     (let sp0 = sp\<lparr>prec := 0, prec_opt := NPF_FMT_SPEC_OPT_NONE\<rparr> in
      case cs of
        [] \<Rightarrow> (sp0, [])
      | c # ds \<Rightarrow>
          if c \<noteq> CHR ''.'' then (sp0, cs)
          else
            (case ds of
               [] \<Rightarrow> (sp0\<lparr>prec_opt := NPF_FMT_SPEC_OPT_LITERAL\<rparr>, [])
             | d # es \<Rightarrow>
                 if d = CHR ''*'' then (sp0\<lparr>prec_opt := NPF_FMT_SPEC_OPT_STAR\<rparr>, es)
                 else if d = CHR ''-'' then
                   (case parse_digits 0 es of (n, rest) \<Rightarrow> (sp0\<lparr>prec := n\<rparr>, rest))
                 else
                   (case parse_digits 0 ds of (n, rest) \<Rightarrow>
                      (sp0\<lparr>prec_opt := NPF_FMT_SPEC_OPT_LITERAL, prec := n\<rparr>, rest))))"

fun parse_length :: "string \<Rightarrow> npf_format_spec_length_modifier_t \<times> string" where
  "parse_length [] = (NPF_FMT_SPEC_LEN_MOD_NONE, [])"
| "parse_length (c # cs) =
     (if c = CHR ''h'' then
        (case cs of
           d # ds \<Rightarrow> if d = CHR ''h'' then (NPF_FMT_SPEC_LEN_MOD_CHAR, ds)
                     else (NPF_FMT_SPEC_LEN_MOD_SHORT, cs)
         | [] \<Rightarrow> (NPF_FMT_SPEC_LEN_MOD_SHORT, cs))
      else if c = CHR ''l'' then
        (case cs of
           d # ds \<Rightarrow> if d = CHR ''l'' then (NPF_FMT_SPEC_LEN_MOD_LARGE_LONG_LONG, ds)
                     else (NPF_FMT_SPEC_LEN_MOD_LONG, cs)
         | [] \<Rightarrow> (NPF_FMT_SPEC_LEN_MOD_LONG, cs))
      else if c = CHR ''j'' then (NPF_FMT_SPEC_LEN_MOD_LARGE_INTMAX, cs)
      else if c = CHR ''z'' then (NPF_FMT_SPEC_LEN_MOD_LARGE_SIZET, cs)
      else if c = CHR ''t'' then (NPF_FMT_SPEC_LEN_MOD_LARGE_PTRDIFFT, cs)
      else (NPF_FMT_SPEC_LEN_MOD_NONE, c # cs))"

text \<open>
  The conversion character. The integer conversions share the end of their fall-through
  cases, where a precision switches the zero flag off.
\<close>

definition integer_spec :: "npf_format_spec_conversion_t \<Rightarrow> npf_format_spec_t \<Rightarrow> npf_format_spec_t" where
  "integer_spec cv sp =
     sp\<lparr>conv_spec := cv,
        leading_zero_pad := (leading_zero_pad sp \<and> prec_opt sp = NPF_FMT_SPEC_OPT_NONE)\<rparr>"

definition parse_conversion :: "npf_format_spec_t \<Rightarrow> char \<Rightarrow> npf_format_spec_t option" where
  "parse_conversion sp c =
     (if c = CHR ''%'' then
        Some (sp\<lparr>conv_spec := NPF_FMT_SPEC_CONV_PERCENT, prec_opt := NPF_FMT_SPEC_OPT_NONE\<rparr>)
      else if c = CHR ''c'' then
        Some (sp\<lparr>conv_spec := NPF_FMT_SPEC_CONV_CHAR, prec_opt := NPF_FMT_SPEC_OPT_NONE\<rparr>)
      else if c = CHR ''s'' then
        Some (sp\<lparr>conv_spec := NPF_FMT_SPEC_CONV_STRING, leading_zero_pad := False\<rparr>)
      else if c = CHR ''i'' \<or> c = CHR ''d'' then
        Some (integer_spec NPF_FMT_SPEC_CONV_SIGNED_INT sp)
      else if c = CHR ''o'' then Some (integer_spec NPF_FMT_SPEC_CONV_OCTAL sp)
      else if c = CHR ''u'' then Some (integer_spec NPF_FMT_SPEC_CONV_UNSIGNED_INT sp)
      else if c = CHR ''X'' then
        Some (integer_spec NPF_FMT_SPEC_CONV_HEX_INT (sp\<lparr>case_adjust := 0\<rparr>))
      else if c = CHR ''x'' then Some (integer_spec NPF_FMT_SPEC_CONV_HEX_INT sp)
      else if c = CHR ''p'' then
        Some (sp\<lparr>conv_spec := NPF_FMT_SPEC_CONV_POINTER, prec_opt := NPF_FMT_SPEC_OPT_NONE\<rparr>)
      else None)"

text \<open>
  \<open>npf_parse_format_spec\<close> on the text after the percent sign: the specification and the
  text behind it, or \<open>None\<close> for the result \<open>0\<close>.
\<close>

definition npf_parse_format_spec :: "string \<Rightarrow> (npf_format_spec_t \<times> string) option" where
  "npf_parse_format_spec cs =
     (case parse_flags empty_spec cs of (sp1, cs1) \<Rightarrow>
      case parse_width sp1 cs1 of (sp2, cs2) \<Rightarrow>
      case parse_precision sp2 cs2 of (sp3, cs3) \<Rightarrow>
      case parse_length cs3 of (lm, cs4) \<Rightarrow>
      case cs4 of
        [] \<Rightarrow> None
      | c # rest \<Rightarrow> map_option (\<lambda>sp. (sp, rest)) (parse_conversion (sp3\<lparr>length_modifier := lm\<rparr>) c))"

section \<open>Digits\<close>

text \<open>The digits of a signed number, least significant first; the sign is not among them.\<close>

function npf_itoa_rev :: "int \<Rightarrow> string" where
  "npf_itoa_rev i =
     (let sign = (if i \<ge> 0 then 1 else -1);
          d = char_of (48 + sign * (i smod 10));
          j = i sdiv 10
      in d # (if j \<noteq> 0 then npf_itoa_rev j else []))"
  by pat_completeness auto
termination
proof (relation "measure (\<lambda>i. nat \<bar>i\<bar>)")
  fix sign i d j :: int
  assume "j = i sdiv 10" "j \<noteq> 0"
  then have "i \<noteq> 0" by auto
  then show "(j, i) \<in> measure (\<lambda>i. nat \<bar>i\<bar>)"
    using \<open>j = i sdiv 10\<close> by (auto simp: signed_divide_int_def abs_mult sgn_if abs_div_pos)
qed simp

text \<open>The digits of an unsigned number in a base; for the base \<open>1\<close> the loop never ends.\<close>

definition digit_char :: "nat \<Rightarrow> u64 \<Rightarrow> char" where
  "digit_char case_adj d = char_of (if d < 10 then 48 + unat d else 65 + case_adj + (unat d - 10))"

partial_function (option) npf_utoa_rev :: "u64 \<Rightarrow> u64 \<Rightarrow> nat \<Rightarrow> string option" where
  "npf_utoa_rev i base case_adj =
     (let d = digit_char case_adj (i mod base); j = i div base
      in if j \<noteq> 0 then Option.bind (npf_utoa_rev j base case_adj) (\<lambda>ds. Some (d # ds))
         else Some [d])"

declare npf_utoa_rev.simps [code]

section \<open>Arguments\<close>

datatype va = Slot u64 | Str string

definition c_string :: "string \<Rightarrow> string" where
  "c_string s = takeWhile (\<lambda>c. c \<noteq> NUL) s"

fun va_slot :: "va list \<Rightarrow> (u64 \<times> va list) option" where
  "va_slot (Slot w # as) = Some (w, as)"
| "va_slot _ = None"

fun va_str :: "va list \<Rightarrow> (string \<times> va list) option" where
  "va_str (Str s # as) = Some (c_string s, as)"
| "va_str _ = None"

definition va_int :: "va list \<Rightarrow> (int \<times> va list) option" where
  "va_int as = map_option (\<lambda>(w, r). (sint (ucast w :: u32), r)) (va_slot as)"

definition extract_signed :: "npf_format_spec_length_modifier_t \<Rightarrow> u64 \<Rightarrow> int" where
  "extract_signed lm w =
     (case lm of
        NPF_FMT_SPEC_LEN_MOD_NONE \<Rightarrow> sint (ucast w :: u32)
      | NPF_FMT_SPEC_LEN_MOD_SHORT \<Rightarrow> sint (ucast w :: u16)
      | NPF_FMT_SPEC_LEN_MOD_LONG_DOUBLE \<Rightarrow> sint (ucast w :: u32)
      | NPF_FMT_SPEC_LEN_MOD_CHAR \<Rightarrow> sint (ucast w :: u8)
      | _ \<Rightarrow> sint w)"

definition extract_unsigned :: "npf_format_spec_length_modifier_t \<Rightarrow> u64 \<Rightarrow> u64" where
  "extract_unsigned lm w =
     (case lm of
        NPF_FMT_SPEC_LEN_MOD_NONE \<Rightarrow> ucast (ucast w :: u32)
      | NPF_FMT_SPEC_LEN_MOD_SHORT \<Rightarrow> ucast (ucast w :: u16)
      | NPF_FMT_SPEC_LEN_MOD_LONG_DOUBLE \<Rightarrow> ucast (ucast w :: u32)
      | NPF_FMT_SPEC_LEN_MOD_CHAR \<Rightarrow> ucast (ucast w :: u8)
      | _ \<Rightarrow> w)"

text \<open>The star arguments, taken before the conversion's own.\<close>

definition star_width :: "npf_format_spec_t \<Rightarrow> va list \<Rightarrow> (npf_format_spec_t \<times> va list) option" where
  "star_width fs as =
     (if field_width_opt fs = NPF_FMT_SPEC_OPT_STAR then
        map_option (\<lambda>(w, r).
          (fs\<lparr>field_width_opt := NPF_FMT_SPEC_OPT_LITERAL, field_width := \<bar>w\<bar>,
              left_justified := (left_justified fs \<or> w < 0)\<rparr>, r)) (va_int as)
      else Some (fs, as))"

definition star_prec :: "npf_format_spec_t \<Rightarrow> va list \<Rightarrow> (npf_format_spec_t \<times> va list) option" where
  "star_prec fs as =
     (if prec_opt fs = NPF_FMT_SPEC_OPT_STAR then
        map_option (\<lambda>(p, r).
          (fs\<lparr>prec_opt := (if p \<ge> 0 then NPF_FMT_SPEC_OPT_LITERAL else NPF_FMT_SPEC_OPT_NONE),
              prec := p\<rparr>, r)) (va_int as)
      else Some (fs, as))"

section \<open>Converting one argument\<close>

text \<open>The locals of the main loop after its big \<open>switch\<close>; \<open>NUL\<close> for an unset character.\<close>

record conversion =
  cbuf :: string
  sign_c :: char
  need_0x :: char
  zero :: bool

definition convert_signed ::
  "npf_format_spec_t \<Rightarrow> int \<Rightarrow> conversion \<times> npf_format_spec_t" where
  "convert_signed fs val =
     (\<lparr>cbuf = (if val = 0 \<and> prec_opt fs = NPF_FMT_SPEC_OPT_LITERAL \<and> prec fs = 0 then []
               else npf_itoa_rev val),
       sign_c = (if val < 0 then CHR ''-'' else prepend fs),
       need_0x = NUL, zero = (val = 0)\<rparr>, fs)"

definition convert_base :: "npf_format_spec_conversion_t \<Rightarrow> u64" where
  "convert_base cv =
     (if cv = NPF_FMT_SPEC_CONV_OCTAL then 8 else if cv = NPF_FMT_SPEC_CONV_HEX_INT then 16 else 10)"

definition convert_unsigned ::
  "npf_format_spec_t \<Rightarrow> u64 \<Rightarrow> (conversion \<times> npf_format_spec_t) option" where
  "convert_unsigned fs val =
     (let nothing = (val = 0 \<and> prec_opt fs = NPF_FMT_SPEC_OPT_LITERAL \<and> prec fs = 0);
          fs1 = (if nothing \<and> conv_spec fs = NPF_FMT_SPEC_CONV_OCTAL \<and> alt_form fs
                 then fs\<lparr>prec := 1\<rparr> else fs)
      in Option.bind
           (if nothing then Some []
            else npf_utoa_rev val (convert_base (conv_spec fs)) (case_adjust fs)) (\<lambda>ds.
         Some
           (\<lparr>cbuf = (if val \<noteq> 0 \<and> alt_form fs \<and> conv_spec fs = NPF_FMT_SPEC_CONV_OCTAL
                     then ds @ [CHR ''0''] else ds),
             sign_c = NUL,
             need_0x = (if val \<noteq> 0 \<and> alt_form fs \<and> conv_spec fs = NPF_FMT_SPEC_CONV_HEX_INT
                        then char_of (88 + case_adjust fs) else NUL),
             zero = (val = 0)\<rparr>, fs1)))"

definition npf_convert ::
  "npf_format_spec_t \<Rightarrow> va list \<Rightarrow> (conversion \<times> npf_format_spec_t \<times> va list) option" where
  "npf_convert fs as =
     (let plain = (\<lambda>text. \<lparr>cbuf = text, sign_c = NUL, need_0x = NUL, zero = False\<rparr>) in
      case conv_spec fs of
        NPF_FMT_SPEC_CONV_PERCENT \<Rightarrow> Some (plain ''%'', fs, as)
      | NPF_FMT_SPEC_CONV_CHAR \<Rightarrow>
          map_option (\<lambda>(w, r). (plain [char_of (unat (ucast w :: u8))], fs, r)) (va_slot as)
      | NPF_FMT_SPEC_CONV_STRING \<Rightarrow>
          map_option (\<lambda>(s, r).
            (plain (if prec_opt fs = NPF_FMT_SPEC_OPT_NONE then s else take (nat (prec fs)) s), fs, r))
            (va_str as)
      | NPF_FMT_SPEC_CONV_SIGNED_INT \<Rightarrow>
          map_option (\<lambda>(w, r).
            case convert_signed fs (extract_signed (length_modifier fs) w) of (cv, fs') \<Rightarrow> (cv, fs', r))
            (va_slot as)
      | NPF_FMT_SPEC_CONV_POINTER \<Rightarrow>
          Option.bind (va_slot as) (\<lambda>(w, r).
          Option.bind (npf_utoa_rev w 16 32) (\<lambda>ds.
            Some (\<lparr>cbuf = ds, sign_c = NUL, need_0x = CHR ''x'', zero = False\<rparr>, fs, r)))
      | _ \<Rightarrow>
          Option.bind (va_slot as) (\<lambda>(w, r).
          Option.bind (convert_unsigned fs (extract_unsigned (length_modifier fs) w)) (\<lambda>(cv, fs').
            Some (cv, fs', r))))"

section \<open>Output\<close>

text \<open>The counting wrapper around the caller's character sink; the state is count and context.\<close>

definition npf_putc_cnt :: "(char \<Rightarrow> 'c \<Rightarrow> 'c) \<Rightarrow> char \<Rightarrow> int \<times> 'c \<Rightarrow> int \<times> 'c" where
  "npf_putc_cnt pc c st = (case st of (n, ctx) \<Rightarrow> (n + 1, pc c ctx))"

abbreviation put_all :: "(char \<Rightarrow> 'c \<Rightarrow> 'c) \<Rightarrow> string \<Rightarrow> int \<times> 'c \<Rightarrow> int \<times> 'c" where
  "put_all pc cs st \<equiv> fold (npf_putc_cnt pc) cs st"

definition pad_char :: "npf_format_spec_t \<Rightarrow> conversion \<Rightarrow> char" where
  "pad_char fs cv =
     (if field_width_opt fs = NPF_FMT_SPEC_OPT_LITERAL then
        if leading_zero_pad fs then
          if conv_spec fs \<noteq> NPF_FMT_SPEC_CONV_STRING \<and> conv_spec fs \<noteq> NPF_FMT_SPEC_CONV_CHAR \<and>
             conv_spec fs \<noteq> NPF_FMT_SPEC_CONV_PERCENT
          then if prec_opt fs = NPF_FMT_SPEC_OPT_LITERAL \<and> prec fs = 0 \<and> zero cv
               then CHR '' '' else CHR ''0''
          else NUL
        else CHR '' ''
      else NUL)"

definition prec_pad :: "npf_format_spec_t \<Rightarrow> conversion \<Rightarrow> int" where
  "prec_pad fs cv =
     (if conv_spec fs \<noteq> NPF_FMT_SPEC_CONV_STRING then max 0 (prec fs - int (length (cbuf cv))) else 0)"

definition field_pad :: "npf_format_spec_t \<Rightarrow> conversion \<Rightarrow> int" where
  "field_pad fs cv =
     max 0 (field_width fs - int (length (cbuf cv)) - (if sign_c cv \<noteq> NUL then 1 else 0) -
            (if need_0x cv \<noteq> NUL then 2 else 0) - prec_pad fs cv)"

definition npf_emit ::
  "(char \<Rightarrow> 'c \<Rightarrow> 'c) \<Rightarrow> npf_format_spec_t \<Rightarrow> conversion \<Rightarrow> int \<times> 'c \<Rightarrow> int \<times> 'c" where
  "npf_emit pc fs cv st =
     (let pad_c = pad_char fs cv;
          field = replicate (nat (field_pad fs cv)) pad_c;
          put_sign = (\<lambda>st. if sign_c cv \<noteq> NUL then npf_putc_cnt pc (sign_c cv) st else st);
          put_0x = (\<lambda>st. if need_0x cv \<noteq> NUL then put_all pc [CHR ''0'', need_0x cv] st else st);
          sign_first = (\<not> left_justified fs \<and> pad_c = CHR ''0'');
          st1 = (if \<not> left_justified fs \<and> pad_c \<noteq> NUL then
                   let st' = (if pad_c = CHR ''0'' then put_0x (put_sign st) else st);
                       st'' = put_all pc field st'
                   in if pad_c \<noteq> CHR ''0'' then put_0x st'' else st''
                 else put_0x st);
          st2 = (if conv_spec fs = NPF_FMT_SPEC_CONV_STRING then put_all pc (cbuf cv) st1
                 else put_all pc (rev (cbuf cv))
                        (put_all pc (replicate (nat (prec_pad fs cv)) CHR ''0'')
                           (if sign_first then st1 else put_sign st1)))
      in if left_justified fs \<and> pad_c \<noteq> NUL then put_all pc field st2 else st2)"

section \<open>The main loop\<close>

lemma parse_digits_length: "parse_digits n cs = (m, ds) \<Longrightarrow> length ds \<le> length cs"
  by (induction n cs rule: parse_digits.induct) (auto split: if_splits)

lemma parse_flags_length: "parse_flags sp cs = (sp', ds) \<Longrightarrow> length ds \<le> length cs"
  by (induction sp cs rule: parse_flags.induct) (auto split: if_splits)

lemma parse_width_length: "parse_width sp cs = (sp', ds) \<Longrightarrow> length ds \<le> length cs"
  by (cases cs) (auto split: if_splits prod.splits dest: parse_digits_length simp del: parse_digits.simps)

lemma parse_precision_length: "parse_precision sp cs = (sp', ds) \<Longrightarrow> length ds \<le> length cs"
  by (auto simp: Let_def split: if_splits prod.splits list.splits
      dest!: parse_digits_length simp del: parse_digits.simps)

lemma parse_length_length: "parse_length cs = (lm, ds) \<Longrightarrow> length ds \<le> length cs"
  by (cases cs) (auto split: if_splits list.splits)

lemma npf_parse_shorter:
  "npf_parse_format_spec cs = Some (sp, rest) \<Longrightarrow> length rest < length cs"
  by (auto simp: npf_parse_format_spec_def split: prod.splits list.splits
      dest!: parse_flags_length parse_width_length parse_precision_length parse_length_length
      simp del: parse_flags.simps parse_width.simps parse_precision.simps parse_length.simps)

function npf_loop ::
  "(char \<Rightarrow> 'c \<Rightarrow> 'c) \<Rightarrow> string \<Rightarrow> va list \<Rightarrow> int \<times> 'c \<Rightarrow> (int \<times> 'c) option" where
  "npf_loop pc [] as st = Some st"
| "npf_loop pc (c # cs) as st =
     (case (if c \<noteq> CHR ''%'' then None else npf_parse_format_spec cs) of
        None \<Rightarrow> npf_loop pc cs as (npf_putc_cnt pc c st)
      | Some (fs, rest) \<Rightarrow>
          Option.bind (star_width fs as) (\<lambda>(fs1, as1).
          Option.bind (star_prec fs1 as1) (\<lambda>(fs2, as2).
          Option.bind (npf_convert fs2 as2) (\<lambda>(cv, fs3, as3).
            npf_loop pc rest as3 (npf_emit pc fs3 cv st)))))"
  by pat_completeness auto
termination
  by (relation "measure (\<lambda>(pc, cs, as, st). length cs)")
     (auto split: if_splits dest!: npf_parse_shorter)

definition npf_vpprintf ::
  "(char \<Rightarrow> 'c \<Rightarrow> 'c) \<Rightarrow> 'c \<Rightarrow> string \<Rightarrow> va list \<Rightarrow> (int \<times> 'c) option" where
  "npf_vpprintf pc pc_ctx format as = npf_loop pc (c_string format) as (0, pc_ctx)"

section \<open>Printing into a buffer\<close>

record npf_bufputc_ctx_t =
  dst :: u64
  len :: u64
  cur :: u64

text \<open>The context is the struct and the byte memory its \<open>dst\<close> points into.\<close>

definition npf_bufputc :: "char \<Rightarrow> npf_bufputc_ctx_t \<times> mem \<Rightarrow> npf_bufputc_ctx_t \<times> mem" where
  "npf_bufputc c ctx =
     (case ctx of (bpc, m) \<Rightarrow>
        if cur bpc < len bpc
        then (bpc\<lparr>cur := cur bpc + 1\<rparr>, st8 (dst bpc + cur bpc) (of_char c) m)
        else (bpc, m))"

definition npf_bufputc_nop :: "char \<Rightarrow> 'c \<Rightarrow> 'c" where
  "npf_bufputc_nop c ctx = ctx"

definition npf_vsnprintf ::
  "u64 \<Rightarrow> u64 \<Rightarrow> string \<Rightarrow> va list \<Rightarrow> mem \<Rightarrow> (int \<times> mem) option" where
  "npf_vsnprintf buffer bufsz format as m =
     (let pc = (if buffer \<noteq> 0 then npf_bufputc else npf_bufputc_nop) in
      Option.bind (npf_vpprintf pc (\<lparr>dst = buffer, len = bufsz, cur = 0\<rparr>, m) format as) (\<lambda>(n, ctx).
        case pc NUL ctx of (_, m1) \<Rightarrow>
          Some (n, if buffer \<noteq> 0 \<and> bufsz \<noteq> 0 then st8 (buffer + (bufsz - 1)) 0 m1 else m1)))"

definition npf_pprintf ::
  "(char \<Rightarrow> 'c \<Rightarrow> 'c) \<Rightarrow> 'c \<Rightarrow> string \<Rightarrow> va list \<Rightarrow> (int \<times> 'c) option" where
  "npf_pprintf pc pc_ctx format as = npf_vpprintf pc pc_ctx format as"

definition npf_snprintf ::
  "u64 \<Rightarrow> u64 \<Rightarrow> string \<Rightarrow> va list \<Rightarrow> mem \<Rightarrow> (int \<times> mem) option" where
  "npf_snprintf buffer bufsz format as m = npf_vsnprintf buffer bufsz format as m"

end
