(* ===== verification/Klog.thy ===== *)
theory Klog
  imports Nanoprintf
begin

text \<open>
  The kernel log as data. One use of a log macro of \<^verbatim>\<open>olive/include/olive.h\<close> is its level, its
  format and its arguments. The memory managers and the heap record their lines in the state
  (field \<open>klog\<close> of \<open>pmm_state\<close>), in the order the code prints them; \<open>Console\<close> has the
  macro itself, and \<open>flush_log\<close> there prints what was recorded.
\<close>

type_synonym log_line = "string \<times> string \<times> va list"

abbreviation FATAL :: "string \<Rightarrow> va list \<Rightarrow> log_line" where "FATAL fmt as \<equiv> (''FATAL'', fmt, as)"
abbreviation WARN :: "string \<Rightarrow> va list \<Rightarrow> log_line" where "WARN fmt as \<equiv> (''WARN'', fmt, as)"
abbreviation ALERT :: "string \<Rightarrow> va list \<Rightarrow> log_line" where "ALERT fmt as \<equiv> (''ALERT'', fmt, as)"
abbreviation ERROR :: "string \<Rightarrow> va list \<Rightarrow> log_line" where "ERROR fmt as \<equiv> (''ERROR'', fmt, as)"
abbreviation INFO :: "string \<Rightarrow> va list \<Rightarrow> log_line" where "INFO fmt as \<equiv> (''INFO'', fmt, as)"

definition nl :: string where "nl = [CHR 0x0A]"

end
