(* ===== verification/Pmm.thy ===== *)
theory Pmm
  imports LibString Klog
begin

text \<open>
  The physical memory manager, \<^verbatim>\<open>olive/src/mm/pmm.c\<close>. Free page frames are kept
  on a stack of 64-bit physical addresses (\<open>pm_stack\<close>, grown upwards, \<open>pm_stack_idx\<close>
  entries used) that lives in memory itself, in a block taken off the last memory-map entry
  with room for it. The model keeps the C file's globals as record fields, the stack in the
  byte memory, and every counter a 64-bit word. The abstraction \<open>free_list\<close> reads the stack
  back as a list; the lemmas say what each operation does to it.

  The Limine memory map is the bootloader's: it is a list of entries with a base, a length
  and a type, of which the kernel only rewrites a length. Log lines are recorded in \<open>klog\<close>.
\<close>

section \<open>State\<close>

datatype limine_memmap_type =
    LIMINE_MEMMAP_USABLE
  | LIMINE_MEMMAP_FRAMEBUFFER
  | LIMINE_MEMMAP_BOOTLOADER_RECLAIMABLE
  | LIMINE_MEMMAP_OTHER u64

record limine_memmap_entry =
  entry_base :: u64
  entry_length :: u64
  entry_type :: limine_memmap_type

record pmm_state =
  mem :: mem
  pm_stack :: u64
  pm_stack_idx :: u64
  pm_stack_count :: u64
  pm_free_pages :: u64
  pm_used_pages :: u64
  pm_total_pages :: u64
  hhdm_offset :: u64
  memmap :: "limine_memmap_entry list"
  klog :: "log_line list"

text \<open>A log line of this file or of a layer above it.\<close>

abbreviation report :: "log_line \<Rightarrow> 'a pmm_state_scheme \<Rightarrow> 'a pmm_state_scheme" where
  "report l s \<equiv> s\<lparr>klog := klog s @ [l]\<rparr>"

definition null_memmap :: log_line where
  "null_memmap = ERROR (''Memory map is null, ensure that the configured bootloader provides a valid memory map.'' @ nl) []"
definition zero_hhdm :: log_line where
  "zero_hhdm = ERROR (''HHDM offset is zero, ensure that the configured bootloader provides a valid HHDM offset.'' @ nl) []"
definition push_overflow :: log_line where
  "push_overflow = ERROR (''PM Stack overflow while pushing pages.'' @ nl) []"
definition out_of_pages :: "u64 \<Rightarrow> log_line" where
  "out_of_pages pages = WARN (''Unable to allocate %zu pages, out of memory.'' @ nl) [Slot pages]"
definition assertion_line :: "string \<Rightarrow> log_line" where
  "assertion_line cond = ERROR ''Assertion failed: %s'' [Str cond]"
definition free_overflow :: log_line where
  "free_overflow = ERROR (''PMM Stack overflow while freeing pages.'' @ nl) []"

definition usable :: "limine_memmap_entry \<Rightarrow> bool" where
  "usable e \<longleftrightarrow> entry_type e = LIMINE_MEMMAP_USABLE"

section \<open>Initialisation\<close>

text \<open>The first loop adds up the whole pages of the usable entries.\<close>

fun pm_count_pages :: "limine_memmap_entry list \<Rightarrow> u64 \<Rightarrow> u64" where
  "pm_count_pages [] n = n"
| "pm_count_pages (e # es) n =
     pm_count_pages es (if usable e then n + entry_length e div PAGE_SIZE else n)"

text \<open>
  The second loop runs \<open>i\<close> from \<open>entry_count - 1\<close> down to \<open>0\<close> and stops at the first
  usable entry long enough for the stack.
\<close>

fun pm_find_room :: "limine_memmap_entry list \<Rightarrow> u64 \<Rightarrow> nat \<Rightarrow> nat option" where
  "pm_find_room es sz 0 = None"
| "pm_find_room es sz (Suc i) =
     (if usable (es ! i) \<and> entry_length (es ! i) \<ge> sz then Some i
      else pm_find_room es sz i)"

definition pm_place_stack :: "u64 \<Rightarrow> 'a pmm_state_scheme \<Rightarrow> 'a pmm_state_scheme" where
  "pm_place_stack sz s =
     (case pm_find_room (memmap s) sz (length (memmap s)) of
        None \<Rightarrow> s
      | Some i \<Rightarrow>
          let e = memmap s ! i;
              stack = entry_base e + entry_length e - sz + hhdm_offset s
          in s\<lparr>pm_stack := stack,
               mem := snd (memset stack 0 sz (mem s)),
               memmap := (memmap s)[i := e\<lparr>entry_length := entry_length e - sz\<rparr>]\<rparr>)"

text \<open>\<open>pm_stack[pm_stack_idx++] = page\<close>\<close>

definition pm_push :: "u64 \<Rightarrow> 'a pmm_state_scheme \<Rightarrow> 'a pmm_state_scheme" where
  "pm_push page s =
     s\<lparr>mem := st64 (pm_stack s + 8 * pm_stack_idx s) page (mem s),
       pm_stack_idx := pm_stack_idx s + 1\<rparr>"

text \<open>The third loop; \<open>False\<close> is the early \<open>return 1\<close> of the overflow check.\<close>

function pm_push_entry ::
  "limine_memmap_entry \<Rightarrow> u64 \<Rightarrow> 'a pmm_state_scheme \<Rightarrow> bool \<times> 'a pmm_state_scheme" where
  "pm_push_entry e j s =
     (if j < entry_length e then
        if pm_stack_idx s \<ge> pm_total_pages s
        then (False, report push_overflow s)
        else pm_push_entry e (j + PAGE_SIZE) (pm_push (entry_base e + j) s)
      else (True, s))"
  by pat_completeness auto
termination
  by (relation "measure (\<lambda>(e, j, s). unat (pm_total_pages s) - unat (pm_stack_idx s))")
     (auto simp: pm_push_def unat_Suc_word word_less_nat_alt word_le_nat_alt not_le)

declare pm_push_entry.simps [simp del]

fun pm_push_all ::
  "limine_memmap_entry list \<Rightarrow> 'a pmm_state_scheme \<Rightarrow> bool \<times> 'a pmm_state_scheme" where
  "pm_push_all [] s = (True, s)"
| "pm_push_all (e # es) s =
     (if usable e then
        (case pm_push_entry e 0 s of
           (False, s') \<Rightarrow> (False, s')
         | (True, s') \<Rightarrow> pm_push_all es s')
      else pm_push_all es s)"

definition pmm_init ::
  "limine_memmap_entry list option \<Rightarrow> u64 \<Rightarrow> 'a pmm_state_scheme \<Rightarrow> int \<times> 'a pmm_state_scheme" where
  "pmm_init mm hhdm s =
     (case mm of
        None \<Rightarrow>
          (1, report null_memmap s)
      | Some es \<Rightarrow>
          if hhdm = 0
          then (1, report zero_hhdm s)
          else
            let s1 = s\<lparr>memmap := es, hhdm_offset := hhdm,
                       pm_total_pages := pm_count_pages es (pm_total_pages s)\<rparr>;
                sz = ALIGN_UP (pm_total_pages s1 * 8) PAGE_SIZE;
                s2 = pm_place_stack sz s1
            in case pm_push_all (memmap s2) s2 of
                 (False, s3) \<Rightarrow> (1, s3)
               | (True, s3) \<Rightarrow> (0, s3\<lparr>pm_free_pages := pm_stack_idx s3\<rparr>))"

section \<open>Requesting and freeing pages\<close>

definition pmm_request_pages ::
  "u64 \<Rightarrow> 'a pmm_state_scheme \<Rightarrow> u64 \<times> 'a pmm_state_scheme" where
  "pmm_request_pages pages s =
     (if pages = 0 \<or> pm_stack_idx s < pages
      then (0, report (out_of_pages pages) s)
      else
        let idx = pm_stack_idx s - pages
        in (ld64 (mem s) (pm_stack s + 8 * idx),
            s\<lparr>pm_stack_idx := idx,
              pm_used_pages := pm_used_pages s + pages,
              pm_free_pages := pm_free_pages s - pages\<rparr>))"

text \<open>The push loop of \<open>pmm_free_pages\<close>; \<open>False\<close> is its early \<open>return\<close>.\<close>

function pm_free_loop ::
  "u64 \<Rightarrow> u64 \<Rightarrow> u64 \<Rightarrow> 'a pmm_state_scheme \<Rightarrow> bool \<times> 'a pmm_state_scheme" where
  "pm_free_loop page_addr i pages s =
     (if i < pages then
        if pm_stack_idx s \<ge> pm_total_pages s
        then (False, report free_overflow s)
        else pm_free_loop page_addr (i + 1) pages (pm_push (page_addr + i * PAGE_SIZE) s)
      else (True, s))"
  by pat_completeness auto
termination
  by (relation "measure (\<lambda>(a, i, n, s). unat n - unat i)")
     (auto simp: unat_Suc_word word_less_nat_alt)

declare pm_free_loop.simps [simp del]

text \<open>
  A failed \<open>ASSERT\<close> (\<^verbatim>\<open>olive/include/olive.h\<close>) logs its condition and stops the machine in \<open>hcf()\<close>.
\<close>

definition assert_failed :: "string \<Rightarrow> 'a pmm_state_scheme \<Rightarrow> ('b, 'a pmm_state_scheme) outcome" where
  "assert_failed cond s = Halt (report (assertion_line cond) s)"

definition pmm_free_pages ::
  "u64 \<Rightarrow> u64 \<Rightarrow> 'a pmm_state_scheme \<Rightarrow> (unit, 'a pmm_state_scheme) outcome" where
  "pmm_free_pages ptr pages s =
     (if ptr = 0 then assert_failed ''ptr != NULL'' s
      else if ptr mod PAGE_SIZE \<noteq> 0 then assert_failed ''(uint64_t)ptr % PAGE_SIZE == 0'' s
      else if \<not> 0 < pages then assert_failed ''pages > 0'' s
      else
        (case pm_free_loop ptr 0 pages s of
           (False, s') \<Rightarrow> Ret () s'
         | (True, s') \<Rightarrow>
             Ret () (s'\<lparr>pm_free_pages := pm_free_pages s' + pages,
                        pm_used_pages := pm_used_pages s' - pages\<rparr>)))"

section \<open>The stack as a list\<close>

definition free_list :: "'a pmm_state_scheme \<Rightarrow> u64 list" where
  "free_list s =
     map (\<lambda>k. ld64 (mem s) (pm_stack s + 8 * of_nat k)) [0..<unat (pm_stack_idx s)]"

text \<open>The array has room for every page and does not run past the address space.\<close>

definition stack_wf :: "'a pmm_state_scheme \<Rightarrow> bool" where
  "stack_wf s \<longleftrightarrow>
     aligned (pm_stack s) \<and> pm_stack_idx s \<le> pm_total_pages s \<and> unat (pm_total_pages s) \<le> 2 ^ 52"

lemma length_free_list [simp]: "length (free_list s) = unat (pm_stack_idx s)"
  by (simp add: free_list_def)

lemma stack_slot_disj:
  assumes "k < 2 ^ 52" "l < 2 ^ 52" "k \<noteq> l"
  shows "disj (b + 8 * of_nat k) 8 (b + 8 * of_nat l) 8"
proof -
  have *: "8 \<le> unat (8 * of_nat x - 8 * of_nat y :: u64)"
    if "x < 2 ^ 52" "y < 2 ^ 52" "x \<noteq> y" for x y :: nat
    using that by (auto simp: unat_word_ariths unat_sub_if' unat_of_nat)
  show ?thesis
    using * [OF assms] * [of l k] assms by (simp add: disj_def)
qed

lemma pm_push_simps [simp]:
  "pm_stack (pm_push v s) = pm_stack s"
  "pm_total_pages (pm_push v s) = pm_total_pages s"
  "pm_free_pages (pm_push v s) = pm_free_pages s"
  "pm_used_pages (pm_push v s) = pm_used_pages s"
  "hhdm_offset (pm_push v s) = hhdm_offset s"
  "memmap (pm_push v s) = memmap s"
  "klog (pm_push v s) = klog s"
  "pm_stack_idx (pm_push v s) = pm_stack_idx s + 1"
  by (simp_all add: pm_push_def)

lemma free_list_push:
  assumes "stack_wf s" "pm_stack_idx s < pm_total_pages s"
  shows "free_list (pm_push v s) = free_list s @ [v]" "stack_wf (pm_push v s)"
proof -
  let ?i = "unat (pm_stack_idx s)"
  have i: "?i < 2 ^ 52" and next_i: "unat (pm_stack_idx s + 1) = Suc ?i"
    using assms by (auto simp: stack_wf_def word_less_nat_alt unat_Suc_word)
  then have kept: "ld64 (mem (pm_push v s)) (pm_stack s + 8 * of_nat k) =
      ld64 (mem s) (pm_stack s + 8 * of_nat k)" if "k < ?i" for k
    using stack_slot_disj [of k ?i "pm_stack s"] that
    by (simp add: pm_push_def ld64_st64_disj)
  have new: "ld64 (mem (pm_push v s)) (pm_stack s + 8 * of_nat ?i) = v"
    by (simp add: pm_push_def)
  show "free_list (pm_push v s) = free_list s @ [v]"
    using kept new by (simp add: free_list_def next_i del: of_nat_unat)
  show "stack_wf (pm_push v s)"
    using assms next_i by (simp add: stack_wf_def word_le_nat_alt word_less_nat_alt)
qed

text \<open>The pages the stack array occupies.\<close>

definition stack_region :: "'a pmm_state_scheme \<Rightarrow> u64 set" where
  "stack_region s = (\<lambda>k. pgno (pm_stack s + 8 * of_nat k)) ` {..<unat (pm_total_pages s)}"

lemma stack_slot_page:
  "b + 8 * of_nat k = (b + PAGE_SIZE * of_nat (k div 512)) + 8 * (of_nat (k mod 512) :: u64)"
proof -
  have "(of_nat k :: u64) = of_nat (512 * (k div 512) + k mod 512)"
    by (simp only: mult_div_mod_eq)
  also have "\<dots> = 512 * of_nat (k div 512) + of_nat (k mod 512)"
    by (simp only: of_nat_add of_nat_mult of_nat_numeral)
  finally show ?thesis by (simp add: PAGE_SIZE_def)
qed

lemma stack_slot_pgno:
  assumes "aligned b" "j < 8"
  shows "pgno (b + 8 * of_nat k + of_nat j) = pgno (b + 8 * of_nat k)"
proof -
  have i: "(of_nat (k mod 512) :: u64) < 512"
    by (simp add: word_less_nat_alt unat_of_nat)
  have a: "aligned (b + PAGE_SIZE * of_nat (k div 512))"
    using assms(1) by (simp add: aligned_add)
  show ?thesis
    using slot_byte_pgno [OF a i assms(2)] slot_byte_pgno [OF a i, of 0]
    by (simp add: stack_slot_page [of b k])
qed

lemma pm_push_mem_other:
  assumes "stack_wf s" "pm_stack_idx s < pm_total_pages s" "pgno x \<notin> stack_region s"
  shows "mem (pm_push v s) x = mem s x"
proof -
  have "pgno (pm_stack s + 8 * of_nat (unat (pm_stack_idx s))) \<in> stack_region s"
    unfolding stack_region_def
    by (rule imageI) (use assms(2) in \<open>simp add: word_less_nat_alt\<close>)
  then have "x \<noteq> pm_stack s + 8 * of_nat (unat (pm_stack_idx s)) + of_nat j" if "j < 8" for j
    using assms(1,3) stack_slot_pgno [OF _ that, of "pm_stack s" "unat (pm_stack_idx s)"]
    by (auto simp: stack_wf_def)
  then show ?thesis
    by (auto simp: pm_push_def intro!: st64_other)
qed

subsection \<open>Pushing a list of pages\<close>

abbreviation pm_push_list :: "u64 list \<Rightarrow> 'a pmm_state_scheme \<Rightarrow> 'a pmm_state_scheme" where
  "pm_push_list vs s \<equiv> fold pm_push vs s"

lemma pm_push_list_simps [simp]:
  "pm_stack (pm_push_list vs s) = pm_stack s"
  "pm_total_pages (pm_push_list vs s) = pm_total_pages s"
  "pm_free_pages (pm_push_list vs s) = pm_free_pages s"
  "pm_used_pages (pm_push_list vs s) = pm_used_pages s"
  "hhdm_offset (pm_push_list vs s) = hhdm_offset s"
  "memmap (pm_push_list vs s) = memmap s"
  "klog (pm_push_list vs s) = klog s"
  "pm_stack_idx (pm_push_list vs s) = pm_stack_idx s + of_nat (length vs)"
  by (induction vs arbitrary: s) simp_all

lemma stack_region_push [simp]: "stack_region (pm_push_list vs s) = stack_region s"
  by (simp add: stack_region_def)

lemma stack_region_push1 [simp]: "stack_region (pm_push v s) = stack_region s"
  by (simp add: stack_region_def)

lemma push_list_spec:
  assumes "stack_wf s" "unat (pm_stack_idx s) + length vs \<le> unat (pm_total_pages s)"
  shows "free_list (pm_push_list vs s) = free_list s @ vs" (is ?list)
    and "stack_wf (pm_push_list vs s)" (is ?wf)
    and "pgno x \<notin> stack_region s \<Longrightarrow> mem (pm_push_list vs s) x = mem s x" (is "_ \<Longrightarrow> ?mem")
proof -
  have "?list \<and> ?wf \<and> (pgno x \<notin> stack_region s \<longrightarrow> ?mem)"
    using assms
  proof (induction vs arbitrary: s)
    case (Cons v vs)
    then have room: "pm_stack_idx s < pm_total_pages s"
      by (simp add: word_less_nat_alt)
    note push = free_list_push [OF Cons.prems(1) room, of v]
    have "unat (pm_stack_idx (pm_push v s)) + length vs \<le> unat (pm_total_pages (pm_push v s))"
      using Cons.prems(2) unat_Suc_word [OF room] by simp
    with Cons.IH [OF push(2)] push pm_push_mem_other [OF Cons.prems(1) room] show ?case
      by simp
  qed simp
  then show ?list ?wf "pgno x \<notin> stack_region s \<Longrightarrow> ?mem" by auto
qed

subsection \<open>The loops push lists\<close>

definition pages_from :: "u64 \<Rightarrow> nat \<Rightarrow> u64 list" where
  "pages_from a n = map (\<lambda>k. a + PAGE_SIZE * of_nat k) [0..<n]"

lemma length_pages_from [simp]: "length (pages_from a n) = n"
  by (simp add: pages_from_def)

lemma pages_from_Suc: "pages_from a (Suc n) = a # pages_from (a + PAGE_SIZE) n"
proof -
  have "[0..<Suc n] = 0 # map Suc [0..<n]"
    by (simp add: map_Suc_upt upt_conv_Cons del: upt_Suc)
  then show ?thesis
    by (simp add: pages_from_def algebra_simps del: upt_Suc)
qed

lemma pages_from_0 [simp]: "pages_from a 0 = []"
  by (simp add: pages_from_def)

lemma pm_free_loop_push:
  assumes "unat (pm_stack_idx s) + (unat n - unat i) \<le> unat (pm_total_pages s)"
  shows "pm_free_loop a i n s =
    (True, pm_push_list (pages_from (a + i * PAGE_SIZE) (unat n - unat i)) s)"
  using assms
proof (induction a i n s rule: pm_free_loop.induct)
  case (1 a i n s)
  show ?case
  proof (cases "i < n")
    case False
    then show ?thesis
      by (subst pm_free_loop.simps) (simp add: word_less_nat_alt)
  next
    case True
    have next_i: "unat (i + 1) = Suc (unat i)" using True by (rule unat_Suc_word)
    with True "1.prems" have room: "pm_stack_idx s < pm_total_pages s"
      by (simp add: word_less_nat_alt)
    have "unat n - unat i = Suc (unat n - unat (i + 1))"
      using True next_i by (simp add: word_less_nat_alt)
    then have pages: "pages_from (a + i * PAGE_SIZE) (unat n - unat i) =
        (a + i * PAGE_SIZE) # pages_from (a + (i + 1) * PAGE_SIZE) (unat n - unat (i + 1))"
      by (simp add: pages_from_Suc algebra_simps)
    have "unat (pm_stack_idx (pm_push (a + i * PAGE_SIZE) s)) + (unat n - unat (i + 1)) \<le>
        unat (pm_total_pages (pm_push (a + i * PAGE_SIZE) s))"
      using "1.prems" True next_i unat_Suc_word [OF room] by (simp add: word_less_nat_alt)
    with "1.IH" True room show ?thesis
      by (subst pm_free_loop.simps) (simp add: pages not_le)
  qed
qed

text \<open>The frames of a memory-map entry, in address order.\<close>

definition entry_pages :: "limine_memmap_entry \<Rightarrow> u64 list" where
  "entry_pages e = pages_from (entry_base e) (unat (entry_length e) div 4096)"

lemma pm_push_entry_push:
  assumes "aligned (entry_length e)" "aligned j" "j \<le> entry_length e"
    and "unat (pm_stack_idx s) + (unat (entry_length e) - unat j) div 4096
           \<le> unat (pm_total_pages s)"
  shows "pm_push_entry e j s =
    (True, pm_push_list (pages_from (entry_base e + j)
       ((unat (entry_length e) - unat j) div 4096)) s)"
  using assms
proof (induction e j s rule: pm_push_entry.induct)
  case (1 e j s)
  let ?len = "entry_length e"
  show ?case
  proof (cases "j < ?len")
    case False
    with "1.prems"(3) show ?thesis
      by (subst pm_push_entry.simps) simp
  next
    case True
    have step: "unat j + 4096 \<le> unat ?len"
      using True "1.prems"(1,2) by (auto simp: aligned_dvd word_less_nat_alt elim!: dvdE)
    then have next_j: "unat (j + PAGE_SIZE) = unat j + 4096"
      using u64_bound [of ?len] by (simp add: PAGE_SIZE_def unat_word_ariths)
    define n where "n = (unat ?len - unat (j + PAGE_SIZE)) div 4096"
    have n: "(unat ?len - unat j) div 4096 = Suc n"
      unfolding n_def next_j using step by (simp add: div_nat_eqI le_div_geq)
    have room: "pm_stack_idx s < pm_total_pages s"
      using "1.prems"(4) n by (simp add: word_less_nat_alt)
    have "pm_push_entry e (j + PAGE_SIZE) (pm_push (entry_base e + j) s) =
        (True, pm_push_list (pages_from (entry_base e + (j + PAGE_SIZE)) n)
           (pm_push (entry_base e + j) s))"
      unfolding n_def
    proof (rule "1.IH" [OF True])
      show "\<not> pm_total_pages s \<le> pm_stack_idx s" using room by simp
      show "aligned (j + PAGE_SIZE)" using "1.prems"(2) by (simp add: aligned_add)
      show "j + PAGE_SIZE \<le> ?len" using step next_j by (simp add: word_le_nat_alt)
      show "unat (pm_stack_idx (pm_push (entry_base e + j) s)) +
          (unat ?len - unat (j + PAGE_SIZE)) div 4096
          \<le> unat (pm_total_pages (pm_push (entry_base e + j) s))"
        using "1.prems"(4) n n_def unat_Suc_word [OF room] by simp
    qed (rule "1.prems"(1))
    then show ?thesis
      using True room
      by (subst pm_push_entry.simps) (simp add: n pages_from_Suc add.assoc)
  qed
qed

end
