(* ===== verification/PmmSpec.thy ===== *)
theory PmmSpec
  imports Pmm
begin

text \<open>
  What the physical memory manager promises. \<open>pmm_ok\<close> is the invariant between calls: the
  free frames are distinct, page aligned, not null, and none of them is a page of the stack
  array itself. The locale \<open>page_source\<close> is the contract the virtual memory manager relies
  on; it is interpreted here on \<open>pmm_request_pages\<close>.
\<close>

section \<open>The invariant\<close>

definition frame_ok :: "'a pmm_state_scheme \<Rightarrow> u64 \<Rightarrow> bool" where
  "frame_ok s p \<longleftrightarrow>
     p \<noteq> 0 \<and> aligned p \<and> unat p < 2 ^ 52 \<and> p + hhdm_offset s \<noteq> 0 \<and>
     pgno (p + hhdm_offset s) \<notin> stack_region s"

definition pmm_ok :: "'a pmm_state_scheme \<Rightarrow> bool" where
  "pmm_ok s \<longleftrightarrow>
     stack_wf s \<and> aligned (hhdm_offset s) \<and>
     distinct (free_list s) \<and> (\<forall>p \<in> set (free_list s). frame_ok s p)"

text \<open>Recording a log line changes none of it.\<close>

lemma pmm_klog [simp]:
  "free_list (s\<lparr>klog := l\<rparr>) = free_list s" "stack_wf (s\<lparr>klog := l\<rparr>) = stack_wf s"
  "stack_region (s\<lparr>klog := l\<rparr>) = stack_region s" "frame_ok (s\<lparr>klog := l\<rparr>) = frame_ok s"
  by (auto simp: free_list_def stack_wf_def stack_region_def frame_ok_def fun_eq_iff)

lemma pmm_ok_klog [simp]: "pmm_ok (s\<lparr>klog := l\<rparr>) = pmm_ok s"
  by (simp add: pmm_ok_def)

section \<open>Requests\<close>

lemma request_none:
  "n = 0 \<or> length (free_list s) < unat n \<Longrightarrow> pmm_request_pages n s = (0, report (out_of_pages n) s)"
  by (auto simp: pmm_request_pages_def word_less_nat_alt)

definition popped :: "u64 \<Rightarrow> 'a pmm_state_scheme \<Rightarrow> 'a pmm_state_scheme" where
  "popped n s = s\<lparr>pm_stack_idx := pm_stack_idx s - n,
                 pm_used_pages := pm_used_pages s + n,
                 pm_free_pages := pm_free_pages s - n\<rparr>"

lemma popped_simps [simp]:
  "mem (popped n s) = mem s" "pm_stack (popped n s) = pm_stack s"
  "pm_total_pages (popped n s) = pm_total_pages s"
  "hhdm_offset (popped n s) = hhdm_offset s" "memmap (popped n s) = memmap s"
  "klog (popped n s) = klog s"
  "stack_region (popped n s) = stack_region s"
  "frame_ok (popped n s) = frame_ok s"
  by (auto simp: popped_def stack_region_def frame_ok_def fun_eq_iff)

lemma free_list_popped:
  assumes "unat n \<le> length (free_list s)"
  shows "free_list (popped n s) = take (length (free_list s) - unat n) (free_list s)"
proof -
  have "n \<le> pm_stack_idx s" using assms by (simp add: word_le_nat_alt)
  then have "unat (pm_stack_idx s - n) = unat (pm_stack_idx s) - unat n"
    by (rule unat_sub)
  then show ?thesis
    by (simp add: free_list_def popped_def take_map)
qed

lemma request_some:
  assumes "0 < unat n" "unat n \<le> length (free_list s)"
  shows "pmm_request_pages n s = (free_list s ! (length (free_list s) - unat n), popped n s)"
proof -
  have le: "n \<le> pm_stack_idx s" and "n \<noteq> 0"
    using assms by (auto simp: word_le_nat_alt)
  have "unat (pm_stack_idx s - n) = unat (pm_stack_idx s) - unat n"
    using le by (rule unat_sub)
  then have "free_list s ! (length (free_list s) - unat n) =
      ld64 (mem s) (pm_stack s + 8 * (pm_stack_idx s - n))"
    using assms by (simp add: free_list_def)
  moreover have "\<not> pm_stack_idx s < n" using le by simp
  ultimately show ?thesis
    using \<open>n \<noteq> 0\<close> by (simp add: pmm_request_pages_def popped_def)
qed

lemma stack_wf_popped:
  "stack_wf s \<Longrightarrow> unat n \<le> length (free_list s) \<Longrightarrow> stack_wf (popped n s)"
  by (auto simp: stack_wf_def popped_def word_le_nat_alt unat_sub)

lemma pmm_ok_popped:
  "pmm_ok s \<Longrightarrow> unat n \<le> length (free_list s) \<Longrightarrow> pmm_ok (popped n s)"
  unfolding pmm_ok_def
  by (auto simp: free_list_popped stack_wf_popped dest: in_set_takeD)

lemma request_cases:
  assumes "pmm_request_pages n s = (p, s')"
  obtains (none) "p = 0" "s' = report (out_of_pages n) s" "n = 0 \<or> length (free_list s) < unat n"
  | (some) "0 < unat n" "unat n \<le> length (free_list s)"
      "p = free_list s ! (length (free_list s) - unat n)" "s' = popped n s"
proof (cases "n = 0 \<or> length (free_list s) < unat n")
  case True
  then show ?thesis using none request_none [OF True] assms by simp
next
  case False
  then have n: "0 < unat n" "unat n \<le> length (free_list s)"
    by (auto simp: unat_gt_0)
  then show ?thesis
    using assms request_some [OF n] by (intro some) simp_all
qed

section \<open>The contract of a page source\<close>

text \<open>
  What a client of a page source sees: a stack \<open>pages\<close> of free pages, a memory the source
  leaves alone, and a request for \<open>n\<close> pages that either fails with the null pointer and
  keeps the stack, or hands out the topmost \<open>n\<close> pages, returning the lowest slot of them.
\<close>

locale page_source =
  fixes pages :: "'s \<Rightarrow> u64 list"
    and ok :: "'s \<Rightarrow> bool"
    and memory :: "'s \<Rightarrow> mem"
    and request :: "u64 \<Rightarrow> 's \<Rightarrow> u64 \<times> 's"
  assumes pages_distinct: "ok s \<Longrightarrow> distinct (pages s)"
    and pages_nonnull: "ok s \<Longrightarrow> 0 \<notin> set (pages s)"
    and request_fails: "n = 0 \<or> length (pages s) < unat n \<Longrightarrow> fst (request n s) = 0"
    and request_fails_rest: "n = 0 \<or> length (pages s) < unat n \<Longrightarrow> pages (snd (request n s)) = pages s"
    and request_result: "0 < unat n \<Longrightarrow> unat n \<le> length (pages s) \<Longrightarrow>
      fst (request n s) = pages s ! (length (pages s) - unat n)"
    and request_rest: "0 < unat n \<Longrightarrow> unat n \<le> length (pages s) \<Longrightarrow>
      pages (snd (request n s)) = take (length (pages s) - unat n) (pages s)"
    and request_memory: "memory (snd (request n s)) = memory s"
    and request_ok: "ok s \<Longrightarrow> ok (snd (request n s))"
begin

lemma request_null_iff:
  assumes "ok s"
  shows "fst (request n s) = 0 \<longleftrightarrow> n = 0 \<or> length (pages s) < unat n"
proof (cases "n = 0 \<or> length (pages s) < unat n")
  case False
  then have n: "0 < unat n" "unat n \<le> length (pages s)" by (auto simp: unat_gt_0)
  then have "fst (request n s) \<in> set (pages s)"
    by (simp add: request_result)
  with False pages_nonnull [OF assms] show ?thesis by metis
qed (simp add: request_fails)

lemma request_fresh:
  assumes "ok s" "fst (request n s) \<noteq> 0"
  shows "fst (request n s) \<in> set (pages s)"
    and "fst (request n s) \<notin> set (pages (snd (request n s)))"
proof -
  from assms have n: "0 < unat n" "unat n \<le> length (pages s)"
    by (auto simp: request_null_iff unat_gt_0 not_less)
  let ?k = "length (pages s) - unat n"
  have k: "?k < length (pages s)" using n by simp
  show "fst (request n s) \<in> set (pages s)"
    using k by (simp add: request_result [OF n])
  show "fst (request n s) \<notin> set (pages (snd (request n s)))"
    using k pages_distinct [OF assms(1)]
    by (auto simp: request_result [OF n] request_rest [OF n] in_set_conv_nth nth_eq_iff_index_eq)
qed

lemma request_one:
  assumes "ok s" "pages s = ps @ [p]"
  shows "fst (request 1 s) = p" "pages (snd (request 1 s)) = ps" "p \<noteq> 0" "p \<notin> set ps"
proof -
  have n: "0 < unat (1 :: u64)" "unat (1 :: u64) \<le> length (pages s)"
    using assms(2) by simp_all
  show "fst (request 1 s) = p" "pages (snd (request 1 s)) = ps"
    using request_result [OF n] request_rest [OF n] assms(2) by simp_all
  show "p \<noteq> 0" "p \<notin> set ps"
    using pages_nonnull [OF assms(1)] pages_distinct [OF assms(1)] assms(2) by auto
qed

lemma request_subset: "set (pages (snd (request n s))) \<subseteq> set (pages s)"
proof (cases "n = 0 \<or> length (pages s) < unat n")
  case False
  then have "0 < unat n" "unat n \<le> length (pages s)" by (auto simp: unat_gt_0)
  then show ?thesis by (simp add: request_rest set_take_subset)
qed (simp add: request_fails_rest)

end

interpretation pmm: page_source free_list pmm_ok mem pmm_request_pages
proof unfold_locales
  fix n and s :: "'a pmm_state_scheme"
  show "pmm_ok s \<Longrightarrow> distinct (free_list s)" "pmm_ok s \<Longrightarrow> 0 \<notin> set (free_list s)"
    by (auto simp: pmm_ok_def frame_ok_def)
  show "n = 0 \<or> length (free_list s) < unat n \<Longrightarrow> fst (pmm_request_pages n s) = 0"
    "n = 0 \<or> length (free_list s) < unat n \<Longrightarrow> free_list (snd (pmm_request_pages n s)) = free_list s"
    by (simp_all only: request_none fst_conv snd_conv pmm_klog)
  show "0 < unat n \<Longrightarrow> unat n \<le> length (free_list s) \<Longrightarrow>
      fst (pmm_request_pages n s) = free_list s ! (length (free_list s) - unat n)"
    "0 < unat n \<Longrightarrow> unat n \<le> length (free_list s) \<Longrightarrow>
      free_list (snd (pmm_request_pages n s)) =
        take (length (free_list s) - unat n) (free_list s)"
    by (simp_all only: request_some fst_conv snd_conv free_list_popped)
  obtain p s' where r: "pmm_request_pages n s = (p, s')" by fastforce
  then show "mem (snd (pmm_request_pages n s)) = mem s"
    by (cases rule: request_cases) (simp_all add: r)
  from r show "pmm_ok s \<Longrightarrow> pmm_ok (snd (pmm_request_pages n s))"
    by (cases rule: request_cases) (simp_all add: r pmm_ok_popped)
qed

section \<open>Frees\<close>

definition pushed :: "u64 \<Rightarrow> u64 \<Rightarrow> 'a pmm_state_scheme \<Rightarrow> 'a pmm_state_scheme" where
  "pushed p n s =
     (let s' = pm_push_list (pages_from p (unat n)) s
      in s'\<lparr>pm_free_pages := pm_free_pages s + n, pm_used_pages := pm_used_pages s - n\<rparr>)"

lemma free_some:
  assumes "p \<noteq> 0" "aligned p" "0 < n"
    and "length (free_list s) + unat n \<le> unat (pm_total_pages s)"
  shows "pmm_free_pages p n s = Ret () (pushed p n s)"
  using assms pm_free_loop_push [of s n 0 p]
  by (simp add: pmm_free_pages_def pushed_def aligned_mod word_gt_0)

lemma free_list_cong:
  "mem s' = mem s \<Longrightarrow> pm_stack s' = pm_stack s \<Longrightarrow> pm_stack_idx s' = pm_stack_idx s \<Longrightarrow>
     free_list s' = free_list s"
  by (simp add: free_list_def)

lemma free_list_mem_cong:
  assumes "aligned (pm_stack s)" "pm_stack_idx s \<le> pm_total_pages s"
    and "\<And>x. pgno x \<in> stack_region s \<Longrightarrow> m x = mem s x"
  shows "free_list (s\<lparr>mem := m\<rparr>) = free_list s"
proof -
  have "ld64 m (pm_stack s + 8 * of_nat k) = ld64 (mem s) (pm_stack s + 8 * of_nat k)"
    if "k < unat (pm_stack_idx s)" for k
  proof (rule ld64_cong)
    fix j :: nat assume j: "j < 8"
    have "k < unat (pm_total_pages s)"
      using that assms(2) by (simp add: word_le_nat_alt)
    then have "pgno (pm_stack s + 8 * of_nat k) \<in> stack_region s"
      by (auto simp: stack_region_def)
    then show "m (pm_stack s + 8 * of_nat k + of_nat j) = mem s (pm_stack s + 8 * of_nat k + of_nat j)"
      using assms(1,3) stack_slot_pgno [OF assms(1) j] by simp
  qed
  then show ?thesis by (simp add: free_list_def)
qed

lemma pushed_spec:
  assumes "stack_wf s" "length (free_list s) + unat n \<le> unat (pm_total_pages s)"
  shows "free_list (pushed p n s) = free_list s @ pages_from p (unat n)" (is ?list)
    and "stack_wf (pushed p n s)" (is ?wf)
    and "pgno x \<notin> stack_region s \<Longrightarrow> mem (pushed p n s) x = mem s x" (is "_ \<Longrightarrow> ?mem")
proof -
  have le: "unat (pm_stack_idx s) + length (pages_from p (unat n)) \<le> unat (pm_total_pages s)"
    using assms(2) by simp
  note spec = push_list_spec [OF assms(1) le]
  have "free_list (pushed p n s) = free_list (pm_push_list (pages_from p (unat n)) s)"
    by (rule free_list_cong) (simp_all add: pushed_def Let_def)
  with spec(1) show ?list by simp
  from spec(2) show ?wf
    by (simp add: pushed_def stack_wf_def Let_def)
  assume "pgno x \<notin> stack_region s"
  with spec(3) show ?mem by (simp add: pushed_def Let_def)
qed

lemma pushed_simps [simp]:
  "pm_stack (pushed p n s) = pm_stack s" "hhdm_offset (pushed p n s) = hhdm_offset s"
  "pm_total_pages (pushed p n s) = pm_total_pages s" "memmap (pushed p n s) = memmap s"
  "klog (pushed p n s) = klog s"
  "stack_region (pushed p n s) = stack_region s"
  "frame_ok (pushed p n s) = frame_ok s"
  by (auto simp: pushed_def Let_def stack_region_def frame_ok_def fun_eq_iff)

lemma pmm_ok_pushed:
  assumes "pmm_ok s" "length (free_list s) + unat n \<le> unat (pm_total_pages s)"
    and "distinct (pages_from p (unat n))"
    and "set (pages_from p (unat n)) \<inter> set (free_list s) = {}"
    and "\<forall>q \<in> set (pages_from p (unat n)). frame_ok s q"
  shows "pmm_ok (pushed p n s)"
proof -
  have "stack_wf s" using assms(1) by (simp add: pmm_ok_def)
  note spec = pushed_spec [OF this assms(2), of p]
  with assms show ?thesis
    by (auto simp: pmm_ok_def)
qed

end
