(* ===== verification/PmmInit.thy ===== *)
theory PmmInit
  imports PmmSpec
begin

text \<open>
  \<open>pmm_init\<close> on a memory map that keeps the bootloader's promises (\<open>memmap_wf\<close>: usable
  entries page aligned, apart from each other, inside the 52-bit physical address space and
  mapped by the higher-half window): it puts the stack at the end of the last entry with
  room and stacks every other usable frame, so the invariant \<open>pmm_ok\<close> holds.
\<close>

section \<open>Well-formed memory maps\<close>

definition entry_wf :: "u64 \<Rightarrow> limine_memmap_entry \<Rightarrow> bool" where
  "entry_wf h e \<longleftrightarrow>
     aligned (entry_base e) \<and> aligned (entry_length e) \<and> entry_base e \<noteq> 0 \<and>
     unat (entry_base e) + unat (entry_length e) \<le> 2 ^ 52 \<and>
     unat h + unat (entry_base e) + unat (entry_length e) \<le> 2 ^ 64"

definition apart :: "limine_memmap_entry \<Rightarrow> limine_memmap_entry \<Rightarrow> bool" where
  "apart e f \<longleftrightarrow> usable e \<longrightarrow> usable f \<longrightarrow>
     unat (entry_base e) + unat (entry_length e) \<le> unat (entry_base f) \<or>
     unat (entry_base f) + unat (entry_length f) \<le> unat (entry_base e)"

definition frames :: "limine_memmap_entry list \<Rightarrow> nat" where
  "frames es = sum_list (map (\<lambda>e. unat (entry_length e) div 4096) (filter usable es))"

definition memmap_wf :: "u64 \<Rightarrow> limine_memmap_entry list \<Rightarrow> bool" where
  "memmap_wf h es \<longleftrightarrow>
     h \<noteq> 0 \<and> aligned h \<and> (\<forall>e \<in> set es. usable e \<longrightarrow> entry_wf h e) \<and>
     sorted_wrt apart es \<and> frames es \<le> 2 ^ 40"

definition usable_pages :: "limine_memmap_entry list \<Rightarrow> u64 list" where
  "usable_pages es = concat (map entry_pages (filter usable es))"

lemma frames_simps [simp]:
  "frames [] = 0"
  "frames (e # es) = (if usable e then unat (entry_length e) div 4096 else 0) + frames es"
  by (simp_all add: frames_def)

lemma usable_pages_simps [simp]:
  "usable_pages [] = []"
  "usable_pages (e # es) = (if usable e then entry_pages e else []) @ usable_pages es"
  by (simp_all add: usable_pages_def)

lemma length_usable_pages [simp]: "length (usable_pages es) = frames es"
  by (induction es) (simp_all add: entry_pages_def)

section \<open>The three loops\<close>

lemma pm_count_pages_frames:
  "unat n + frames es < 2 ^ 64 \<Longrightarrow> unat (pm_count_pages es n) = unat n + frames es"
proof (induction es arbitrary: n)
  case (Cons e es)
  then have "unat (n + entry_length e div PAGE_SIZE) = unat n + unat (entry_length e) div 4096"
    if "usable e"
    using that by (simp add: unat_word_ariths PAGE_SIZE_def)
  with Cons show ?case by (cases "usable e") simp_all
qed simp

lemma pm_find_room_Some:
  "pm_find_room es sz n = Some i \<Longrightarrow>
     i < n \<and> usable (es ! i) \<and> sz \<le> entry_length (es ! i) \<and>
     (\<forall>j. i < j \<longrightarrow> j < n \<longrightarrow> usable (es ! j) \<longrightarrow> entry_length (es ! j) < sz)"
proof (induction n)
  case (Suc n)
  show ?case
  proof (cases "usable (es ! n) \<and> entry_length (es ! n) \<ge> sz")
    case True
    with Suc.prems show ?thesis by auto
  next
    case False
    with Suc have "i < n \<and> usable (es ! i) \<and> sz \<le> entry_length (es ! i) \<and>
      (\<forall>j. i < j \<longrightarrow> j < n \<longrightarrow> usable (es ! j) \<longrightarrow> entry_length (es ! j) < sz)"
      by auto
    with False show ?thesis by (auto simp: less_Suc_eq not_le)
  qed
qed simp

lemma pm_find_room_None:
  "pm_find_room es sz n = None \<longleftrightarrow>
     (\<forall>j<n. usable (es ! j) \<longrightarrow> entry_length (es ! j) < sz)"
  by (induction n) (auto simp: less_Suc_eq not_le)

lemma pm_push_all_push:
  assumes "\<forall>e \<in> set es. usable e \<longrightarrow> aligned (entry_length e)"
    and "unat (pm_stack_idx s) + frames es \<le> unat (pm_total_pages s)"
  shows "pm_push_all es s = (True, pm_push_list (usable_pages es) s)"
  using assms
proof (induction es arbitrary: s)
  case (Cons e es)
  show ?case
  proof (cases "usable e")
    case True
    let ?n = "unat (entry_length e) div 4096"
    have room: "unat (pm_stack_idx s) + ?n + frames es \<le> unat (pm_total_pages s)"
      using Cons.prems(2) True by simp
    have "pm_push_entry e 0 s = (True, pm_push_list (entry_pages e) s)"
      using pm_push_entry_push [of e 0 s] Cons.prems(1) True room by (simp add: entry_pages_def)
    moreover have "unat (pm_stack_idx s + of_nat ?n) = unat (pm_stack_idx s) + ?n"
      using room u64_bound [of "pm_total_pages s"] by (simp add: unat_word_ariths unat_of_nat)
    then have "pm_push_all es (pm_push_list (entry_pages e) s) =
        (True, pm_push_list (usable_pages es) (pm_push_list (entry_pages e) s))"
      using room Cons.prems(1) by (intro Cons.IH) (simp_all add: entry_pages_def)
    ultimately show ?thesis using True by simp
  qed (use Cons in simp)
qed simp

section \<open>The frames of an entry\<close>

lemma unat_entry_page:
  assumes "unat a + 4096 * n \<le> 2 ^ 52" "k < n"
  shows "unat (a + PAGE_SIZE * of_nat k) = unat a + 4096 * k"
proof -
  have "unat (PAGE_SIZE * of_nat k) = 4096 * k"
    using assms by (simp add: PAGE_SIZE_def unat_word_ariths unat_of_nat)
  with assms show ?thesis by (simp add: unat_word_ariths)
qed

lemma entry_page_range:
  assumes "entry_wf h e" "p \<in> set (entry_pages e)"
  shows "aligned p" "unat (entry_base e) \<le> unat p"
    "unat p + 4096 \<le> unat (entry_base e) + unat (entry_length e)"
proof -
  let ?n = "unat (entry_length e) div 4096"
  obtain k where k: "k < ?n" and p: "p = entry_base e + PAGE_SIZE * of_nat k"
    using assms(2) by (auto simp: entry_pages_def pages_from_def)
  have "unat p = unat (entry_base e) + 4096 * k"
    unfolding p using assms(1) k by (intro unat_entry_page [of _ ?n]) (auto simp: entry_wf_def)
  then show "unat (entry_base e) \<le> unat p"
    "unat p + 4096 \<le> unat (entry_base e) + unat (entry_length e)"
    using k by simp_all
  show "aligned p"
    unfolding p using assms(1) by (simp add: entry_wf_def aligned_add)
qed

lemma distinct_entry_pages:
  assumes "entry_wf h e"
  shows "distinct (entry_pages e)"
proof -
  let ?n = "unat (entry_length e) div 4096"
  have room: "unat (entry_base e) + 4096 * ?n \<le> 2 ^ 52"
    using assms by (auto simp: entry_wf_def)
  show ?thesis
    unfolding entry_pages_def pages_from_def distinct_map
    using unat_entry_page [OF room]
    by (auto intro!: inj_onI) (metis add_left_cancel mult_left_cancel zero_neq_numeral)
qed

lemma usable_page_entry:
  "p \<in> set (usable_pages es) \<Longrightarrow> \<exists>j<length es. usable (es ! j) \<and> p \<in> set (entry_pages (es ! j))"
  unfolding usable_pages_def by (auto simp: in_set_conv_nth) 

lemma distinct_usable_pages:
  assumes "sorted_wrt apart es" "\<forall>e \<in> set es. usable e \<longrightarrow> entry_wf h e"
  shows "distinct (usable_pages es)"
  using assms
proof (induction es)
  case (Cons e es)
  have "set (entry_pages e) \<inter> set (usable_pages es) = {}" if "usable e"
  proof (rule equals0I)
    fix p assume p: "p \<in> set (entry_pages e) \<inter> set (usable_pages es)"
    then obtain f where f: "f \<in> set es" "usable f" "p \<in> set (entry_pages f)"
      by (auto simp: usable_pages_def)
    have "entry_wf h e" "entry_wf h f"
      using Cons.prems(2) that f by auto
    then have "unat (entry_base e) \<le> unat p" "unat (entry_base f) \<le> unat p"
      "unat p + 4096 \<le> unat (entry_base e) + unat (entry_length e)"
      "unat p + 4096 \<le> unat (entry_base f) + unat (entry_length f)"
      using p f entry_page_range by blast+
    moreover have "apart e f" using Cons.prems(1) f by auto
    ultimately show False using that f by (auto simp: apart_def)
  qed
  with Cons show ?case by (auto intro: distinct_entry_pages)
qed simp

section \<open>After initialisation\<close>

definition shrunk :: "u64 \<Rightarrow> limine_memmap_entry \<Rightarrow> limine_memmap_entry" where
  "shrunk sz e = e\<lparr>entry_length := entry_length e - sz\<rparr>"

lemma shrunk_simps [simp]:
  "usable (shrunk sz e) = usable e" "entry_base (shrunk sz e) = entry_base e"
  "entry_length (shrunk sz e) = entry_length e - sz"
  by (simp_all add: shrunk_def usable_def)

lemma entry_wf_shrunk:
  assumes "entry_wf h e" "aligned sz" "sz \<le> entry_length e"
  shows "entry_wf h (shrunk sz e)"
  using assms unat_sub [OF assms(3)]
  by (auto simp: entry_wf_def aligned_diff word_le_nat_alt)

lemma frames_update:
  assumes "i < length es" "usable (es ! i)" "aligned sz" "sz \<le> entry_length (es ! i)"
    and "aligned (entry_length (es ! i))"
  shows "frames (es[i := shrunk sz (es ! i)]) + unat sz div 4096 = frames es"
  using assms
proof (induction es arbitrary: i)
  case (Cons e es)
  show ?case
  proof (cases i)
    case 0
    have "unat (entry_length e - sz) = unat (entry_length e) - unat sz"
      using Cons.prems 0 by (simp add: unat_sub)
    moreover have "4096 dvd unat sz" "4096 dvd unat (entry_length e)" "unat sz \<le> unat (entry_length e)"
      using Cons.prems 0 by (auto simp: aligned_dvd word_le_nat_alt)
    ultimately show ?thesis using Cons.prems 0 by (auto elim!: dvdE)
  next
    case (Suc j)
    then show ?thesis using Cons.prems Cons.IH [of j] by simp
  qed
qed simp

lemma apart_shrunk:
  assumes "sz \<le> entry_length e"
  shows "apart e f \<Longrightarrow> apart (shrunk sz e) f" "apart f e \<Longrightarrow> apart f (shrunk sz e)"
  using unat_sub [OF assms] by (auto simp: apart_def)

lemma apart_update:
  assumes "sorted_wrt apart es" "i < length es" "sz \<le> entry_length (es ! i)"
  shows "sorted_wrt apart (es[i := shrunk sz (es ! i)])"
  unfolding sorted_wrt_iff_nth_less
proof (intro allI impI)
  fix j k assume jk: "j < k" "k < length (es[i := shrunk sz (es ! i)])"
  then have "apart (es ! j) (es ! k)"
    using assms(1) by (auto simp: sorted_wrt_iff_nth_less)
  then show "apart (es[i := shrunk sz (es ! i)] ! j) (es[i := shrunk sz (es ! i)] ! k)"
    using apart_shrunk [OF assms(3)] jk by (cases "i = j"; cases "i = k") auto
qed

text \<open>
  The state after the second loop: the stack sits in the page-aligned block cut off the
  entry \<open>i\<close>.
\<close>

lemma stack_region_range:
  assumes "unat (pm_stack s) + 8 * unat (pm_total_pages s) \<le> unat (pm_stack s) + n"
    and "unat (pm_stack s) + n \<le> 2 ^ 64" "x \<in> stack_region s"
  shows "\<exists>a. unat (pm_stack s) \<le> a \<and> a < unat (pm_stack s) + n \<and> unat x = a div 4096"
proof -
  obtain k where k: "k < unat (pm_total_pages s)" and x: "x = pgno (pm_stack s + 8 * of_nat k)"
    using assms(3) by (auto simp: stack_region_def)
  have "unat (8 * of_nat k :: u64) = 8 * k"
    using k assms by (simp add: unat_word_ariths unat_of_nat)
  then have "unat (pm_stack s + 8 * of_nat k) = unat (pm_stack s) + 8 * k"
    using k assms by (simp add: unat_word_ariths)
  then show ?thesis
    using k assms(1) by (intro exI [of _ "unat (pm_stack s) + 8 * k"]) (simp add: x unat_pgno)
qed

lemma frame_outside_stack:
  assumes "aligned p" "aligned h" "unat h + unat p < 2 ^ 64" "unat x = a div 4096"
    and "unat h + unat p + 4096 \<le> a \<or> a < unat h + unat p"
  shows "pgno (p + h) \<noteq> x"
proof -
  have "unat (p + h) = unat h + unat p" using assms(3) by (simp add: unat_word_ariths)
  moreover have "4096 dvd unat h + unat p"
    using assms(1,2) by (auto simp: aligned_dvd)
  then have "(unat h + unat p) div 4096 \<noteq> a div 4096"
    using assms(5) by (auto elim!: dvdE)
  ultimately show ?thesis
    using assms(4) by (auto simp: unat_pgno)
qed

lemma unat_stack_addr:
  fixes b l z h :: u64
  assumes "z \<le> l" "0 < unat z" "unat b + unat l < 2 ^ 64" "unat h + unat b + unat l \<le> 2 ^ 64"
  shows "unat (b + l - z + h) = unat h + unat b + unat l - unat z"
proof -
  have lz: "unat (l - z) = unat l - unat z" "unat z \<le> unat l"
    using assms(1) by (simp_all add: unat_sub word_le_nat_alt)
  have "unat b + unat (l - z) < 2 ^ 64"
    unfolding lz(1) using assms lz(2) by linarith
  then have bl: "unat (b + (l - z)) = unat b + (unat l - unat z)"
    using unat_add_small [of b "l - z"] lz by simp
  have "unat (b + (l - z)) + unat h < 2 ^ 64"
    unfolding bl using assms lz(2) by linarith
  then have "unat (b + (l - z) + h) = unat h + unat b + unat l - unat z"
    using unat_add_small [of "b + (l - z)" h] lz bl by simp
  then show ?thesis by (simp add: add_diff_eq)
qed

lemma placed_frame_ok:
  assumes wf: "memmap_wf (hhdm_offset s) es"
    and i: "i < length es" "usable (es ! i)" "sz \<le> entry_length (es ! i)"
    and sz: "aligned sz" "8 * unat (pm_total_pages s) \<le> unat sz"
    and stack: "pm_stack s = entry_base (es ! i) + entry_length (es ! i) - sz + hhdm_offset s"
    and p: "p \<in> set (usable_pages (es[i := shrunk sz (es ! i)]))"
  shows "frame_ok s p"
proof -
  let ?h = "hhdm_offset s" and ?e = "es ! i" and ?es' = "es[i := shrunk sz (es ! i)]"
  have e: "entry_wf ?h ?e" using wf i by (auto simp: memmap_wf_def)
  have h: "aligned ?h" using wf by (simp add: memmap_wf_def)
  obtain j where j: "j < length es" "usable (?es' ! j)" "p \<in> set (entry_pages (?es' ! j))"
    using usable_page_entry [OF p] by auto
  have f: "entry_wf ?h (?es' ! j)"
    using wf i sz j e entry_wf_shrunk by (cases "i = j") (auto simp: memmap_wf_def)
  note range = entry_page_range [OF f j(3)]
  have "unat p + 4096 \<le> 2 ^ 52" "unat ?h + unat p + 4096 \<le> 2 ^ 64" "p \<noteq> 0"
    using range f by (auto simp: entry_wf_def word_unat_eq_iff)
  moreover from this have "p + ?h \<noteq> 0"
    by (auto simp: word_unat_eq_iff unat_word_ariths)
  moreover have "pgno (p + ?h) \<notin> stack_region s"
  proof
    assume x: "pgno (p + ?h) \<in> stack_region s"
    have len: "unat (entry_length ?e - sz) = unat (entry_length ?e) - unat sz"
      "unat sz \<le> unat (entry_length ?e)"
      using i by (auto simp: unat_sub word_le_nat_alt)
    show False
    proof (cases "unat sz = 0")
      case True
      with sz x show False by (simp add: stack_region_def)
    next
      case False
      have S: "unat (pm_stack s) =
          unat ?h + unat (entry_base ?e) + unat (entry_length ?e) - unat sz"
        unfolding stack using e i(3) False
        by (intro unat_stack_addr) (auto simp: entry_wf_def)
      then have "unat (pm_stack s) + 8 * unat (pm_total_pages s) \<le> unat (pm_stack s) + unat sz"
        "unat (pm_stack s) + unat sz \<le> 2 ^ 64"
        using sz e len by (auto simp: entry_wf_def)
      from stack_region_range [OF this x] obtain a where
        a: "unat (pm_stack s) \<le> a" "a < unat (pm_stack s) + unat sz"
          "unat (pgno (p + ?h)) = a div 4096" by auto
      have "apart (es ! j) ?e \<or> apart ?e (es ! j)" if "i \<noteq> j"
        using wf i j that by (auto simp: memmap_wf_def sorted_wrt_iff_nth_less nat_neq_iff)
      then have "unat ?h + unat p + 4096 \<le> a \<or> a < unat ?h + unat p"
        using a S range i j len by (cases "i = j") (auto simp: apart_def)
      from frame_outside_stack [OF range(1) h _ a(3) this] show False
        using \<open>unat ?h + unat p + 4096 \<le> 2 ^ 64\<close> by simp
    qed
  qed
  ultimately show ?thesis
    using range(1) by (simp add: frame_ok_def)
qed

section \<open>The result of pmm_init\<close>

definition stack_bytes :: "limine_memmap_entry list \<Rightarrow> u64" where
  "stack_bytes es = ALIGN_UP (of_nat (frames es) * 8) PAGE_SIZE"

lemma stack_bytes_unat:
  assumes "frames es \<le> 2 ^ 40"
  shows "unat (stack_bytes es) = (8 * frames es + 4095) div 4096 * 4096"
proof -
  have "unat (of_nat (frames es) * 8 :: u64) = 8 * frames es"
    using assms by (simp add: unat_word_ariths unat_of_nat)
  with assms show ?thesis
    by (simp add: stack_bytes_def ALIGN_UP_unat)
qed

lemma stack_bytes_room:
  assumes "frames es \<le> 2 ^ 40"
  shows "aligned (stack_bytes es)" "8 * frames es \<le> unat (stack_bytes es)"
  using assms by (simp_all add: stack_bytes_unat) (simp add: stack_bytes_def)

text \<open>
  \<open>with_memmap\<close> is the state after the first loop, \<open>with_stack i\<close> after the second one
  when it found the entry \<open>i\<close>.
\<close>

definition with_memmap ::
  "limine_memmap_entry list \<Rightarrow> u64 \<Rightarrow> 'a pmm_state_scheme \<Rightarrow> 'a pmm_state_scheme" where
  "with_memmap es h s = s\<lparr>memmap := es, hhdm_offset := h,
                         pm_total_pages := pm_count_pages es (pm_total_pages s)\<rparr>"

definition with_stack ::
  "nat \<Rightarrow> limine_memmap_entry list \<Rightarrow> u64 \<Rightarrow> 'a pmm_state_scheme \<Rightarrow> 'a pmm_state_scheme" where
  "with_stack i es h s =
     (let stack = entry_base (es ! i) + entry_length (es ! i) - stack_bytes es + h
      in (with_memmap es h s)\<lparr>pm_stack := stack,
            mem := snd (memset stack 0 (stack_bytes es) (mem s)),
            memmap := es[i := shrunk (stack_bytes es) (es ! i)]\<rparr>)"

lemma with_memmap_simps [simp]:
  "pm_stack_idx (with_memmap es h s) = pm_stack_idx s"
  "memmap (with_memmap es h s) = es" "hhdm_offset (with_memmap es h s) = h"
  "pm_stack (with_memmap es h s) = pm_stack s" "mem (with_memmap es h s) = mem s"
  "pm_total_pages (with_memmap es h s) = pm_count_pages es (pm_total_pages s)"
  by (simp_all add: with_memmap_def)

lemma with_stack_simps [simp]:
  "pm_stack_idx (with_stack i es h s) = pm_stack_idx s"
  "hhdm_offset (with_stack i es h s) = h"
  "memmap (with_stack i es h s) = es[i := shrunk (stack_bytes es) (es ! i)]"
  "pm_total_pages (with_stack i es h s) = pm_count_pages es (pm_total_pages s)"
  "pm_stack (with_stack i es h s) =
     entry_base (es ! i) + entry_length (es ! i) - stack_bytes es + h"
  by (simp_all add: with_stack_def Let_def)

lemma total_frames:
  assumes "frames es \<le> 2 ^ 40" "pm_total_pages s = 0"
  shows "pm_count_pages es (pm_total_pages s) = of_nat (frames es)"
    "unat (pm_count_pages es (pm_total_pages s)) = frames es"
proof -
  show "unat (pm_count_pages es (pm_total_pages s)) = frames es"
    using pm_count_pages_frames [of 0 es] assms by simp
  then show "pm_count_pages es (pm_total_pages s) = of_nat (frames es)"
    by (metis of_nat_unat ucast_id)
qed

lemma pmm_init_unfold:
  assumes "h \<noteq> 0" "frames es \<le> 2 ^ 40" "pm_total_pages s = 0"
  shows "pmm_init (Some es) h s =
    (let s2 = (case pm_find_room es (stack_bytes es) (length es) of
                 None \<Rightarrow> with_memmap es h s
               | Some i \<Rightarrow> with_stack i es h s)
     in case pm_push_all (memmap s2) s2 of
          (False, s3) \<Rightarrow> (1, s3)
        | (True, s3) \<Rightarrow> (0, s3\<lparr>pm_free_pages := pm_stack_idx s3\<rparr>))"
  using assms total_frames [OF assms(2,3)]
  by (simp add: pmm_init_def pm_place_stack_def with_memmap_def with_stack_def stack_bytes_def
      shrunk_def Let_def split: option.splits)

lemma with_stack_wf:
  assumes "memmap_wf h es" "pm_total_pages s = 0" "pm_stack_idx s = 0"
    and "i < length es" "usable (es ! i)" "stack_bytes es \<le> entry_length (es ! i)"
  shows "stack_wf (with_stack i es h s)"
proof -
  have T: "frames es \<le> 2 ^ 40" and "aligned h" "entry_wf h (es ! i)"
    using assms by (auto simp: memmap_wf_def)
  then show ?thesis
    using assms(3) total_frames [OF T assms(2)] stack_bytes_room [OF T]
    by (auto simp: stack_wf_def entry_wf_def intro!: aligned_add aligned_diff)
qed

lemma pmm_init_placed:
  assumes wf: "memmap_wf h es" and fresh: "pm_total_pages s = 0" "pm_stack_idx s = 0"
    and room: "pm_find_room es (stack_bytes es) (length es) = Some i"
  defines "es' \<equiv> es[i := shrunk (stack_bytes es) (es ! i)]"
  defines "t \<equiv> pm_push_list (usable_pages es') (with_stack i es h s)"
  shows "pmm_init (Some es) h s = (0, t\<lparr>pm_free_pages := pm_stack_idx t\<rparr>)"
    and "free_list t = usable_pages es'" and "pmm_ok t" and "memmap t = es'"
proof -
  have T: "frames es \<le> 2 ^ 40" and h: "h \<noteq> 0" "aligned h" using wf by (auto simp: memmap_wf_def)
  have i: "i < length es" "usable (es ! i)" "stack_bytes es \<le> entry_length (es ! i)"
    using pm_find_room_Some [OF room] by auto
  have e: "entry_wf h (es ! i)" using wf i by (auto simp: memmap_wf_def)
  let ?s2 = "with_stack i es h s"
  have wf2: "stack_wf ?s2" using wf fresh i by (rule with_stack_wf)
  have fits: "frames es' \<le> frames es"
    using frames_update [OF i(1,2) stack_bytes_room(1) [OF T] i(3)] e
    by (simp add: es'_def entry_wf_def)
  have "\<forall>e \<in> set es'. usable e \<longrightarrow> entry_wf h e"
    using wf e i stack_bytes_room(1) [OF T] unfolding es'_def
    by (auto simp: memmap_wf_def dest!: set_update_subset_insert [THEN subsetD]
        intro: entry_wf_shrunk)
  note es'_wf = this
  have "pm_push_all es' ?s2 = (True, t)"
    unfolding t_def using es'_wf fits fresh total_frames [OF T fresh(1)]
    by (intro pm_push_all_push) (auto simp: entry_wf_def)
  then show "pmm_init (Some es) h s = (0, t\<lparr>pm_free_pages := pm_stack_idx t\<rparr>)"
    using pmm_init_unfold [OF h(1) T fresh(1)] room by (simp add: Let_def es'_def [symmetric])
  have "unat (pm_stack_idx ?s2) + length (usable_pages es') \<le> unat (pm_total_pages ?s2)"
    using fits fresh total_frames [OF T fresh(1)] by simp
  note pushed = push_list_spec [OF wf2 this]
  have "free_list ?s2 = []" by (simp add: free_list_def fresh)
  with pushed(1) show list: "free_list t = usable_pages es'" by (simp add: t_def)
  have "distinct (usable_pages es')"
    using apart_update [of es i "stack_bytes es"] wf i es'_wf
    by (intro distinct_usable_pages) (auto simp: memmap_wf_def es'_def)
  moreover have "frame_ok ?s2 p" if "p \<in> set (usable_pages es')" for p
    using placed_frame_ok [of ?s2 es i "stack_bytes es" p] wf i stack_bytes_room [OF T] that
      total_frames [OF T fresh(1)]
    by (simp add: es'_def)
  then have "frame_ok t p" if "p \<in> set (usable_pages es')" for p
    using that by (simp add: frame_ok_def t_def)
  ultimately show "pmm_ok t"
    using pushed(2) list h by (simp add: pmm_ok_def t_def)
  show "memmap t = es'" by (simp add: t_def es'_def)
qed

end
