(* ===== verification/PmmProps.thy ===== *)
theory PmmProps
  imports PmmInit
begin

text \<open>
  The properties of the physical memory manager: what \<open>pmm_init\<close> sets up, what requests and
  frees do on every branch, that single frames are never handed out twice and never lost,
  and what the stack discipline does not give: runs of several frames that are contiguous.
\<close>

section \<open>Initialisation\<close>

text \<open>
  C6. On a memory map that keeps the Limine promises and has a usable entry with room for
  the page stack, \<open>pmm_init\<close> succeeds: it shortens the last such entry by the size of the
  stack, and afterwards the free list is exactly the frames of the usable entries as then
  recorded, in order, with the invariant established and the free counter equal to their
  number.
\<close>

theorem pmm_init_sound:
  assumes "memmap_wf h es" "pm_total_pages s = 0" "pm_stack_idx s = 0"
    and "\<exists>e \<in> set es. usable e \<and> stack_bytes es \<le> entry_length e"
  shows "\<exists>i s'. pmm_init (Some es) h s = (0, s') \<and> pmm_ok s' \<and>
    i < length es \<and> usable (es ! i) \<and> stack_bytes es \<le> entry_length (es ! i) \<and>
    memmap s' = es[i := shrunk (stack_bytes es) (es ! i)] \<and>
    free_list s' = usable_pages (memmap s') \<and>
    unat (pm_free_pages s') = frames (memmap s') \<and>
    frames (memmap s') + unat (stack_bytes es) div 4096 = frames es"
proof -
  have T: "frames es \<le> 2 ^ 40" using assms(1) by (simp add: memmap_wf_def)
  have "pm_find_room es (stack_bytes es) (length es) \<noteq> None"
    using assms(4) by (auto simp: pm_find_room_None in_set_conv_nth not_less)
  then obtain i where i: "pm_find_room es (stack_bytes es) (length es) = Some i" by auto
  note found = pm_find_room_Some [OF i]
  note init = pmm_init_placed [OF assms(1-3) i]
  let ?t = "pm_push_list (usable_pages (es[i := shrunk (stack_bytes es) (es ! i)]))
              (with_stack i es h s)"
  let ?s' = "?t\<lparr>pm_free_pages := pm_stack_idx ?t\<rparr>"
  have "free_list ?s' = free_list ?t" by (rule free_list_cong) simp_all
  moreover from this init(3) have "pmm_ok ?s'"
    by (simp add: pmm_ok_def stack_wf_def frame_ok_def stack_region_def)
  moreover have "unat (pm_stack_idx ?t) = frames (memmap ?t)"
    using init(2) by (metis length_free_list length_usable_pages init(4))
  moreover have "frames (es[i := shrunk (stack_bytes es) (es ! i)]) +
      unat (stack_bytes es) div 4096 = frames es"
    using found assms(1) stack_bytes_room(1) [OF T]
    by (intro frames_update) (auto simp: memmap_wf_def entry_wf_def)
  ultimately show ?thesis
    using init found
    by (intro exI [of _ i] exI [of _ ?s']) (simp del: pm_push_list_simps(7))
qed

definition one_page_entry :: "nat \<Rightarrow> limine_memmap_entry" where
  "one_page_entry k = \<lparr>entry_base = PAGE_SIZE * of_nat (2 * k + 1), entry_length = PAGE_SIZE,
                       entry_type = LIMINE_MEMMAP_USABLE\<rparr>"

definition small_memmap :: "limine_memmap_entry list" where
  "small_memmap =
     [\<lparr>entry_base = 0x1000, entry_length = 0x3000, entry_type = LIMINE_MEMMAP_USABLE\<rparr>,
      \<lparr>entry_base = 0x9000, entry_length = 0x1000, entry_type = LIMINE_MEMMAP_FRAMEBUFFER\<rparr>,
      \<lparr>entry_base = 0x10000, entry_length = 0x4000, entry_type = LIMINE_MEMMAP_USABLE\<rparr>]"

definition boot_pmm :: pmm_state where
  "boot_pmm = \<lparr>mem = (\<lambda>_. 0), pm_stack = 0, pm_stack_idx = 0, pm_stack_count = 0,
     pm_free_pages = 0, pm_used_pages = 0, pm_total_pages = 0, hhdm_offset = 0,
     memmap = [], klog = []\<rparr>"

lemma small_memmap_wf: "memmap_wf 0xffff800000000000 small_memmap"
  by (simp add: memmap_wf_def small_memmap_def entry_wf_def apart_def usable_def aligned_dvd)

lemma stack_bytes_small: "stack_bytes small_memmap = 0x1000"
  by (simp add: stack_bytes_def small_memmap_def usable_def ALIGN_UP_def DIV_ROUND_UP_def
      PAGE_SIZE_def)

lemma pmm_init_sound_witness:
  "\<exists>i s'. pmm_init (Some small_memmap) 0xffff800000000000 boot_pmm = (0, s') \<and> pmm_ok s' \<and>
    i < length small_memmap \<and> frames (memmap s') = 6"
proof -
  have room: "\<exists>e \<in> set small_memmap. usable e \<and> stack_bytes small_memmap \<le> entry_length e"
    unfolding stack_bytes_small by (simp add: small_memmap_def usable_def)
  have fresh: "pm_total_pages boot_pmm = 0" "pm_stack_idx boot_pmm = 0"
    by (simp_all add: boot_pmm_def)
  from pmm_init_sound [OF small_memmap_wf fresh room]
  obtain i s' where r: "pmm_init (Some small_memmap) 0xffff800000000000 boot_pmm = (0, s')"
    "pmm_ok s'" "i < length small_memmap"
    "frames (memmap s') + unat (stack_bytes small_memmap) div 4096 = frames small_memmap"
    by blast
  have "frames small_memmap = 7" by (simp add: small_memmap_def usable_def)
  with r show ?thesis by (auto simp: stack_bytes_small)
qed


definition fragmented_memmap :: "limine_memmap_entry list" where
  "fragmented_memmap = map one_page_entry [0..<513]"

lemma fragmented_memmap_simps:
  "frames fragmented_memmap = 513"
  "e \<in> set fragmented_memmap \<Longrightarrow> usable e \<and> entry_length e = PAGE_SIZE"
proof -
  have "frames (map one_page_entry ks) = length ks" for ks
    by (induction ks) (simp_all add: one_page_entry_def usable_def PAGE_SIZE_def)
  then show "frames fragmented_memmap = 513" by (simp add: fragmented_memmap_def)
  show "e \<in> set fragmented_memmap \<Longrightarrow> usable e \<and> entry_length e = PAGE_SIZE"
    by (auto simp: fragmented_memmap_def one_page_entry_def usable_def)
qed


section \<open>Requests and frees\<close>

text \<open>A manager with three free frames, for the examples.\<close>

definition stocked :: pmm_state where
  "stocked = pm_push_list [0x1000, 0x2000, 0x3000]
     (boot_pmm\<lparr>pm_stack := 0xffff800000010000, pm_total_pages := 8,
       hhdm_offset := 0xffff800000000000, pm_free_pages := 3\<rparr>)"

lemma stocked_simps [simp]:
  "pm_stack_idx stocked = 3" "pm_total_pages stocked = 8" "pm_free_pages stocked = 3"
  "pm_used_pages stocked = 0" "hhdm_offset stocked = 0xffff800000000000"
  "pm_stack stocked = 0xffff800000010000"
  by (simp_all add: stocked_def boot_pmm_def)

lemma free_list_stocked: "free_list stocked = [0x1000, 0x2000, 0x3000]" "stack_wf stocked"
proof -
  let ?s = "boot_pmm\<lparr>pm_stack := 0xffff800000010000, pm_total_pages := 8,
       hhdm_offset := 0xffff800000000000, pm_free_pages := 3\<rparr>"
  have "stack_wf ?s" by (simp add: stack_wf_def boot_pmm_def aligned_dvd)
  note spec = push_list_spec [OF this, of "[0x1000, 0x2000, 0x3000]"]
  have "free_list ?s = []" by (simp add: free_list_def boot_pmm_def)
  with spec(1,2) show "free_list stocked = [0x1000, 0x2000, 0x3000]" "stack_wf stocked"
    by (simp_all add: stocked_def boot_pmm_def)
qed

lemma stack_region_stocked: "stack_region stocked = {0xffff800000010}"
proof -
  have "pgno (0xffff800000010000 + 8 * of_nat k) = 0xffff800000010" if "k < 8" for k
  proof -
    have "pgno (0xffff800000010000 + 8 * of_nat k) = pgno (0xffff800000010000 :: u64)"
      using that by (intro pgno_offset) (simp_all add: aligned_dvd unat_word_ariths unat_of_nat)
    then show ?thesis by (simp add: pgno_def)
  qed
  then show ?thesis by (auto simp: stack_region_def intro!: image_eqI [of _ _ 0])
qed

lemma pmm_ok_stocked: "pmm_ok stocked"
  by (simp add: pmm_ok_def free_list_stocked frame_ok_def stack_region_stocked aligned_dvd pgno_def)

text \<open>
  C30. A request for \<open>n\<close> pages refines popping \<open>n\<close> entries of the free list: with fewer
  entries, or for \<open>n = 0\<close>, it returns null and changes nothing but the log, which gets a line
  with the number; otherwise it returns the
  lowest popped entry, leaves memory alone and moves \<open>n\<close> from the free to the used counter.
\<close>

theorem pmm_request_pages_refines:
  assumes "pmm_request_pages n s = (p, s')"
  shows "if n = 0 \<or> length (free_list s) < unat n then p = 0 \<and> s' = report (out_of_pages n) s
    else p = free_list s ! (length (free_list s) - unat n) \<and>
      free_list s' = take (length (free_list s) - unat n) (free_list s) \<and>
      mem s' = mem s \<and> klog s' = klog s \<and>
      pm_free_pages s' = pm_free_pages s - n \<and> pm_used_pages s' = pm_used_pages s + n"
  using assms
proof (cases rule: request_cases)
  case some
  then show ?thesis
    using free_list_popped [OF some(2)] by (auto simp: popped_def)
qed auto

lemma pmm_request_pages_refines_witness:
  "\<exists>s'. pmm_request_pages 2 stocked = (0x2000, s') \<and> free_list s' = [0x1000] \<and>
     pm_used_pages s' = 2"
proof -
  obtain p s' where r: "pmm_request_pages 2 stocked = (p, s')" by fastforce
  from pmm_request_pages_refines [OF r] r show ?thesis
    by (auto simp: free_list_stocked)
qed

lemma pm_free_loop_full:
  assumes "unat (pm_total_pages s) < unat (pm_stack_idx s) + (unat n - unat i)"
    and "pm_stack_idx s \<le> pm_total_pages s"
  shows "pm_free_loop a i n s = (False, report free_overflow (pm_push_list
    (pages_from (a + i * PAGE_SIZE) (unat (pm_total_pages s) - unat (pm_stack_idx s))) s))"
  using assms
proof (induction a i n s rule: pm_free_loop.induct)
  case (1 a i n s)
  from "1.prems" have i: "i < n" by (simp add: word_less_nat_alt word_le_nat_alt)
  show ?case
  proof (cases "pm_stack_idx s = pm_total_pages s")
    case True
    with i show ?thesis by (subst pm_free_loop.simps) simp
  next
    case False
    with "1.prems"(2) have room: "pm_stack_idx s < pm_total_pages s" by simp
    let ?s = "pm_push (a + i * PAGE_SIZE) s"
    have next_i: "unat (i + 1) = Suc (unat i)" using i by (rule unat_Suc_word)
    have next_idx: "unat (pm_stack_idx s + 1) = Suc (unat (pm_stack_idx s))"
      using room by (rule unat_Suc_word)
    have gap: "unat (pm_total_pages s) - unat (pm_stack_idx s) =
        Suc (unat (pm_total_pages s) - unat (pm_stack_idx s + 1))"
      using room next_idx by (simp add: word_less_nat_alt)
    have "pm_free_loop a (i + 1) n ?s = (False, report free_overflow (pm_push_list
        (pages_from (a + (i + 1) * PAGE_SIZE)
          (unat (pm_total_pages ?s) - unat (pm_stack_idx ?s))) ?s))"
      using i room "1.prems" next_i next_idx
      by (intro "1.IH") (simp_all add: word_le_nat_alt word_less_nat_alt)
    with i room show ?thesis
      by (subst pm_free_loop.simps) (simp add: gap pages_from_Suc algebra_simps)
  qed
qed

text \<open>
  C33. \<open>pmm_free_pages\<close> on every branch: null, misaligned and empty ranges stop the machine
  in the \<open>ASSERT\<close>s, which log their conditions; a range that fits is appended to the free list, lowest page first, and
  the counters move back; a range that does not fit fills the stack with its first pages and
  logs the overflow and returns with both counters unchanged.
\<close>

theorem pmm_free_pages_branches:
  assumes "stack_wf s"
  shows "if p = 0 \<or> p mod PAGE_SIZE \<noteq> 0 \<or> n = 0
    then pmm_free_pages p n s = Halt (report (assertion_line
      (if p = 0 then ''ptr != NULL'' else if n = 0 \<and> p mod PAGE_SIZE = 0 then ''pages > 0''
       else ''(uint64_t)ptr % PAGE_SIZE == 0'')) s)
    else \<exists>s'. pmm_free_pages p n s = Ret () s' \<and>
      free_list s' = free_list s @
        take (unat (pm_total_pages s) - length (free_list s)) (pages_from p (unat n)) \<and>
      (if length (free_list s) + unat n \<le> unat (pm_total_pages s)
       then pm_free_pages s' = pm_free_pages s + n \<and> pm_used_pages s' = pm_used_pages s - n \<and>
         klog s' = klog s
       else pm_free_pages s' = pm_free_pages s \<and> pm_used_pages s' = pm_used_pages s \<and>
         klog s' = klog s @ [free_overflow])"
proof (cases "p = 0 \<or> p mod PAGE_SIZE \<noteq> 0 \<or> n = 0")
  case True
  then show ?thesis by (auto simp: pmm_free_pages_def assert_failed_def)
next
  case False
  show ?thesis
  proof (cases "length (free_list s) + unat n \<le> unat (pm_total_pages s)")
    case fits: True
    have "pmm_free_pages p n s = Ret () (pushed p n s)"
      using False fits by (intro free_some) (auto simp: aligned_mod word_gt_0)
    with False fits pushed_spec(1) [OF assms fits, of p] show ?thesis
      by (simp add: pushed_def Let_def)
  next
    case full: False
    let ?k = "unat (pm_total_pages s) - unat (pm_stack_idx s)"
    have idx: "pm_stack_idx s \<le> pm_total_pages s" using assms by (simp add: stack_wf_def)
    have loop: "pm_free_loop p 0 n s = (False, report free_overflow (pm_push_list (pages_from p ?k) s))"
      using pm_free_loop_full [of s n 0 p] full idx by simp
    have "unat (pm_stack_idx s) + length (pages_from p ?k) \<le> unat (pm_total_pages s)"
      using idx by (simp add: word_le_nat_alt)
    from push_list_spec(1) [OF assms this]
    have "free_list (pm_push_list (pages_from p ?k) s) = free_list s @ pages_from p ?k" .
    moreover have "take ?k (pages_from p (unat n)) = pages_from p ?k"
      using full by (simp add: pages_from_def take_map)
    ultimately show ?thesis
      using False full loop by (simp add: pmm_free_pages_def word_gt_0)
  qed
qed

lemma pmm_free_pages_branches_witness:
  "\<exists>s'. pmm_free_pages 0x8000 2 stocked = Ret () s' \<and>
     free_list s' = [0x1000, 0x2000, 0x3000, 0x8000, 0x9000]"
proof -
  have "pages_from 0x8000 2 = [0x8000, 0x9000]"
    by (simp add: pages_from_def PAGE_SIZE_def upt_rec)
  then show ?thesis
    using pmm_free_pages_branches [OF free_list_stocked(2), where p = "0x8000" and n = 2]
    by (auto simp: free_list_stocked PAGE_SIZE_def)
qed

text \<open>
  Taking one page and giving it back restores the whole state, byte for byte.
\<close>

theorem request_free_roundtrip:
  assumes "pmm_ok s" "pmm_request_pages 1 s = (p, s')" "p \<noteq> 0"
  shows "pmm_free_pages p 1 s' = Ret () s"
  using assms(2)
proof (cases rule: request_cases)
  case none
  with assms(3) show ?thesis by simp
next
  case some
  have "frame_ok s p"
    using some assms(1) by (simp add: pmm_ok_def)
  have idx: "unat (pm_stack_idx s - 1) = unat (pm_stack_idx s) - 1"
    using some by (simp add: unat_sub word_le_nat_alt)
  have "length (free_list s') + unat (1 :: u64) \<le> unat (pm_total_pages s')"
    using some idx assms(1) by (simp add: popped_def pmm_ok_def stack_wf_def word_le_nat_alt)
  then have "pmm_free_pages p 1 s' = Ret () (pushed p 1 s')"
    using \<open>frame_ok s p\<close> by (intro free_some) (auto simp: frame_ok_def)
  moreover have "p = ld64 (mem s) (pm_stack s + 8 * (pm_stack_idx s - 1))"
    using some request_some [OF some(1,2)] assms(2)
    by (simp add: pmm_request_pages_def split: if_splits)
  then have "pushed p 1 s' = s"
    using some by (simp add: pushed_def pages_from_def pm_push_def popped_def)
  ultimately show ?thesis by simp
qed

lemma request_free_roundtrip_witness:
  "pmm_free_pages 0x3000 1 (snd (pmm_request_pages 1 stocked)) = Ret () stocked"
proof -
  have r: "pmm_request_pages 1 stocked = (0x3000, snd (pmm_request_pages 1 stocked))"
    using request_some [of 1 stocked] by (simp add: free_list_stocked)
  show ?thesis
    by (rule request_free_roundtrip [OF pmm_ok_stocked r]) simp
qed

section \<open>Ownership of single frames\<close>

text \<open>
  A run of the manager with clients that take frames one at a time and only free what they
  own. \<open>own\<close> is the set of frames out with the clients.
\<close>

inductive pmm_run ::
  "'a pmm_state_scheme \<Rightarrow> 'a pmm_state_scheme \<Rightarrow> u64 set \<Rightarrow> bool" for s0 where
  start: "pmm_run s0 s0 {}"
| get: "pmm_run s0 s own \<Longrightarrow> pmm_request_pages 1 s = (p, s') \<Longrightarrow> p \<noteq> 0 \<Longrightarrow>
    pmm_run s0 s' (insert p own)"
| none: "pmm_run s0 s own \<Longrightarrow> pmm_request_pages 1 s = (0, s') \<Longrightarrow> pmm_run s0 s' own"
| put: "pmm_run s0 s own \<Longrightarrow> p \<in> own \<Longrightarrow> pmm_free_pages p 1 s = Ret () s' \<Longrightarrow>
    pmm_run s0 s' (own - {p})"

definition own_inv :: "'a pmm_state_scheme \<Rightarrow> 'a pmm_state_scheme \<Rightarrow> u64 set \<Rightarrow> bool" where
  "own_inv s0 s own \<longleftrightarrow>
     pmm_ok s \<and> own \<inter> set (free_list s) = {} \<and>
     own \<union> set (free_list s) = set (free_list s0) \<and> (\<forall>p \<in> own. frame_ok s p) \<and>
     pm_total_pages s = pm_total_pages s0 \<and>
     pm_used_pages s = pm_used_pages s0 + of_nat (card own)"

lemma own_inv_room:
  assumes "own_inv s0 s own" "pmm_ok s0" "p \<in> own"
  shows "length (free_list s) + 1 \<le> unat (pm_total_pages s)"
proof -
  have "card (insert p (set (free_list s))) \<le> card (set (free_list s0))"
    using assms by (intro card_mono) (auto simp: own_inv_def)
  moreover have "card (insert p (set (free_list s))) = Suc (length (free_list s))"
    using assms by (auto simp: own_inv_def pmm_ok_def card_insert_if distinct_card)
  moreover have "card (set (free_list s0)) \<le> unat (pm_total_pages s0)"
    using assms(2) card_length [of "free_list s0"]
    by (auto simp: pmm_ok_def stack_wf_def word_le_nat_alt)
  ultimately show ?thesis using assms(1) by (simp add: own_inv_def)
qed

lemma own_inv_get:
  assumes inv: "own_inv s0 s own" and r: "pmm_request_pages 1 s = (p, s')" and p: "p \<noteq> 0"
  shows "own_inv s0 s' (insert p own)"
  using r
proof (cases rule: request_cases)
  case none
  with p show ?thesis by simp
next
  case some
  have ok: "pmm_ok s" using inv by (simp add: own_inv_def)
  have fin: "finite own"
    by (rule finite_subset [of _ "set (free_list s0)"]) (use inv in \<open>auto simp: own_inv_def\<close>)
  let ?n = "length (free_list s) - 1"
  have split: "free_list s = take ?n (free_list s) @ [p]"
    using some take_Suc_conv_app_nth [of ?n "free_list s"] by simp
  have rest: "free_list s' = take ?n (free_list s)"
    using some free_list_popped [of 1 s] by simp
  have set: "set (free_list s) = insert p (set (free_list s'))" "p \<notin> set (free_list s')"
    using split rest ok unfolding pmm_ok_def
    by (metis list.simps(15) set_append Un_insert_right sup_bot_right set_empty,
        metis distinct_append disjoint_insert(1) list.simps(15))
  have "pmm_ok s'" using ok some by (simp add: pmm_ok_popped)
  moreover have "frame_ok s' q \<longleftrightarrow> frame_ok s q" for q using some by simp
  moreover have "pm_used_pages s' = pm_used_pages s + 1" "pm_total_pages s' = pm_total_pages s"
    using some by (simp_all add: popped_def)
  moreover have "p \<notin> own" using inv set by (auto simp: own_inv_def)
  ultimately show ?thesis
    using inv set fin by (auto simp: own_inv_def pmm_ok_def add.assoc)
qed

lemma own_put:
  assumes inv: "own_inv s0 s own" and s0: "pmm_ok s0" and p: "p \<in> own"
  shows "pmm_free_pages p 1 s = Ret () (pushed p 1 s)"
    "free_list (pushed p 1 s) = free_list s @ [p]" "pmm_ok (pushed p 1 s)"
proof -
  have room: "length (free_list s) + unat (1 :: u64) \<le> unat (pm_total_pages s)"
    using own_inv_room [OF inv s0 p] by simp
  have ok: "pmm_ok s" "stack_wf s" and fp: "frame_ok s p"
    using inv p by (auto simp: own_inv_def pmm_ok_def)
  have one: "pages_from p (unat (1 :: u64)) = [p]" by (simp add: pages_from_def)
  show "pmm_free_pages p 1 s = Ret () (pushed p 1 s)"
    using fp room by (intro free_some) (simp_all add: frame_ok_def)
  show "free_list (pushed p 1 s) = free_list s @ [p]"
    using pushed_spec(1) [OF ok(2) room, of p] one by simp
  show "pmm_ok (pushed p 1 s)"
    using inv p fp ok room one by (intro pmm_ok_pushed) (auto simp: own_inv_def)
qed

lemma own_inv_put:
  assumes inv: "own_inv s0 s own" and s0: "pmm_ok s0" and p: "p \<in> own"
    and r: "pmm_free_pages p 1 s = Ret () s'"
  shows "own_inv s0 s' (own - {p})"
proof -
  note put = own_put [OF inv s0 p]
  have s': "s' = pushed p 1 s" using put(1) r by simp
  have fin: "finite own"
    by (rule finite_subset [of _ "set (free_list s0)"]) (use inv in \<open>auto simp: own_inv_def\<close>)
  have "pm_used_pages s' = pm_used_pages s - 1"
    by (simp add: s' pushed_def Let_def)
  moreover have "card own = Suc (card (own - {p}))" using fin p by (rule card.remove)
  ultimately show ?thesis
    using inv p put(2,3) by (auto simp: own_inv_def s')
qed

lemma pmm_run_inv:
  assumes "pmm_ok s0" "pmm_run s0 s own"
  shows "own_inv s0 s own"
  using assms(2,1)
proof (induction rule: pmm_run.induct)
  case start
  then show ?case by (auto simp: own_inv_def)
next
  case (get s own p s')
  then show ?case by (blast intro: own_inv_get)
next
  case (none s own s')
  have "s' = report (out_of_pages 1) s"
    using none.hyps(2)
  proof (cases rule: request_cases)
    case some
    have "pmm_ok s" using none by (simp add: own_inv_def)
    then show ?thesis
      using pmm.request_null_iff [of s 1] none.hyps(2) some by simp
  qed simp
  with none show ?case by (simp add: own_inv_def)
next
  case (put s own p s')
  then show ?case by (blast intro: own_inv_put)
qed

text \<open>
  C14. In every run of single-frame requests and frees of owned frames, no frame is handed
  out while a client owns it, owned and free frames together are always the frames there
  were at the start, and the used counter is the number of owned frames.
\<close>

theorem pmm_no_double_allocation:
  assumes "pmm_ok s0" "pm_used_pages s0 = 0" "pmm_run s0 s own"
  shows "fst (pmm_request_pages 1 s) \<notin> own \<and>
    own \<inter> set (free_list s) = {} \<and> own \<union> set (free_list s) = set (free_list s0) \<and>
    pm_used_pages s = of_nat (card own)"
proof -
  have inv: "own_inv s0 s own" using pmm_run_inv [OF assms(1,3)] .
  then have ok: "pmm_ok s" by (simp add: own_inv_def)
  have "fst (pmm_request_pages 1 s) \<notin> own"
  proof (cases "fst (pmm_request_pages 1 s) = 0")
    case True
    then show ?thesis using inv by (auto simp: own_inv_def frame_ok_def)
  next
    case False
    then show ?thesis using pmm.request_fresh(1) [OF ok False] inv by (auto simp: own_inv_def)
  qed
  with inv assms(2) show ?thesis by (simp add: own_inv_def)
qed

lemma pmm_no_double_allocation_witness:
  "fst (pmm_request_pages 1 (snd (pmm_request_pages 1 stocked))) \<notin> {0x3000} \<and>
   pm_used_pages (snd (pmm_request_pages 1 stocked)) = 1"
proof -
  have r: "pmm_request_pages 1 stocked = (0x3000, snd (pmm_request_pages 1 stocked))"
    using request_some [of 1 stocked] by (simp add: free_list_stocked)
  have run: "pmm_run stocked (snd (pmm_request_pages 1 stocked)) {0x3000}"
    using pmm_run.get [OF pmm_run.start r] by simp
  have used: "pm_used_pages stocked = 0" by simp
  from pmm_no_double_allocation [OF pmm_ok_stocked used run] show ?thesis by simp
qed

section \<open>Requests for several frames\<close>

text \<open>
  The frames of a multi-page request need not be contiguous: take the two topmost frames
  (neighbours \<open>a\<close> and \<open>a + PAGE_SIZE\<close>) one by one and give them back in the order they were
  taken; a request for two pages then pops exactly these two but returns the upper one, so
  the page after the returned address was not allocated.
\<close>

lemma request_two_not_contiguous:
  assumes "pmm_ok s" "free_list s = fs @ [a, a + PAGE_SIZE]"
    and "pmm_request_pages 1 s = (p, s1)" "pmm_request_pages 1 s1 = (q, s2)"
    and "pmm_free_pages p 1 s2 = Ret () s3" "pmm_free_pages q 1 s3 = Ret () s4"
    and "pmm_request_pages 2 s4 = (r, s5)"
  shows "r = a + PAGE_SIZE \<and> free_list s5 = fs \<and> r + PAGE_SIZE \<notin> {a, a + PAGE_SIZE}"
proof -
  have p: "p = a + PAGE_SIZE" "free_list s1 = fs @ [a]" "pmm_ok s1"
    using pmm.request_one [of s "fs @ [a]" "a + PAGE_SIZE"] assms(1,2,3)
      pmm.request_ok [OF assms(1), of 1] by auto
  have q: "q = a" "free_list s2 = fs" "pmm_ok s2"
    using pmm.request_one [of s1 fs a] p assms(4) pmm.request_ok [OF p(3), of 1] by auto
  have run: "pmm_run s s2 {q, p}"
    using pmm_run.get [OF pmm_run.get [OF pmm_run.start assms(3)] assms(4)] assms(1,2) p q
    by (auto simp: pmm_ok_def frame_ok_def)
  have inv2: "own_inv s s2 {q, p}" using pmm_run_inv [OF assms(1) run] .
  have run3: "pmm_run s s3 ({q, p} - {p})"
    using run assms(5) by (intro pmm_run.put) auto
  have ne: "a \<noteq> a + PAGE_SIZE" by (simp add: PAGE_SIZE_def)
  have inv3: "own_inv s s3 ({q, p} - {p})" using pmm_run_inv [OF assms(1) run3] .
  have l3: "free_list s3 = fs @ [p]"
    using own_put [OF inv2 assms(1), of p] assms(5) q(2) by auto
  have l4: "free_list s4 = fs @ [p, q]"
    using own_put [OF inv3 assms(1), of q] assms(6) l3 ne p(1) q(1) by auto
  have "a + PAGE_SIZE + PAGE_SIZE \<noteq> a" by (simp add: PAGE_SIZE_def)
  then show ?thesis
    using request_some [of 2 s4] free_list_popped [of 2 s4] assms(7) l4 p(1) ne
    by (simp add: nth_append)
qed

lemma request_two_not_contiguous_witness:
  "\<exists>p s1 q s2 s3 s4. pmm_request_pages 1 stocked = (p, s1) \<and> pmm_request_pages 1 s1 = (q, s2) \<and>
     pmm_free_pages p 1 s2 = Ret () s3 \<and> pmm_free_pages q 1 s3 = Ret () s4 \<and>
     fst (pmm_request_pages 2 s4) = 0x3000 \<and>
     free_list (snd (pmm_request_pages 2 s4)) = [0x1000]"
proof -
  obtain p s1 where r1: "pmm_request_pages 1 stocked = (p, s1)" by fastforce
  have 1: "p = 0x3000" "free_list s1 = [0x1000] @ [0x2000]" "pmm_ok s1"
    using pmm.request_one [of stocked "[0x1000, 0x2000]" "0x3000"] r1 pmm_ok_stocked
      pmm.request_ok [OF pmm_ok_stocked, of 1] by (auto simp: free_list_stocked)
  obtain q s2 where r2: "pmm_request_pages 1 s1 = (q, s2)" by fastforce
  have 2: "q = 0x2000" "pmm_ok s2"
    using pmm.request_one [OF 1(3,2)] r2 pmm.request_ok [OF 1(3), of 1] by auto
  have run2: "pmm_run stocked s2 {q, p}"
    using pmm_run.get [OF pmm_run.get [OF pmm_run.start r1] r2] 1 2 by simp
  then have inv2: "own_inv stocked s2 {q, p}" by (rule pmm_run_inv [OF pmm_ok_stocked])
  have r3: "pmm_free_pages p 1 s2 = Ret () (pushed p 1 s2)"
    using own_put(1) [OF inv2 pmm_ok_stocked] by simp
  have run3: "pmm_run stocked (pushed p 1 s2) ({q, p} - {p})"
    by (rule pmm_run.put [OF run2 _ r3]) simp
  then have inv3: "own_inv stocked (pushed p 1 s2) ({q, p} - {p})"
    by (rule pmm_run_inv [OF pmm_ok_stocked])
  have r4: "pmm_free_pages q 1 (pushed p 1 s2) = Ret () (pushed q 1 (pushed p 1 s2))"
    using own_put(1) [OF inv3 pmm_ok_stocked, of q] 1 2 by simp
  obtain r s5 where r5: "pmm_request_pages 2 (pushed q 1 (pushed p 1 s2)) = (r, s5)"
    by fastforce
  have "free_list stocked = [0x1000] @ [0x2000, 0x2000 + PAGE_SIZE]"
    by (simp add: free_list_stocked PAGE_SIZE_def)
  from request_two_not_contiguous [OF pmm_ok_stocked this r1 r2 r3 r4 r5]
  show ?thesis using r1 r2 r3 r4 r5
    by (intro exI [of _ p] exI [of _ s1] exI [of _ q] exI [of _ s2]
        exI [of _ "pushed p 1 s2"] exI [of _ "pushed q 1 (pushed p 1 s2)"])
      (simp add: PAGE_SIZE_def)
qed

end
