(* ===== verification/Spinlock.thy ===== *)
theory Spinlock
  imports Prelude
begin

text \<open>
  \<^verbatim>\<open>olive/include/lib/stdlock.h\<close>: the spin lock of the kernel. First the two
  operations as a single processor runs them: \<open>spinlock_acquire\<close> repeats an atomic
  test-and-set until it reads \<open>0\<close>, so it returns at once on a free lock and never on a
  held one. Then the same operations, one atomic access per step, run by any number of
  processors in any interleaving, with mutual exclusion as an invariant. The locale
  \<open>guarded\<close> is the contract of a state that embeds such a lock, for the critical sections of
  the memory manager, the heap and the console.
\<close>

section \<open>Acquire and release\<close>

record spinlock_t =
  locked :: int

definition SPINLOCK_INIT :: spinlock_t where
  "SPINLOCK_INIT = \<lparr>locked = 0\<rparr>"

text \<open>\<open>__sync_lock_test_and_set(&lock->locked, 1)\<close>: the old value, and the lock set.\<close>

definition sync_lock_test_and_set :: "spinlock_t \<Rightarrow> int \<Rightarrow> int \<times> spinlock_t" where
  "sync_lock_test_and_set l v = (locked l, l\<lparr>locked := v\<rparr>)"

definition sync_lock_release :: "spinlock_t \<Rightarrow> spinlock_t" where
  "sync_lock_release l = l\<lparr>locked := 0\<rparr>"

partial_function (option) spinlock_acquire :: "spinlock_t \<Rightarrow> spinlock_t option" where
  "spinlock_acquire l =
     (case sync_lock_test_and_set l 1 of
        (old, l') \<Rightarrow> if old \<noteq> 0 then spinlock_acquire l' else Some l')"

definition spinlock_release :: "spinlock_t \<Rightarrow> spinlock_t" where
  "spinlock_release l = sync_lock_release l"

lemma acquire_free: "locked l = 0 \<Longrightarrow> spinlock_acquire l = Some (l\<lparr>locked := 1\<rparr>)"
  by (subst spinlock_acquire.simps) (simp add: sync_lock_test_and_set_def)

lemma acquire_returns_free:
  assumes "spinlock_acquire l = Some l'"
  shows "locked l = 0"
proof (rule spinlock_acquire.raw_induct [where P = "\<lambda>l l'. locked l = 0", OF _ assms])
  fix acq l l'
  assume IH: "\<And>l l'. acq l = Some l' \<Longrightarrow> locked l = 0"
    and eq: "(case sync_lock_test_and_set l 1 of
        (old, l') \<Rightarrow> if old \<noteq> 0 then acq l' else Some l') = Some l'"
  show "locked l = 0"
  proof (rule ccontr)
    assume "locked l \<noteq> 0"
    with eq have "acq (l\<lparr>locked := 1\<rparr>) = Some l'"
      by (simp add: sync_lock_test_and_set_def)
    then have "locked (l\<lparr>locked := 1\<rparr>) = 0" by (rule IH)
    then show False by simp
  qed
qed

text \<open>A held lock is never acquired: the loop has nothing to change its mind.\<close>

lemma acquire_eq:
  "spinlock_acquire l = (if locked l = 0 then Some (l\<lparr>locked := 1\<rparr>) else None)"
  using acquire_free [of l] acquire_returns_free [of l] by (cases "spinlock_acquire l") auto

lemma acquire_code [code]:
  "spinlock_acquire l = (if locked l = 0 then Some (l\<lparr>locked := 1\<rparr>) else None)"
  by (rule acquire_eq)

lemma locked_release [simp]: "locked (spinlock_release l) = 0"
  by (simp add: spinlock_release_def sync_lock_release_def)

section \<open>States that embed a lock\<close>

text \<open>
  A state \<open>'s\<close> with a lock in it: \<open>get\<close> reads the lock, \<open>put\<close> replaces it. The laws are
  those of a record field.
\<close>

locale guarded =
  fixes get :: "'s \<Rightarrow> spinlock_t"
    and put :: "spinlock_t \<Rightarrow> 's \<Rightarrow> 's"
  assumes get_put [simp]: "get (put l s) = l"
    and put_get: "put (get s) s = s"
    and put_put [simp]: "put l (put l' s) = put l s"
begin

text \<open>
  \<open>entered s\<close> is the state in which the critical section starts, \<open>left s\<close> the state after
  the release at its end.
\<close>

definition entered :: "'s \<Rightarrow> 's option" where
  "entered s = map_option (\<lambda>l. put l s) (spinlock_acquire (get s))"

definition left :: "'s \<Rightarrow> 's" where
  "left s = put (spinlock_release (get s)) s"

lemma entered_free: "locked (get s) = 0 \<Longrightarrow> entered s = Some (put ((get s)\<lparr>locked := 1\<rparr>) s)"
  by (simp add: entered_def acquire_eq)

lemma entered_held: "locked (get s) \<noteq> 0 \<Longrightarrow> entered s = None"
  by (simp add: entered_def acquire_eq)

lemma entered_again: "entered s = Some t \<Longrightarrow> entered t = None"
  by (auto simp: entered_def acquire_eq split: if_splits)

lemma left_free: "locked (get (left s)) = 0"
  by (simp add: left_def)

lemma left_entered: "entered s = Some t \<Longrightarrow> left t = s"
proof -
  assume "entered s = Some t"
  then have free: "locked (get s) = 0" and t: "t = put ((get s)\<lparr>locked := 1\<rparr>) s"
    by (auto simp: entered_def acquire_eq split: if_splits)
  have "spinlock_release ((get s)\<lparr>locked := 1\<rparr>) = get s"
    using free by (cases "get s") (simp add: spinlock_release_def sync_lock_release_def)
  with t show ?thesis by (simp add: left_def put_get)
qed

end

section \<open>Several processors\<close>

text \<open>
  Each processor is outside, spinning in the loop of \<open>spinlock_acquire\<close>, or inside its
  critical section. One step is one atomic access of one processor.
\<close>

datatype phase = Outside | Spinning | Inside

record smp =
  lock :: spinlock_t
  phases :: "nat \<Rightarrow> phase"

definition smp_init :: smp where
  "smp_init = \<lparr>lock = SPINLOCK_INIT, phases = (\<lambda>_. Outside)\<rparr>"

inductive smp_step :: "smp \<Rightarrow> smp \<Rightarrow> bool" where
  call: "phases s i = Outside \<Longrightarrow>
     smp_step s (s\<lparr>phases := (phases s)(i := Spinning)\<rparr>)"
| retry: "phases s i = Spinning \<Longrightarrow> sync_lock_test_and_set (lock s) 1 = (old, l) \<Longrightarrow>
     old \<noteq> 0 \<Longrightarrow> smp_step s (s\<lparr>lock := l\<rparr>)"
| enter: "phases s i = Spinning \<Longrightarrow> sync_lock_test_and_set (lock s) 1 = (old, l) \<Longrightarrow>
     old = 0 \<Longrightarrow> smp_step s (s\<lparr>lock := l, phases := (phases s)(i := Inside)\<rparr>)"
| leave: "phases s i = Inside \<Longrightarrow>
     smp_step s (s\<lparr>lock := spinlock_release (lock s), phases := (phases s)(i := Outside)\<rparr>)"

inductive smp_reachable :: "smp \<Rightarrow> bool" where
  start: "smp_reachable smp_init"
| step: "smp_reachable s \<Longrightarrow> smp_step s t \<Longrightarrow> smp_reachable t"

text \<open>The lock is set exactly while one processor, and only one, is inside.\<close>

definition smp_inv :: "smp \<Rightarrow> bool" where
  "smp_inv s \<longleftrightarrow>
     (\<forall>i j. phases s i = Inside \<longrightarrow> phases s j = Inside \<longrightarrow> i = j) \<and>
     (locked (lock s) \<noteq> 0 \<longleftrightarrow> (\<exists>i. phases s i = Inside))"

lemma smp_step_inv: "smp_step s t \<Longrightarrow> smp_inv s \<Longrightarrow> smp_inv t"
proof (induction rule: smp_step.induct)
  case (call s i)
  then have "phases (s\<lparr>phases := (phases s)(i := Spinning)\<rparr>) j = Inside \<longleftrightarrow> phases s j = Inside" for j
    by simp
  with call show ?case by (simp add: smp_inv_def)
next
  case (retry s i old l)
  then show ?case by (auto simp: smp_inv_def sync_lock_test_and_set_def)
next
  case (enter s i old l)
  then show ?case by (auto simp: smp_inv_def sync_lock_test_and_set_def)
next
  case (leave s i)
  then show ?case by (auto simp: smp_inv_def)
qed

lemma smp_reachable_inv: "smp_reachable s \<Longrightarrow> smp_inv s"
proof (induction rule: smp_reachable.induct)
  case start
  show ?case by (simp add: smp_inv_def smp_init_def SPINLOCK_INIT_def)
next
  case (step s t)
  then show ?case by (blast intro: smp_step_inv)
qed

text \<open>
  C25. Mutual exclusion: in every reachable state of any number of processors contending for
  the lock, at most one is inside its critical section, and the lock is set exactly when one
  is.
\<close>

theorem spinlock_mutual_exclusion:
  assumes "smp_reachable s"
  shows "(phases s i = Inside \<longrightarrow> phases s j = Inside \<longrightarrow> i = j) \<and>
    (locked (lock s) \<noteq> 0 \<longleftrightarrow> (\<exists>k. phases s k = Inside))"
  using smp_reachable_inv [OF assms] by (simp add: smp_inv_def)

lemma spinlock_mutual_exclusion_witness:
  "\<exists>s. smp_reachable s \<and> phases s 3 = Inside \<and> locked (lock s) \<noteq> 0 \<and> phases s 4 \<noteq> Inside"
proof -
  let ?s1 = "smp_init\<lparr>phases := (phases smp_init)(3 := Spinning)\<rparr>"
  have 1: "smp_reachable ?s1"
    by (rule smp_reachable.step [OF smp_reachable.start])
      (rule smp_step.call, simp add: smp_init_def)
  let ?s2 = "?s1\<lparr>lock := (lock ?s1)\<lparr>locked := 1\<rparr>, phases := (phases ?s1)(3 := Inside)\<rparr>"
  have 2: "smp_reachable ?s2"
    by (rule smp_reachable.step [OF 1], rule smp_step.enter [where old = 0])
      (simp_all add: sync_lock_test_and_set_def smp_init_def SPINLOCK_INIT_def)
  from spinlock_mutual_exclusion [OF 2, of 3 4] 2 show ?thesis
    by (intro exI [of _ ?s2]) simp
qed

text \<open>
  On one processor an acquire returns exactly when the lock is free, with the lock then
  set; on a held lock it spins for ever, so acquiring a lock one already holds is a
  deadlock.
\<close>

lemma spinlock_acquire_returns_iff_free:
  "spinlock_acquire l = (if locked l = 0 then Some (l\<lparr>locked := 1\<rparr>) else None) \<and>
   (spinlock_acquire l = Some l' \<longrightarrow> spinlock_acquire l' = None)"
  by (auto simp: acquire_eq split: if_splits)

lemma spinlock_acquire_returns_iff_free_witness:
  "spinlock_acquire (SPINLOCK_INIT\<lparr>locked := 1\<rparr>) = None"
  using spinlock_acquire_returns_iff_free [of SPINLOCK_INIT "SPINLOCK_INIT\<lparr>locked := 1\<rparr>"]
  by (simp add: SPINLOCK_INIT_def)

end
