(* ===== verification/Vmm.thy ===== *)
theory Vmm
  imports PmmSpec Spinlock
begin

text \<open>
  The virtual memory manager, \<^verbatim>\<open>olive/src/mm/vmm.c\<close>: four-level x86-64 page tables
  whose pages come from the physical memory manager and are reached through the higher-half
  window (physical address plus \<open>hhdm_offset\<close>). The state extends that of the physical
  manager with the file's globals and the control register CR3. The functions follow the C
  code statement by statement; a function that acquires \<open>map_lock\<close> has an \<open>option\<close> result,
  \<open>None\<close> when it spins for ever. The CPUID instruction and the linker script's symbols are
  parameters of \<open>vmm_init\<close>.
\<close>

section \<open>State\<close>

record pagemap_t =
  pml4 :: u64

record vmm_state = pmm_state +
  kernel_pm :: pagemap_t
  physical_address_width :: u64
  linear_address_width :: u64
  map_lock :: spinlock_t
  cr3 :: u64
  tlb_flushes :: nat

definition PTE_BIT_PRESENT :: u64 where "PTE_BIT_PRESENT = 1"
definition PTE_BIT_READ_WRITE :: u64 where "PTE_BIT_READ_WRITE = push_bit 1 1"
definition PTE_BIT_ACCESS_ALL :: u64 where "PTE_BIT_ACCESS_ALL = push_bit 2 1"
definition PTE_BIT_WRITE_THROUGH_CACHING :: u64 where
  "PTE_BIT_WRITE_THROUGH_CACHING = push_bit 3 1"
definition PTE_BIT_EXECUTE_DISABLE :: u64 where "PTE_BIT_EXECUTE_DISABLE = push_bit 63 1"

text \<open>The physical address field of a table entry.\<close>

definition PTE_ADDR :: u64 where
  "PTE_ADDR = 0x000ffffffffff000"

text \<open>Reloading CR3 drops every cached translation; only the event is recorded.\<close>

definition tlb_flush :: "'a vmm_state_scheme \<Rightarrow> 'a vmm_state_scheme" where
  "tlb_flush s = s\<lparr>tlb_flushes := Suc (tlb_flushes s)\<rparr>"

text \<open>The log lines of the file.\<close>

definition null_kernel_address :: "u64 \<Rightarrow> u64 \<Rightarrow> log_line" where
  "null_kernel_address virt phys =
     ERROR (''Kernel virtual or physical addresses are zero, Virtual: 0x%.16llx, Physical: 0x%.16llx'' @ nl)
       [Slot virt, Slot phys]"
definition no_root_table :: log_line where
  "no_root_table = ERROR (''Failed to allocate memory for PML4'' @ nl) []"
definition no_lower_table :: log_line where
  "no_lower_table = ERROR (''Failed to allocate page for lower level page table'' @ nl) []"
definition no_page_table :: log_line where
  "no_page_table = ERROR ''Page table doesn't exist and didn't get created?'' []"

section \<open>Walking and extending the tables\<close>

definition get_below_pml ::
  "u64 \<Rightarrow> u64 \<Rightarrow> bool \<Rightarrow> 'a pmm_state_scheme \<Rightarrow> u64 \<times> 'a pmm_state_scheme" where
  "get_below_pml pml_pointer index force s =
     (let entry = ld64 (mem s) (pml_pointer + 8 * index) in
      if entry AND PTE_BIT_PRESENT \<noteq> 0 then ((entry AND PTE_ADDR) + hhdm_offset s, s)
      else if \<not> force then (0, s)
      else
        (case pmm_request_pages 1 s of
           (below_pml, s1) \<Rightarrow>
             if below_pml = 0
             then (0, report no_lower_table s1)
             else
               let m1 = snd (memset (below_pml + hhdm_offset s1) 0 PAGE_SIZE (mem s1));
                   e = below_pml OR PTE_BIT_PRESENT OR PTE_BIT_READ_WRITE OR PTE_BIT_ACCESS_ALL
               in (below_pml + hhdm_offset s1,
                   s1\<lparr>mem := st64 (pml_pointer + 8 * index) e m1\<rparr>)))"

definition table_index :: "nat \<Rightarrow> u64 \<Rightarrow> u64" where
  "table_index k virt = drop_bit k (virt AND push_bit k 0x1ff)"

definition pml4_to_pt ::
  "u64 \<Rightarrow> u64 \<Rightarrow> bool \<Rightarrow> 'a pmm_state_scheme \<Rightarrow> u64 \<times> 'a pmm_state_scheme" where
  "pml4_to_pt pml4_ptr virt force s =
     (let pml4_index = table_index 39 virt;
          pdpt_index = table_index 30 virt;
          pd_index = table_index 21 virt
      in case get_below_pml pml4_ptr pml4_index force s of (pdpt, s1) \<Rightarrow>
           if pdpt = 0 then (0, s1)
           else case get_below_pml pdpt pdpt_index force s1 of (pd, s2) \<Rightarrow>
             if pd = 0 then (0, s2)
             else case get_below_pml pd pd_index force s2 of (pt, s3) \<Rightarrow>
               if pt = 0 then (0, s3) else (pt, s3))"

section \<open>Map, unmap, translate\<close>

definition unlock_map :: "'a vmm_state_scheme \<Rightarrow> 'a vmm_state_scheme" where
  "unlock_map s = s\<lparr>map_lock := spinlock_release (map_lock s)\<rparr>"

definition vmm_map ::
  "pagemap_t \<Rightarrow> u64 \<Rightarrow> u64 \<Rightarrow> u64 \<Rightarrow> 'a vmm_state_scheme \<Rightarrow> 'a vmm_state_scheme option" where
  "vmm_map pm virt phys flags s =
     (case spinlock_acquire (map_lock s) of
        None \<Rightarrow> None
      | Some l \<Rightarrow>
          let pt_index = table_index 12 virt in
          (case pml4_to_pt (pml4 pm) virt True (s\<lparr>map_lock := l\<rparr>) of
             (pt, s1) \<Rightarrow>
               if pt = 0
               then Some (unlock_map (report no_page_table s1))
               else
                 let s2 = s1\<lparr>mem := st64 (pt + 8 * pt_index) (phys OR flags) (mem s1)\<rparr>
                 in Some (unlock_map (tlb_flush s2))))"

definition vmm_unmap ::
  "pagemap_t \<Rightarrow> u64 \<Rightarrow> bool \<Rightarrow> 'a vmm_state_scheme \<Rightarrow> (bool, 'a vmm_state_scheme) outcome option" where
  "vmm_unmap pm virt free_phys s =
     (case spinlock_acquire (map_lock s) of
        None \<Rightarrow> None
      | Some l \<Rightarrow>
          let pt_index = table_index 12 virt in
          (case pml4_to_pt (pml4 pm) virt False (s\<lparr>map_lock := l\<rparr>) of
             (pt, s1) \<Rightarrow>
               if pt = 0 then Some (Ret False (unlock_map s1))
               else
                 (case (if free_phys
                        then pmm_free_pages (ld64 (mem s1) (pt + 8 * pt_index) AND PTE_ADDR) 1 s1
                        else Ret () s1) of
                    Halt s2 \<Rightarrow> Some (Halt s2)
                  | Ret _ s2 \<Rightarrow>
                      let s3 = s2\<lparr>mem := st64 (pt + 8 * pt_index) 0 (mem s2)\<rparr>
                      in Some (Ret True (unlock_map (tlb_flush s3))))))"

definition address_mask :: "u64 \<Rightarrow> u64" where
  "address_mask width = (push_bit (unat width) 1 - 1) AND NOT 0xFFF"

definition virt2phys :: "pagemap_t \<Rightarrow> u64 \<Rightarrow> 'a vmm_state_scheme \<Rightarrow> u64" where
  "virt2phys pm virt s =
     (let pt_index = table_index 12 virt in
      case pml4_to_pt (pml4 pm) virt False s of
        (pt, _) \<Rightarrow>
          if pt = 0 then 0
          else
            let mask = address_mask (physical_address_width s)
            in (ld64 (mem s) (pt + 8 * pt_index) AND mask) OR (virt AND 0xFFF))"

definition vmm_set_pm :: "pagemap_t \<Rightarrow> 'a vmm_state_scheme \<Rightarrow> 'a vmm_state_scheme" where
  "vmm_set_pm pm s = s\<lparr>cr3 := pml4 pm - hhdm_offset s\<rparr>"

section \<open>Initialisation\<close>

text \<open>The section symbols the linker script defines.\<close>

record kernel_image =
  text_start_sym :: u64
  text_end_sym :: u64
  rodata_start_sym :: u64
  rodata_end_sym :: u64
  data_start_sym :: u64
  data_end_sym :: u64

text \<open>
  \<open>for (x = start; x < bound; x += PAGE_SIZE) body(x)\<close>. The bound may lie in the last page of
  the address space, and then the counter wraps and the loop never ends.
\<close>

partial_function (option) page_loop ::
  "(u64 \<Rightarrow> 's \<Rightarrow> 's option) \<Rightarrow> u64 \<Rightarrow> u64 \<Rightarrow> 's \<Rightarrow> 's option" where
  "page_loop body x bound s =
     (if x < bound
      then Option.bind (body x s) (page_loop body (x + PAGE_SIZE) bound)
      else Some s)"

declare page_loop.simps [code]

definition map_entry ::
  "limine_memmap_entry \<Rightarrow> 'a vmm_state_scheme \<Rightarrow> 'a vmm_state_scheme option" where
  "map_entry e s =
     (case entry_type e of
        LIMINE_MEMMAP_USABLE \<Rightarrow>
          page_loop (\<lambda>off t. vmm_map (kernel_pm t) (off + hhdm_offset t) off
              (PTE_BIT_PRESENT OR PTE_BIT_READ_WRITE) t)
            (entry_base e) (entry_base e + entry_length e) s
      | LIMINE_MEMMAP_FRAMEBUFFER \<Rightarrow>
          page_loop (\<lambda>off t.
              let base_off_aligned = ALIGN_UP (entry_base e + off) PAGE_SIZE
              in vmm_map (kernel_pm t) (base_off_aligned + hhdm_offset t) base_off_aligned
                   (PTE_BIT_PRESENT OR PTE_BIT_READ_WRITE OR PTE_BIT_EXECUTE_DISABLE OR
                    PTE_BIT_WRITE_THROUGH_CACHING) t)
            0 (ALIGN_UP (entry_base e + entry_length e) PAGE_SIZE) s
      | LIMINE_MEMMAP_BOOTLOADER_RECLAIMABLE \<Rightarrow>
          page_loop (\<lambda>off t. vmm_map (kernel_pm t) (entry_base e + off + hhdm_offset t)
              (entry_base e + off) (PTE_BIT_PRESENT OR PTE_BIT_READ_WRITE) t)
            0 (ALIGN_UP (entry_base e + entry_length e) PAGE_SIZE) s
      | LIMINE_MEMMAP_OTHER _ \<Rightarrow> Some s)"

fun map_entries ::
  "limine_memmap_entry list \<Rightarrow> 'a vmm_state_scheme \<Rightarrow> 'a vmm_state_scheme option" where
  "map_entries [] s = Some s"
| "map_entries (e # es) s = Option.bind (map_entry e s) (map_entries es)"

definition map_section ::
  "u64 \<Rightarrow> u64 \<Rightarrow> u64 \<Rightarrow> u64 \<Rightarrow> u64 \<Rightarrow> 'a vmm_state_scheme \<Rightarrow> 'a vmm_state_scheme option" where
  "map_section kernel_virt kernel_phys flags start end_addr s =
     page_loop (\<lambda>addr t.
         let phys = addr - kernel_virt + kernel_phys
         in vmm_map (kernel_pm t) addr phys flags t)
       start end_addr s"

text \<open>
  The kernel page map's address is the first page of the free list; every failure before
  the mapping loops returns \<open>1\<close>. A failed \<open>vmm_map\<close> inside the loops goes unnoticed.
  \<open>get_cpuid\<close> (\<^verbatim>\<open>olive/src/sys/cpu.c\<close>) is one instruction, whose answers are the parameter \<open>cpuid\<close>.
\<close>

definition get_cpuid ::
  "(u32 \<Rightarrow> u32 \<times> u32 \<times> u32 \<times> u32) \<Rightarrow> u32 \<Rightarrow> int \<times> u32 \<times> u32 \<times> u32 \<times> u32" where
  "get_cpuid cpuid leaf = (0, cpuid leaf)"

definition vmm_init ::
  "(u32 \<Rightarrow> u32 \<times> u32 \<times> u32 \<times> u32) \<Rightarrow> kernel_image \<Rightarrow> u64 \<Rightarrow> u64 \<Rightarrow> 'a vmm_state_scheme \<Rightarrow>
     (int \<times> 'a vmm_state_scheme) option" where
  "vmm_init cpuid img kernel_virt kernel_phys s =
     (if kernel_virt = 0 \<or> kernel_phys = 0
      then Some (1, report (null_kernel_address kernel_virt kernel_phys) s)
      else
        case get_cpuid cpuid 0x80000008 of (_, eax, ebx, ecx, edx) \<Rightarrow>
        let s1 = s\<lparr>physical_address_width := ucast (eax AND 0xFF),
                   linear_address_width := ucast (drop_bit 8 eax AND 0xFF)\<rparr>
        in case pmm_request_pages 1 s1 of (root, s2) \<Rightarrow>
          let s3 = s2\<lparr>kernel_pm := \<lparr>pml4 = root\<rparr>\<rparr> in
          if root = 0 then Some (1, report no_root_table s3)
          else
            let root_ptr = root + hhdm_offset s3;
                s4 = s3\<lparr>kernel_pm := \<lparr>pml4 = root_ptr\<rparr>,
                        mem := snd (memset root_ptr 0 PAGE_SIZE (mem s3))\<rparr>;
                text_start = ALIGN_DOWN (text_start_sym img) PAGE_SIZE;
                rodata_start = ALIGN_DOWN (rodata_start_sym img) PAGE_SIZE;
                data_start = ALIGN_DOWN (data_start_sym img) PAGE_SIZE;
                text_end = ALIGN_UP (text_end_sym img) PAGE_SIZE;
                rodata_end = ALIGN_UP (rodata_end_sym img) PAGE_SIZE;
                data_end = ALIGN_UP (data_end_sym img) PAGE_SIZE
            in Option.bind (map_entries (memmap s4) s4) (\<lambda>s5.
               Option.bind (map_section kernel_virt kernel_phys PTE_BIT_PRESENT
                 text_start text_end s5) (\<lambda>s6.
               Option.bind (map_section kernel_virt kernel_phys
                 (PTE_BIT_PRESENT OR PTE_BIT_EXECUTE_DISABLE) rodata_start rodata_end s6) (\<lambda>s7.
               Option.bind (map_section kernel_virt kernel_phys
                 (PTE_BIT_PRESENT OR PTE_BIT_READ_WRITE OR PTE_BIT_EXECUTE_DISABLE)
                 data_start data_end s7) (\<lambda>s8.
               Some (0, tlb_flush (vmm_set_pm (kernel_pm s8) s8)))))))"

end
