(* ===== verification/VmmWalk.thy ===== *)
theory VmmWalk
  imports Vmm
begin

text \<open>
  The page tables as a tree. \<open>walk\<close> follows a path of indices from a table; the tables
  reachable from a root are kept apart from each other, from the free frames and from the
  page stack by the invariant \<open>tables_ok\<close>. Adding a fresh table and writing a leaf entry are
  the two ways the code changes the tree; for both, the file says which walks and which
  entries change. The abstraction \<open>translation\<close> is the address space the tables encode: the
  leaf entry of a virtual address, if it is present.
\<close>

section \<open>Index extraction\<close>

lemma table_index_alt: "table_index k v = take_bit 9 (drop_bit k v)"
proof -
  have ones: "(0x1ff :: u64) = mask 9" by (simp add: mask_eq_exp_minus_1)
  show ?thesis
    unfolding table_index_def ones
    by (rule bit_word_eqI) (auto simp: bit_simps dest: bit_imp_le_length)
qed

lemma table_index_less [simp]: "table_index k v < 512"
proof -
  have "unat (table_index k v) < 2 ^ 9"
    by (simp only: table_index_alt unsigned_take_bit_eq take_bit_nat_less_exp)
  then show ?thesis by (simp add: word_less_nat_alt)
qed

definition table_path :: "u64 \<Rightarrow> u64 list" where
  "table_path v = [table_index 39 v, table_index 30 v, table_index 21 v]"

definition same_page :: "u64 \<Rightarrow> u64 \<Rightarrow> bool" where
  "same_page v w \<longleftrightarrow> table_path v = table_path w \<and> table_index 12 v = table_index 12 w"

lemma same_page_refl [simp]: "same_page v v"
  by (simp add: same_page_def)

lemma same_page_sym: "same_page v w \<longleftrightarrow> same_page w v"
  by (auto simp: same_page_def)

lemma low_bits_eq:
  fixes v w :: u64
  assumes "b \<le> 64"
  shows "take_bit b (drop_bit k v) = take_bit b (drop_bit k w) \<longleftrightarrow>
    (\<forall>n<b. bit v (k + n) = bit w (k + n))"
proof -
  have "take_bit b (drop_bit k v) = take_bit b (drop_bit k w) \<longleftrightarrow>
      (\<forall>n<64. n < b \<longrightarrow> bit v (k + n) = bit w (k + n))"
    by (auto simp: bit_eq_iff bit_simps)
  also have "\<dots> \<longleftrightarrow> (\<forall>n<b. bit v (k + n) = bit w (k + n))"
    using less_le_trans [OF _ assms] by auto
  finally show ?thesis .
qed

text \<open>Two addresses agree in all four indices exactly when they agree in bits 12 to 47.\<close>

lemma same_page_bits: "same_page v w \<longleftrightarrow> take_bit 36 (drop_bit 12 v) = take_bit 36 (drop_bit 12 w)"
proof -
  have split: "(table_index k v = table_index k w) \<longleftrightarrow> (\<forall>n<9. bit v (k + n) = bit w (k + n))"
    for k
    unfolding table_index_alt by (rule low_bits_eq) simp
  have whole: "take_bit 36 (drop_bit 12 v) = take_bit 36 (drop_bit 12 w) \<longleftrightarrow>
      (\<forall>n<36. bit v (12 + n) = bit w (12 + n))"
    by (rule low_bits_eq) simp
  have parts: "(\<forall>n<36. P (12 + n)) \<longleftrightarrow>
      (\<forall>n<9. P (39 + n)) \<and> (\<forall>n<9. P (30 + n)) \<and> (\<forall>n<9. P (21 + n)) \<and> (\<forall>n<9. P (12 + n))"
    for P :: "nat \<Rightarrow> bool"
  proof (intro iffI conjI allI impI)
    fix n :: nat assume P: "\<forall>n<36. P (12 + n)" and n: "n < 9"
    show "P (39 + n)" using P [rule_format, of "27 + n"] n by simp
    show "P (30 + n)" using P [rule_format, of "18 + n"] n by simp
    show "P (21 + n)" using P [rule_format, of "9 + n"] n by simp
    show "P (12 + n)" using P [rule_format, of n] n by simp
  next
    fix n :: nat
    assume P: "(\<forall>n<9. P (39 + n)) \<and> (\<forall>n<9. P (30 + n)) \<and> (\<forall>n<9. P (21 + n)) \<and>
      (\<forall>n<9. P (12 + n))" and n: "n < 36"
    consider "n < 9" | "9 \<le> n" "n < 18" | "18 \<le> n" "n < 27" | "27 \<le> n" using n by linarith
    then show "P (12 + n)"
    proof cases
      case 2
      then show ?thesis using P spec [of "\<lambda>n. n < 9 \<longrightarrow> P (21 + n)" "n - 9"] by simp
    next
      case 3
      then show ?thesis using P spec [of "\<lambda>n. n < 9 \<longrightarrow> P (30 + n)" "n - 18"] by simp
    next
      case 4
      then show ?thesis using P n spec [of "\<lambda>n. n < 9 \<longrightarrow> P (39 + n)" "n - 27"] by simp
    qed (use P in simp)
  qed
  show ?thesis
    using parts [of "\<lambda>n. bit v n = bit w n"]
    by (simp add: whole same_page_def table_path_def split conj_assoc)
qed

section \<open>Entries and walks\<close>

abbreviation slot :: "mem \<Rightarrow> u64 \<Rightarrow> u64 \<Rightarrow> u64" where
  "slot m t i \<equiv> ld64 m (t + 8 * i)"

definition present :: "u64 \<Rightarrow> bool" where
  "present e \<longleftrightarrow> e AND PTE_BIT_PRESENT \<noteq> 0"

lemma present_bit: "present e \<longleftrightarrow> bit e 0"
  by (simp add: present_def PTE_BIT_PRESENT_def and_one_eq bit_0 odd_iff_mod_2_eq_one mod2_eq_if)

lemma not_present_0 [simp]: "\<not> present 0"
  by (simp add: present_bit)

definition next_table :: "mem \<Rightarrow> u64 \<Rightarrow> u64 \<Rightarrow> u64 \<Rightarrow> u64 option" where
  "next_table m h t i =
     (if present (slot m t i) then Some ((slot m t i AND PTE_ADDR) + h) else None)"

fun walk :: "mem \<Rightarrow> u64 \<Rightarrow> u64 \<Rightarrow> u64 list \<Rightarrow> u64 option" where
  "walk m h t [] = Some t"
| "walk m h t (i # is) =
     (case next_table m h t i of None \<Rightarrow> None | Some u \<Rightarrow> walk m h u is)"

lemma walk_append:
  "walk m h t (is @ js) = (case walk m h t is of None \<Rightarrow> None | Some u \<Rightarrow> walk m h u js)"
  by (induction "is" arbitrary: t) (auto split: option.splits)

lemma walk_snoc:
  "walk m h t (is @ [i]) = (case walk m h t is of None \<Rightarrow> None | Some u \<Rightarrow> next_table m h u i)"
  by (simp add: walk_append split: option.splits)

definition entry_of :: "u64 \<Rightarrow> u64 option" where
  "entry_of e = (if present e then Some e else None)"

definition translation :: "mem \<Rightarrow> u64 \<Rightarrow> u64 \<Rightarrow> u64 \<Rightarrow> u64 option" where
  "translation m h root v =
     (case walk m h root (table_path v) of
        None \<Rightarrow> None
      | Some pt \<Rightarrow> entry_of (slot m pt (table_index 12 v)))"

lemma translation_same_page: "same_page v w \<Longrightarrow> translation m h root v = translation m h root w"
  by (cases "walk m h root (table_path w)") (simp_all add: translation_def same_page_def)

section \<open>The invariant\<close>

definition valid_path :: "u64 list \<Rightarrow> bool" where
  "valid_path is \<longleftrightarrow> length is \<le> 3 \<and> (\<forall>i \<in> set is. i < 512)"

lemma valid_path_simps [simp]:
  "valid_path []" "valid_path (table_path v)"
  by (simp_all add: valid_path_def table_path_def)

lemma valid_path_appendD: "valid_path (is @ js) \<Longrightarrow> valid_path is"
  by (simp add: valid_path_def)

definition table_ok :: "'a pmm_state_scheme \<Rightarrow> u64 \<Rightarrow> bool" where
  "table_ok s t \<longleftrightarrow>
     t \<noteq> 0 \<and> aligned t \<and> pgno t \<notin> stack_region s \<and> t - hhdm_offset s \<notin> set (free_list s)"

definition tables_ok :: "'a pmm_state_scheme \<Rightarrow> u64 \<Rightarrow> bool" where
  "tables_ok s root \<longleftrightarrow>
     pmm_ok s \<and>
     (\<forall>is t. valid_path is \<longrightarrow> walk (mem s) (hhdm_offset s) root is = Some t \<longrightarrow> table_ok s t) \<and>
     (\<forall>is js t. valid_path is \<longrightarrow> valid_path js \<longrightarrow>
        walk (mem s) (hhdm_offset s) root is = Some t \<longrightarrow>
        walk (mem s) (hhdm_offset s) root js = Some t \<longrightarrow> is = js)"

lemma tables_okD:
  assumes "tables_ok s root"
  shows "pmm_ok s"
    and "valid_path is \<Longrightarrow> walk (mem s) (hhdm_offset s) root is = Some t \<Longrightarrow> table_ok s t"
    and "valid_path is \<Longrightarrow> valid_path js \<Longrightarrow>
      walk (mem s) (hhdm_offset s) root is = Some t \<Longrightarrow>
      walk (mem s) (hhdm_offset s) root js = Some t \<Longrightarrow> is = js"
  using assms by (auto simp: tables_ok_def)

section \<open>Memory changes off the stack\<close>

lemma pmm_mem_simps [simp]:
  "stack_region (s\<lparr>mem := m\<rparr>) = stack_region s"
  "stack_wf (s\<lparr>mem := m\<rparr>) = stack_wf s"
  "frame_ok (s\<lparr>mem := m\<rparr>) = frame_ok s"
  by (auto simp: stack_region_def stack_wf_def frame_ok_def fun_eq_iff)

lemma pmm_ok_mem:
  assumes "pmm_ok s" "\<And>x. pgno x \<in> stack_region s \<Longrightarrow> m x = mem s x"
  shows "pmm_ok (s\<lparr>mem := m\<rparr>)" "free_list (s\<lparr>mem := m\<rparr>) = free_list s"
proof -
  show "free_list (s\<lparr>mem := m\<rparr>) = free_list s"
    using assms by (intro free_list_mem_cong) (auto simp: pmm_ok_def stack_wf_def)
  then show "pmm_ok (s\<lparr>mem := m\<rparr>)"
    using assms(1) by (simp add: pmm_ok_def)
qed

end
