(* ===== verification/VmmTree.thy ===== *)
theory VmmTree
  imports VmmWalk
begin

text \<open>
  How the two writes of the virtual memory manager change the tables: linking a fresh, zeroed
  table into an empty slot, and writing a leaf entry. \<open>grown\<close> collects what the walk of
  \<open>vmm_map\<close> may do on its way down: it keeps the invariant, every translation, and every
  byte outside the pages of the tables. The clients get the descent as the two lemmas
  \<open>descend_force\<close> and \<open>descend_read\<close>.
\<close>

section \<open>Linking a fresh table\<close>

lemma valid_path_snocD: "valid_path (ps @ [i]) \<Longrightarrow> valid_path ps \<and> i < 512 \<and> length ps \<le> 2"
  by (auto simp: valid_path_def)

lemma next_table_cong: "slot m' t i = slot m t i \<Longrightarrow> next_table m' h t i = next_table m h t i"
  by (simp add: next_table_def)

lemma walk_linked:
  assumes at: "walk m h root ps = Some t" and empty: "next_table m h t i = None"
    and here: "next_table m' h t i = Some n"
    and fresh: "\<And>j. j < 512 \<Longrightarrow> next_table m' h n j = None"
    and same: "\<And>qs u j. valid_path qs \<Longrightarrow> walk m h root qs = Some u \<Longrightarrow> j < 512 \<Longrightarrow>
      (u, j) \<noteq> (t, i) \<Longrightarrow> next_table m' h u j = next_table m h u j"
    and unique: "\<And>qs. valid_path qs \<Longrightarrow> walk m h root qs = Some t \<Longrightarrow> qs = ps"
    and "valid_path qs"
  shows "walk m' h root qs = (if qs = ps @ [i] then Some n else walk m h root qs)"
  using \<open>valid_path qs\<close>
proof (induction qs rule: rev_induct)
  case (snoc j rs)
  note valid = valid_path_snocD [OF snoc.prems]
  then have IH: "walk m' h root rs = (if rs = ps @ [i] then Some n else walk m h root rs)"
    using snoc.IH by simp
  show ?case
  proof (cases "rs = ps @ [i]")
    case True
    have "walk m h root rs = None" using at empty True by (simp add: walk_snoc)
    with True IH fresh valid show ?thesis
      using walk_snoc [of m h root rs j] walk_snoc [of m' h root rs j] by simp
  next
    case False
    show ?thesis
    proof (cases "walk m h root rs")
      case None
      then have "rs \<noteq> ps" using at by auto
      with None False IH show ?thesis by (simp add: walk_snoc)
    next
      case (Some u)
      show ?thesis
      proof (cases "(u, j) = (t, i)")
        case True
        with Some unique valid have "rs = ps" by auto
        with True here Some IH False show ?thesis by (simp add: walk_snoc)
      next
        case ne: False
        with Some at have "rs @ [j] \<noteq> ps @ [i]" by auto
        with Some False IH same [OF _ Some _ ne] valid show ?thesis
          by (auto simp: walk_snoc)
      qed
    qed
  qed
qed simp

section \<open>What a descent may change\<close>

definition table_page :: "'a pmm_state_scheme \<Rightarrow> u64 \<Rightarrow> u64 \<Rightarrow> bool" where
  "table_page s root x \<longleftrightarrow>
     (\<exists>is t. valid_path is \<and> walk (mem s) (hhdm_offset s) root is = Some t \<and> pgno x = pgno t)"

text \<open>
  The tables below the root, by their paths. Every frame a descent takes becomes one of them.
\<close>

definition paths :: "'a pmm_state_scheme \<Rightarrow> u64 \<Rightarrow> u64 list set" where
  "paths s root = {is. valid_path is \<and> is \<noteq> [] \<and> walk (mem s) (hhdm_offset s) root is \<noteq> None}"

definition table_prefixes :: "u64 \<Rightarrow> u64 list list" where
  "table_prefixes v =
     [[table_index 39 v], [table_index 39 v, table_index 30 v],
      [table_index 39 v, table_index 30 v, table_index 21 v]]"

lemma finite_paths [simp]: "finite (paths s root)"
proof (rule finite_subset)
  show "paths s root \<subseteq> {is. set is \<subseteq> UNIV \<and> length is \<le> 3}" by (auto simp: paths_def valid_path_def)
  show "finite {is :: u64 list. set is \<subseteq> UNIV \<and> length is \<le> 3}" by (rule finite_lists_length_le) simp
qed

lemma walk_paths: "walk (mem s) (hhdm_offset s) root is = Some t \<Longrightarrow> valid_path is \<Longrightarrow> is \<noteq> [] \<Longrightarrow> is \<in> paths s root"
  by (simp add: paths_def)

text \<open>Log lines leave the tables alone.\<close>

lemma tables_klog [simp]:
  "tables_ok (s\<lparr>klog := l\<rparr>) = tables_ok s" "table_page (s\<lparr>klog := l\<rparr>) = table_page s"
  "paths (s\<lparr>klog := l\<rparr>) = paths s"
  by (simp_all add: tables_ok_def table_ok_def table_page_def paths_def fun_eq_iff)

text \<open>The frames taken are the tables added.\<close>

definition frames_become_tables :: "u64 \<Rightarrow> 'a pmm_state_scheme \<Rightarrow> 'a pmm_state_scheme \<Rightarrow> bool" where
  "frames_become_tables root s s' \<longleftrightarrow>
     paths s root \<subseteq> paths s' root \<and> (\<exists>fs. free_list s = free_list s' @ fs) \<and>
     length (free_list s) + card (paths s root) = length (free_list s') + card (paths s' root)"

lemma frames_become_tables_refl: "frames_become_tables root s s"
  by (simp add: frames_become_tables_def)

lemma frames_become_tables_trans:
  "frames_become_tables root s t \<Longrightarrow> frames_become_tables root t u \<Longrightarrow> frames_become_tables root s u"
  unfolding frames_become_tables_def by (auto simp del: length_free_list)

definition grown :: "u64 \<Rightarrow> 'a pmm_state_scheme \<Rightarrow> 'a pmm_state_scheme \<Rightarrow> bool" where
  "grown root s s' \<longleftrightarrow>
     tables_ok s' root \<and> hhdm_offset s' = hhdm_offset s \<and>
     stack_region s' = stack_region s \<and> memmap s' = memmap s \<and>
     pm_total_pages s' = pm_total_pages s \<and> klog s' = klog s \<and>
     pmm_state.more s' = pmm_state.more s \<and>
     frames_become_tables root s s' \<and>
     (\<forall>v. translation (mem s') (hhdm_offset s') root v = translation (mem s) (hhdm_offset s) root v) \<and>
     (\<forall>x. table_page s root x \<longrightarrow> table_page s' root x) \<and>
     (\<forall>x. table_page s' root x \<longrightarrow> table_page s root x \<or>
        (\<exists>q \<in> set (free_list s). pgno x = pgno (q + hhdm_offset s))) \<and>
     (\<forall>x. \<not> table_page s' root x \<longrightarrow> mem s' x = mem s x)"

lemma grown_refl: "tables_ok s root \<Longrightarrow> grown root s s"
  by (simp add: grown_def frames_become_tables_refl)

lemma grown_trans: "grown root s s1 \<Longrightarrow> grown root s1 s2 \<Longrightarrow> grown root s s2"
  unfolding grown_def
proof (elim conjE exE, intro conjI allI impI)
  fix x
  assume a: "\<forall>x. table_page s1 root x \<longrightarrow> table_page s root x \<or>
      (\<exists>q \<in> set (free_list s). pgno x = pgno (q + hhdm_offset s))"
    and b: "\<forall>x. table_page s2 root x \<longrightarrow> table_page s1 root x \<or>
      (\<exists>q \<in> set (free_list s1). pgno x = pgno (q + hhdm_offset s1))"
    and f: "frames_become_tables root s s1" and h: "hhdm_offset s1 = hhdm_offset s"
    and x: "table_page s2 root x"
  have "set (free_list s1) \<subseteq> set (free_list s)" using f by (auto simp: frames_become_tables_def)
  with a b [unfolded h] x show "table_page s root x \<or>
      (\<exists>q \<in> set (free_list s). pgno x = pgno (q + hhdm_offset s))" by blast
next
  show "frames_become_tables root s s2" if "frames_become_tables root s s1" "frames_become_tables root s1 s2"
    using frames_become_tables_trans [OF that] .
next
  fix x
  assume "\<forall>x. table_page s1 root x \<longrightarrow> table_page s2 root x"
    "\<forall>x. \<not> table_page s2 root x \<longrightarrow> mem s2 x = mem s1 x"
    "\<forall>x. \<not> table_page s1 root x \<longrightarrow> mem s1 x = mem s x" "\<not> table_page s2 root x"
  then show "mem s2 x = mem s x" by metis
qed simp_all

lemma grownD:
  assumes "grown root s s'"
  shows "tables_ok s' root" "hhdm_offset s' = hhdm_offset s"
    "stack_region s' = stack_region s" "memmap s' = memmap s"
    "pm_total_pages s' = pm_total_pages s"
    "pmm_state.more s' = pmm_state.more s"
    "set (free_list s') \<subseteq> set (free_list s)"
    "translation (mem s') (hhdm_offset s') root v = translation (mem s) (hhdm_offset s) root v"
    "\<not> table_page s' root x \<Longrightarrow> mem s' x = mem s x"
    "table_page s root x \<Longrightarrow> table_page s' root x"
    "table_page s' root x \<Longrightarrow> table_page s root x \<or>
       (\<exists>q \<in> set (free_list s). pgno x = pgno (q + hhdm_offset s))"
    "frames_become_tables root s s'"
    "klog s' = klog s"
  using assms by (auto simp: grown_def frames_become_tables_def)

section \<open>One level of the descent\<close>

lemma frame_bits:
  assumes "aligned p" "unat p < 2 ^ w"
  shows "bit p n \<Longrightarrow> 12 \<le> n" "bit p n \<Longrightarrow> n < w"
proof -
  show "12 \<le> n" if "bit p n"
    using assms(1) that by (auto simp: aligned_def bit_eq_iff bit_simps simp flip: not_less)
  have "take_bit w p = p"
    using assms(2) by (simp add: word_unat_eq_iff unsigned_take_bit_eq take_bit_nat_eq_self_iff)
  then show "n < w" if "bit p n" using that by (metis bit_take_bit_iff)
qed

lemma entry_addr:
  assumes "aligned p" "unat p < 2 ^ 52"
  shows "(p OR PTE_BIT_PRESENT OR PTE_BIT_READ_WRITE OR PTE_BIT_ACCESS_ALL) AND PTE_ADDR = p"
    and "present (p OR PTE_BIT_PRESENT OR PTE_BIT_READ_WRITE OR PTE_BIT_ACCESS_ALL)"
proof -
  let ?f = "PTE_BIT_PRESENT OR PTE_BIT_READ_WRITE OR PTE_BIT_ACCESS_ALL"
  have addr: "bit PTE_ADDR n \<longleftrightarrow> 12 \<le> n \<and> n < 52" for n
  proof -
    have field: "PTE_ADDR = push_bit 12 (mask 40)"
      by (simp add: PTE_ADDR_def mask_eq_exp_minus_1)
    show ?thesis unfolding field by (auto simp: bit_simps)
  qed
  have low3: "?f = mask 3"
    by (simp add: PTE_BIT_PRESENT_def PTE_BIT_READ_WRITE_def PTE_BIT_ACCESS_ALL_def
        mask_eq_exp_minus_1)
  then have flags: "\<not> bit ?f n" if "12 \<le> n" for n
    using that by (simp only: bit_mask_iff) simp
  show "(p OR ?f) AND PTE_ADDR = p"
    by (rule bit_word_eqI) (use frame_bits [OF assms] addr flags in \<open>auto simp: bit_simps\<close>)
  show "present (p OR ?f)"
    by (simp add: present_bit PTE_BIT_PRESENT_def bit_simps)
qed


lemma get_below_pml_present:
  assumes "tables_ok s root" "walk (mem s) (hhdm_offset s) root ps = Some t" "valid_path (ps @ [i])"
    and "present (slot (mem s) t i)"
  shows "\<exists>u. get_below_pml t i force s = (u, s) \<and> u \<noteq> 0 \<and>
    walk (mem s) (hhdm_offset s) root (ps @ [i]) = Some u"
proof -
  let ?u = "(slot (mem s) t i AND PTE_ADDR) + hhdm_offset s"
  have w: "walk (mem s) (hhdm_offset s) root (ps @ [i]) = Some ?u"
    using assms by (simp add: walk_snoc next_table_def)
  have "table_ok s ?u" using tables_okD(2) [OF assms(1,3) w] .
  then show ?thesis
    using assms(4) w by (simp add: get_below_pml_def present_def table_ok_def)
qed

text \<open>The state after a fresh table is linked, as the code computes it.\<close>

definition linked :: "u64 \<Rightarrow> u64 \<Rightarrow> u64 \<Rightarrow> 'a pmm_state_scheme \<Rightarrow> 'a pmm_state_scheme" where
  "linked t i p s =
     (let s1 = popped 1 s
      in s1\<lparr>mem := st64 (t + 8 * i)
                     (p OR PTE_BIT_PRESENT OR PTE_BIT_READ_WRITE OR PTE_BIT_ACCESS_ALL)
                     (filled (p + hhdm_offset s) 0 PAGE_SIZE (mem s))\<rparr>)"

text \<open>What a descent logs when the frames run out.\<close>

definition descent_failure :: "log_line list" where
  "descent_failure = [out_of_pages 1, no_lower_table]"

lemma get_below_pml_empty:
  assumes "pmm_ok s" "\<not> present (slot (mem s) t i)"
  shows "get_below_pml t i False s = (0, s)"
    and "free_list s = [] \<Longrightarrow> get_below_pml t i True s = (0, s\<lparr>klog := klog s @ descent_failure\<rparr>)"
    and "free_list s = fs @ [p] \<Longrightarrow>
      get_below_pml t i True s = (p + hhdm_offset s, linked t i p s)"
proof -
  show "get_below_pml t i False s = (0, s)"
    using assms(2) by (simp add: get_below_pml_def present_def)
  show "get_below_pml t i True s = (0, s\<lparr>klog := klog s @ descent_failure\<rparr>)" if "free_list s = []"
    using assms(2) request_none [of 1 s] that
    by (simp add: get_below_pml_def present_def descent_failure_def)
  assume fl: "free_list s = fs @ [p]"
  have n: "0 < unat (1 :: u64)" "unat (1 :: u64) \<le> length (free_list s)"
    using fl by simp_all
  have "free_list s ! (length (free_list s) - unat (1 :: u64)) = p" using fl by simp
  with request_some [OF n] have req: "pmm_request_pages 1 s = (p, popped 1 s)" by simp
  have "p \<noteq> 0" using assms(1) fl by (auto simp: pmm_ok_def frame_ok_def)
  with req assms(2) show "get_below_pml t i True s = (p + hhdm_offset s, linked t i p s)"
    by (simp add: get_below_pml_def present_def linked_def Let_def memset_filled)
qed

lemma linked_simps [simp]:
  "hhdm_offset (linked t i p s) = hhdm_offset s" "memmap (linked t i p s) = memmap s"
  "pm_total_pages (linked t i p s) = pm_total_pages s" "klog (linked t i p s) = klog s"
  "pmm_state.more (linked t i p s) = pmm_state.more s"
  "stack_region (linked t i p s) = stack_region s"
  "frame_ok (linked t i p s) = frame_ok s"
  by (auto simp: linked_def Let_def popped_def stack_region_def frame_ok_def fun_eq_iff)

lemma linked_mem:
  "mem (linked t i p s) = st64 (t + 8 * i)
     (p OR PTE_BIT_PRESENT OR PTE_BIT_READ_WRITE OR PTE_BIT_ACCESS_ALL)
     (filled (p + hhdm_offset s) 0 PAGE_SIZE (mem s))"
  by (simp add: linked_def Let_def)

lemma filled_page:
  assumes "aligned t"
  shows "pgno x \<noteq> pgno t \<Longrightarrow> filled t 0 PAGE_SIZE m x = m x"
    and "pgno x = pgno t \<Longrightarrow> filled t 0 PAGE_SIZE m x = 0"
proof -
  have off: "x - t < PAGE_SIZE \<longleftrightarrow> pgno x = pgno t"
  proof
    assume "x - t < PAGE_SIZE"
    then have "unat (x - t) < 4096" by (simp add: word_less_nat_alt PAGE_SIZE_def)
    then show "pgno x = pgno t" using pgno_offset [OF assms, of "x - t"] by simp
  next
    assume pg: "pgno x = pgno t"
    have "unat x div 4096 = unat t div 4096" using pg by (metis unat_pgno)
    moreover have "4096 dvd unat t" using assms by (simp add: aligned_dvd)
    ultimately have "unat t \<le> unat x" "unat x < unat t + 4096"
      by (auto elim!: dvdE)
    then show "x - t < PAGE_SIZE"
      by (simp add: word_less_nat_alt PAGE_SIZE_def unat_sub word_le_nat_alt)
  qed
  show "pgno x \<noteq> pgno t \<Longrightarrow> filled t 0 PAGE_SIZE m x = m x"
    "pgno x = pgno t \<Longrightarrow> filled t 0 PAGE_SIZE m x = 0"
    by (simp_all add: filled_def off)
qed

text \<open>The memory of a page source's client: a table and the next free frame lie apart.\<close>

lemma free_frame_apart:
  assumes "tables_ok s root" "valid_path qs" "walk (mem s) (hhdm_offset s) root qs = Some u"
    and "p \<in> set (free_list s)"
  shows "pgno u \<noteq> pgno (p + hhdm_offset s)" "aligned u" "pgno u \<notin> stack_region s"
proof -
  have ok: "table_ok s u" by (rule tables_okD(2) [OF assms(1-3)])
  then show u: "aligned u" "pgno u \<notin> stack_region s" by (auto simp: table_ok_def)
  have "aligned (p + hhdm_offset s)" "u \<noteq> p + hhdm_offset s"
    using assms(1,4) ok by (auto simp: tables_ok_def pmm_ok_def frame_ok_def table_ok_def aligned_add)
  then show "pgno u \<noteq> pgno (p + hhdm_offset s)" using u(1) by (simp add: pgno_eq_iff)
qed

lemma linked_grown:
  assumes ok: "tables_ok s root" and at: "walk (mem s) (hhdm_offset s) root ps = Some t"
    and valid: "valid_path (ps @ [i])" and empty: "\<not> present (slot (mem s) t i)"
    and fl: "free_list s = fs @ [p]"
  shows "grown root s (linked t i p s)" (is ?grown)
    and "walk (mem (linked t i p s)) (hhdm_offset s) root (ps @ [i]) = Some (p + hhdm_offset s)" (is ?walk)
    and "free_list (linked t i p s) = fs" (is ?free)
    and "paths (linked t i p s) root = insert (ps @ [i]) (paths s root)" (is ?paths)
proof -
  let ?h = "hhdm_offset s" and ?m = "mem s" and ?s' = "linked t i p s"
  let ?m' = "mem ?s'" and ?n = "p + hhdm_offset s"
  note pv = valid_path_snocD [OF valid]
  have i: "i < 512" and ps: "valid_path ps" using pv by simp_all
  have pok: "pmm_ok s" by (rule tables_okD(1) [OF ok])
  have p: "p \<in> set (free_list s)" using fl by simp
  have frame: "aligned p" "unat p < 2 ^ 52" "?n \<noteq> 0" "pgno ?n \<notin> stack_region s"
    using pok p by (auto simp: pmm_ok_def frame_ok_def)
  have n: "aligned ?n" using pok frame by (simp add: pmm_ok_def aligned_add)
  note apart = free_frame_apart [OF ok _ _ p]
  note t = apart [OF ps at]
  have far: "?m' x = ?m x" if "pgno x \<noteq> pgno t" "pgno x \<noteq> pgno ?n" for x
    using that st64_slot_other [OF t(2) i] filled_page(1) [OF n] by (simp add: linked_mem)
  have kept: "slot ?m' u j = slot ?m u j"
    if "aligned u" "pgno u \<noteq> pgno ?n" "j < 512" "(u, j) \<noteq> (t, i)" for u j
  proof (cases "u = t")
    case True
    then show ?thesis
      using that slot_disj [OF that(3) i] filled_page(1) [OF n]
      by (auto simp: linked_mem ld64_st64_disj intro!: ld64_slot_frame)
  next
    case False
    then have "pgno u \<noteq> pgno t" using that t by (simp add: pgno_eq_iff)
    with that far show ?thesis by (intro ld64_slot_frame) auto
  qed
  have here: "next_table ?m' ?h t i = Some ?n"
    using entry_addr [OF frame(1,2)] by (simp add: linked_mem next_table_def)
  have blank: "slot ?m' ?n j = 0" if "j < 512" for j
  proof (rule ld64_zero)
    fix k :: nat assume "k < 8"
    then have pg: "pgno (?n + 8 * j + of_nat k) = pgno ?n" using n that by (intro slot_byte_pgno)
    then show "?m' (?n + 8 * j + of_nat k) = 0"
      using t(1) st64_slot_other [OF t(2) i] filled_page(2) [OF n] by (simp add: linked_mem)
  qed
  have walk: "walk ?m' ?h root qs = (if qs = ps @ [i] then Some ?n else walk ?m ?h root qs)"
    if "valid_path qs" for qs
  proof (rule walk_linked [OF at _ here _ _ _ that])
    show "next_table ?m ?h t i = None" using empty by (simp add: next_table_def)
    show "next_table ?m' ?h ?n j = None" if "j < 512" for j
      using blank [OF that] by (simp add: next_table_def)
    show "next_table ?m' ?h u j = next_table ?m ?h u j"
      if "valid_path rs" "walk ?m ?h root rs = Some u" "j < 512" "(u, j) \<noteq> (t, i)" for rs u j
      using kept apart [OF that(1,2)] that by (intro next_table_cong) auto
    show "rs = ps" if "valid_path rs" "walk ?m ?h root rs = Some t" for rs
      using tables_okD(3) [OF ok that(1) ps that(2) at] .
  qed
  show ?walk using walk [OF valid] by simp
  have off_stack: "?m' x = ?m x" if "pgno x \<in> stack_region s" for x
    using that frame(4) t(3) by (intro far) auto
  have pop: "pmm_ok (popped 1 s)" "free_list (popped 1 s) = fs"
    using pok pmm_ok_popped [of s 1] fl free_list_popped [of 1 s] by simp_all
  have s': "?s' = (popped 1 s)\<lparr>mem := ?m'\<rparr>" by (simp add: linked_def Let_def)
  have free: "free_list ?s' = fs" and pok': "pmm_ok ?s'"
    using pmm_ok_mem [OF pop(1), of ?m'] off_stack pop(2) by (subst s', simp)+
  show ?free by (rule free)
  have new_ok: "table_ok ?s' ?n"
    using frame n pok fl by (simp add: table_ok_def free pmm_ok_def)
  have tok: "table_ok ?s' u" if "valid_path qs" "walk ?m' ?h root qs = Some u" for qs u
  proof (cases "qs = ps @ [i]")
    case True
    then show ?thesis using that new_ok walk [OF that(1)] by simp
  next
    case False
    then have "table_ok s u" using tables_okD(2) [OF ok that(1)] that walk [OF that(1)] by simp
    then show ?thesis by (simp add: table_ok_def free fl)
  qed
  have old_ne: "u \<noteq> ?n" if "valid_path qs" "walk ?m ?h root qs = Some u" for qs u
    using apart(1) [OF that] by auto
  have tabs: "tables_ok ?s' root"
    unfolding tables_ok_def
  proof (intro conjI allI impI)
    show "pmm_ok ?s'" by (rule pok')
    show "table_ok ?s' u" if "valid_path qs" "walk ?m' (hhdm_offset ?s') root qs = Some u" for qs u
      using tok that by simp
    show "qs = rs" if "valid_path qs" "valid_path rs" "walk ?m' (hhdm_offset ?s') root qs = Some u"
      "walk ?m' (hhdm_offset ?s') root rs = Some u" for qs rs u
      using that walk [OF that(1)] walk [OF that(2)] old_ne [OF that(1)] old_ne [OF that(2)]
        tables_okD(3) [OF ok that(1,2)]
      by (auto split: if_splits)
  qed
  have tr: "translation ?m' ?h root v = translation ?m ?h root v" for v
  proof (cases "table_path v = ps @ [i]")
    case True
    have "walk ?m ?h root (table_path v) = None"
      using True at empty by (simp add: walk_snoc next_table_def)
    then show ?thesis
      using True walk [OF valid] blank [OF table_index_less]
      by (simp add: translation_def entry_of_def)
  next
    case False
    then have w: "walk ?m' ?h root (table_path v) = walk ?m ?h root (table_path v)"
      using walk [of "table_path v"] by simp
    show ?thesis
    proof (cases "walk ?m ?h root (table_path v)")
      case (Some u)
      have "u \<noteq> t"
        using tables_okD(3) [OF ok valid_path_simps(2) ps Some] at pv by (auto simp: table_path_def)
      then have "slot ?m' u (table_index 12 v) = slot ?m u (table_index 12 v)"
        using apart [OF _ Some] by (intro kept) auto
      with Some w show ?thesis by (simp add: translation_def)
    qed (use w in \<open>simp add: translation_def\<close>)
  qed
  have grow: "table_page ?s' root x" if "table_page s root x" for x
  proof -
    obtain qs u where q: "valid_path qs" "walk ?m ?h root qs = Some u" "pgno x = pgno u"
      using \<open>table_page s root x\<close> by (auto simp: table_page_def)
    have "qs \<noteq> ps @ [i]" using q(2) at empty by (auto simp: walk_snoc next_table_def)
    with q walk [OF q(1)] show ?thesis by (auto simp: table_page_def)
  qed
  have tp: "table_page ?s' root x" if "pgno x = pgno t \<or> pgno x = pgno ?n" for x
    using that
  proof
    assume "pgno x = pgno t"
    then show ?thesis using at ps by (intro grow) (auto simp: table_page_def)
  next
    assume "pgno x = pgno ?n"
    then show ?thesis using \<open>?walk\<close> valid by (auto simp: table_page_def)
  qed
  have new: "ps @ [i] \<notin> paths s root"
    using at empty by (simp add: paths_def walk_snoc next_table_def)
  show paths: ?paths
    using walk valid by (auto simp: paths_def)
  have source: "pgno x = pgno ?n" if "table_page ?s' root x" "\<not> table_page s root x" for x
    using that walk by (auto simp: table_page_def split: if_splits)
  show ?grown
    unfolding grown_def
  proof (intro conjI allI impI)
    show "tables_ok ?s' root" by (rule tabs)
    show "frames_become_tables root s ?s'"
      using new by (simp add: frames_become_tables_def paths free fl subset_insertI del: length_free_list)
    show "translation ?m' (hhdm_offset ?s') root v = translation ?m ?h root v" for v
      using tr by simp
    show "table_page ?s' root x" if "table_page s root x" for x using that by (rule grow)
    show "table_page s root x \<or> (\<exists>q \<in> set (free_list s). pgno x = pgno (q + ?h))"
      if "table_page ?s' root x" for x
      using source [OF that] p by blast
    show "?m' x = ?m x" if "\<not> table_page ?s' root x" for x
      using tp that by (intro far) blast+
  qed simp_all
qed

section \<open>The descent\<close>

lemma level_force:
  assumes "tables_ok s root" "walk (mem s) (hhdm_offset s) root ps = Some t" "valid_path (ps @ [i])"
  obtains (full) "get_below_pml t i True s = (0, s\<lparr>klog := klog s @ descent_failure\<rparr>)" "free_list s = []" "ps @ [i] \<notin> paths s root"
  | (down) u s' where "get_below_pml t i True s = (u, s')" "u \<noteq> 0" "grown root s s'"
      "walk (mem s') (hhdm_offset s') root (ps @ [i]) = Some u"
      "paths s' root = insert (ps @ [i]) (paths s root)"
proof (cases "present (slot (mem s) t i)")
  case True
  from get_below_pml_present [OF assms this, of True] obtain u where u:
    "get_below_pml t i True s = (u, s)" "u \<noteq> 0" "walk (mem s) (hhdm_offset s) root (ps @ [i]) = Some u" by blast
  have "ps @ [i] \<in> paths s root" using u(3) assms(3) by (intro walk_paths) auto
  then show ?thesis
    using down [of u s] u grown_refl [OF assms(1)] by (simp add: insert_absorb)
next
  case False
  note empty = get_below_pml_empty [OF tables_okD(1) [OF assms(1)] False]
  show ?thesis
  proof (cases "free_list s" rule: rev_cases)
    case Nil
    have "ps @ [i] \<notin> paths s root"
      using assms(2) False by (simp add: paths_def walk_snoc next_table_def)
    then show ?thesis using full empty(2) Nil by blast
  next
    case (snoc fs p)
    note grown = linked_grown [OF assms False snoc]
    have "frame_ok s p" using tables_okD(1) [OF assms(1)] snoc by (simp add: pmm_ok_def)
    then show ?thesis
      using empty(3) [OF snoc] grown snoc
      by (intro down [of "p + hhdm_offset s" "linked t i p s"]) (auto simp: frame_ok_def)
  qed
qed

lemma level_read:
  assumes "tables_ok s root" "walk (mem s) (hhdm_offset s) root ps = Some t" "valid_path (ps @ [i])"
  shows "get_below_pml t i False s =
    (case walk (mem s) (hhdm_offset s) root (ps @ [i]) of None \<Rightarrow> 0 | Some u \<Rightarrow> u, s)"
    and "walk (mem s) (hhdm_offset s) root (ps @ [i]) \<noteq> Some 0"
proof -
  show "get_below_pml t i False s =
    (case walk (mem s) (hhdm_offset s) root (ps @ [i]) of None \<Rightarrow> 0 | Some u \<Rightarrow> u, s)"
    using assms(2) by (simp add: get_below_pml_def walk_snoc next_table_def present_def)
  show "walk (mem s) (hhdm_offset s) root (ps @ [i]) \<noteq> Some 0"
    using tables_okD(2) [OF assms(1,3)] by (auto simp: table_ok_def)
qed

lemma descend_force:
  assumes "tables_ok s root"
  obtains (full) s' where "pml4_to_pt root v True s = (0, s'\<lparr>klog := klog s' @ descent_failure\<rparr>)" "grown root s s'"
      "free_list s' = []" "paths s' root \<subset> paths s root \<union> set (table_prefixes v)"
  | (down) pt s' where "pml4_to_pt root v True s = (pt, s')" "pt \<noteq> 0" "grown root s s'"
      "walk (mem s') (hhdm_offset s') root (table_path v) = Some pt"
      "paths s' root = paths s root \<union> set (table_prefixes v)"
proof -
  let ?a = "table_index 39 v" and ?b = "table_index 30 v" and ?c = "table_index 21 v"
  have valid: "valid_path [?a]" "valid_path [?a, ?b]" "valid_path [?a, ?b, ?c]"
    by (simp_all add: valid_path_def)
  note flat = append_Cons append_Nil
  have at: "walk (mem s) (hhdm_offset s) root [] = Some root" by simp
  note first = level_force [OF assms at, of ?a, simplified flat, OF valid(1)]
  have prefixes: "set (table_prefixes v) = {[?a], [?a, ?b], [?a, ?b, ?c]}"
    by (simp add: table_prefixes_def)
  show thesis
  proof (cases rule: first)
    case 1
    moreover have "paths s root \<subset> paths s root \<union> set (table_prefixes v)"
      using 1(3) unfolding prefixes by blast
    ultimately show ?thesis
      using full [of s] grown_refl [OF assms] by (simp add: pml4_to_pt_def)
  next
    case (2 pdpt s1)
    note one = this
    note second = level_force [OF grownD(1) [OF one(3)] one(4), of ?b, simplified flat, OF valid(2)]
    show ?thesis
    proof (cases rule: second)
      case 1
      moreover have "paths s1 root \<subset> paths s root \<union> set (table_prefixes v)"
        using 1(3) one(5) unfolding prefixes by auto
      ultimately show ?thesis
        using full [of s1] one by (simp add: pml4_to_pt_def)
    next
      case (2 pd s2)
      note two = this
      note both = grown_trans [OF one(3) two(3)]
      note third = level_force [OF grownD(1) [OF both] two(4), of ?c, simplified flat, OF valid(3)]
      show ?thesis
      proof (cases rule: third)
        case 1
        moreover have "paths s2 root \<subset> paths s root \<union> set (table_prefixes v)"
          using 1(3) one(5) two(5) unfolding prefixes by auto
        ultimately show ?thesis
          using full [of s2] one two both by (simp add: pml4_to_pt_def)
      next
        case (2 pt s3)
        have "paths s3 root = paths s root \<union> set (table_prefixes v)"
          unfolding 2(5) two(5) one(5) prefixes by auto
        with 2 show ?thesis
          using down [of pt s3] one two grown_trans [OF both 2(3)]
          by (simp add: pml4_to_pt_def table_path_def del: walk.simps)
      qed
    qed
  qed
qed

lemma descend_read:
  assumes "tables_ok s root"
  shows "pml4_to_pt root v False s =
    (case walk (mem s) (hhdm_offset s) root (table_path v) of None \<Rightarrow> 0 | Some pt \<Rightarrow> pt, s)"
    and "walk (mem s) (hhdm_offset s) root (table_path v) \<noteq> Some 0"
proof -
  let ?m = "mem s" and ?h = "hhdm_offset s"
  let ?a = "table_index 39 v" and ?b = "table_index 30 v" and ?c = "table_index 21 v"
  have valid: "valid_path [?a]" "valid_path [?a, ?b]" "valid_path [?a, ?b, ?c]"
    by (simp_all add: valid_path_def)
  note flat = append_Cons append_Nil
  have at: "walk ?m ?h root [] = Some root" by simp
  note one = level_read [OF assms at, of ?a, simplified flat, OF valid(1)]
  show "walk ?m ?h root (table_path v) \<noteq> Some 0"
    using tables_okD(2) [OF assms, of "table_path v" 0] by (auto simp: table_ok_def)
  show "pml4_to_pt root v False s =
      (case walk ?m ?h root (table_path v) of None \<Rightarrow> 0 | Some pt \<Rightarrow> pt, s)"
  proof (cases "walk ?m ?h root [?a]")
    case None
    then have "walk ?m ?h root ([?a] @ [?b, ?c]) = None" by (subst walk_append) simp
    with None one show ?thesis by (simp add: pml4_to_pt_def table_path_def del: walk.simps)
  next
    case (Some pdpt)
    note two = level_read [OF assms Some, of ?b, simplified flat, OF valid(2)]
    show ?thesis
    proof (cases "walk ?m ?h root [?a, ?b]")
      case None
      then have "walk ?m ?h root ([?a, ?b] @ [?c]) = None" by (subst walk_append) simp
      with None Some one two show ?thesis by (simp add: pml4_to_pt_def table_path_def del: walk.simps)
    next
      case (Some pd)
      note three = level_read [OF assms Some, of ?c, simplified flat, OF valid(3)]
      show ?thesis
        using one two three \<open>walk ?m ?h root [?a] = Some pdpt\<close> Some
        by (auto simp: pml4_to_pt_def table_path_def simp del: walk.simps split: option.splits)
    qed
  qed
qed

section \<open>Writing a leaf entry\<close>

definition leaf_written :: "u64 \<Rightarrow> u64 \<Rightarrow> u64 \<Rightarrow> 'a pmm_state_scheme \<Rightarrow> 'a pmm_state_scheme" where
  "leaf_written pt v e s = s\<lparr>mem := st64 (pt + 8 * table_index 12 v) e (mem s)\<rparr>"

lemma leaf_written_simps [simp]:
  "hhdm_offset (leaf_written pt v e s) = hhdm_offset s"
  "stack_region (leaf_written pt v e s) = stack_region s"
  "memmap (leaf_written pt v e s) = memmap s"
  "pm_total_pages (leaf_written pt v e s) = pm_total_pages s" "klog (leaf_written pt v e s) = klog s"
  "pmm_state.more (leaf_written pt v e s) = pmm_state.more s"
  by (simp_all add: leaf_written_def)

lemma leaf_written:
  assumes ok: "tables_ok s root"
    and at: "walk (mem s) (hhdm_offset s) root (table_path v) = Some pt"
  shows "tables_ok (leaf_written pt v e s) root" (is ?ok)
    and "translation (mem (leaf_written pt v e s)) (hhdm_offset s) root w =
      (if same_page v w then entry_of e else translation (mem s) (hhdm_offset s) root w)" (is ?tr)
    and "free_list (leaf_written pt v e s) = free_list s" (is ?free)
    and "table_page (leaf_written pt v e s) root = table_page s root" (is ?pages)
    and "\<not> table_page s root x \<Longrightarrow> mem (leaf_written pt v e s) x = mem s x" (is "_ \<Longrightarrow> ?frame")
    and "walk (mem (leaf_written pt v e s)) (hhdm_offset s) root (table_path v) = Some pt" (is ?walk)
    and "paths (leaf_written pt v e s) root = paths s root" (is ?paths)
proof -
  let ?h = "hhdm_offset s" and ?m = "mem s" and ?i = "table_index 12 v"
  let ?s' = "leaf_written pt v e s"
  let ?m' = "mem ?s'"
  have m': "?m' = st64 (pt + 8 * ?i) e ?m" by (simp add: leaf_written_def)
  have pt: "table_ok s pt" "aligned pt" "pgno pt \<notin> stack_region s"
    using tables_okD(2) [OF ok valid_path_simps(2) at] by (auto simp: table_ok_def)
  have far: "?m' x = ?m x" if "pgno x \<noteq> pgno pt" for x
    using that pt st64_slot_other by (simp add: m')
  have leaf_only: "u \<noteq> pt" if "valid_path qs" "length qs \<le> 2" "walk ?m ?h root qs = Some u" for qs u
    using tables_okD(3) [OF ok that(1) valid_path_simps(2) that(3)] at that(2)
    by (auto simp: table_path_def)
  have kept: "slot ?m' u j = slot ?m u j"
    if "valid_path qs" "walk ?m ?h root qs = Some u" "u \<noteq> pt" "j < 512" for qs u j
  proof -
    have "aligned u" using tables_okD(2) [OF ok that(1,2)] by (simp add: table_ok_def)
    with that pt have "pgno u \<noteq> pgno pt" by (simp add: pgno_eq_iff)
    with far \<open>aligned u\<close> that(4) show ?thesis by (intro ld64_slot_frame) auto
  qed
  have walk: "walk ?m' ?h root qs = walk ?m ?h root qs" if "valid_path qs" for qs
    using that
  proof (induction qs rule: rev_induct)
    case (snoc j rs)
    note valid = valid_path_snocD [OF snoc.prems]
    show ?case
    proof (cases "walk ?m ?h root rs")
      case (Some u)
      then have "slot ?m' u j = slot ?m u j"
        using valid leaf_only [OF _ _ Some] by (intro kept [OF _ Some]) auto
      then show ?thesis using snoc.IH valid Some by (simp add: walk_snoc next_table_def)
    qed (use snoc.IH valid in \<open>simp add: walk_snoc\<close>)
  qed simp
  show ?walk using walk at by simp
  show ?paths using walk by (auto simp: paths_def)
  have off_stack: "?m' x = ?m x" if "pgno x \<in> stack_region s" for x
    using that pt by (intro far) auto
  have mem_upd: "?s' = s\<lparr>mem := ?m'\<rparr>" by (simp add: leaf_written_def)
  have free: ?free and pok: "pmm_ok ?s'"
    using pmm_ok_mem [OF tables_okD(1) [OF ok], of ?m'] off_stack by (subst mem_upd, simp)+
  show ?free by (rule free)
  have tok: "table_ok ?s' = table_ok s" by (auto simp: table_ok_def free fun_eq_iff)
  show ?ok
    using ok walk by (simp add: tables_ok_def pok tok)
  show ?pages
    using walk by (auto simp: table_page_def fun_eq_iff)
  show "?frame" if "\<not> table_page s root x"
    using that at far [of x] valid_path_simps(2) [of v] unfolding table_page_def by blast
  show ?tr
  proof (cases "walk ?m ?h root (table_path w)")
    case None
    with at walk [of "table_path w"] show ?thesis
      by (auto simp: translation_def same_page_def)
  next
    case (Some u)
    show ?thesis
    proof (cases "u = pt")
      case True
      then have "table_path v = table_path w"
        using tables_okD(3) [OF ok _ _ at] Some by simp
      moreover have "slot ?m' pt (table_index 12 w) =
          (if ?i = table_index 12 w then e else slot ?m pt (table_index 12 w))"
        using slot_disj [of "table_index 12 w" ?i pt] by (simp add: m' ld64_st64_disj)
      ultimately show ?thesis
        using Some True walk [of "table_path w"] by (simp add: translation_def same_page_def)
    next
      case False
      then have "table_path v \<noteq> table_path w" using at Some by auto
      with kept [OF valid_path_simps(2) Some False table_index_less] Some walk [of "table_path w"]
      show ?thesis by (simp add: translation_def same_page_def)
    qed
  qed
qed

text \<open>A root whose page is blank encodes the empty address space.\<close>

lemma blank_root:
  assumes "pmm_ok s" "table_ok s root" "\<And>j. j < 512 \<Longrightarrow> slot (mem s) root j = 0"
  shows "tables_ok s root" "translation (mem s) (hhdm_offset s) root v = None"
    and "table_page s root x \<longleftrightarrow> pgno x = pgno root" "paths s root = {}"
proof -
  have empty: "walk (mem s) h root (i # is) = None" if "i < 512" for h i "is"
    using assms(3) [OF that] by (simp add: next_table_def)
  then have only: "is = []" if "valid_path is" "walk (mem s) (hhdm_offset s) root is = Some t" for "is" t
    using that by (cases "is") (auto simp: valid_path_def simp del: walk.simps(2))
  show "tables_ok s root"
    unfolding tables_ok_def
  proof (intro conjI allI impI)
    show "pmm_ok s" by (rule assms(1))
    fix "is" js t
    assume w: "valid_path is" "walk (mem s) (hhdm_offset s) root is = Some t"
    with only have "is = []" by blast
    with w assms(2) show "table_ok s t" by simp
    assume "valid_path js" "walk (mem s) (hhdm_offset s) root js = Some t"
    with only \<open>is = []\<close> show "is = js" by blast
  qed
  show "paths s root = {}" using only by (auto simp: paths_def)
  show "table_page s root x \<longleftrightarrow> pgno x = pgno root"
    using only unfolding table_page_def by (metis option.inject valid_path_simps(1) walk.simps(1))
  show "translation (mem s) (hhdm_offset s) root v = None"
    using empty by (simp add: translation_def table_path_def del: walk.simps)
qed

end
