(* ===== verification/VmmSpec.thy ===== *)
theory VmmSpec
  imports VmmTree
begin

text \<open>
  What the virtual memory manager promises. \<open>vmm_ok\<close> is the invariant between calls and
  \<open>space\<close> the address space a page map stands for. \<open>vmm_map\<close> and \<open>vmm_unmap\<close> update that
  function at the addresses of one page and nowhere else; mapping takes at most three frames
  and, when they run out, leaves the address space as it was. The locale \<open>address_space\<close> is
  this contract as its clients use it; it is interpreted here on the two functions, and the
  boot-time mapping loops are reasoned about inside it.
\<close>

section \<open>The lock around the tables\<close>

interpretation map_guard: guarded map_lock "\<lambda>l s. s\<lparr>map_lock := l\<rparr>"
  by unfold_locales simp_all

lemma unlock_map_left: "unlock_map s = map_guard.left s"
  by (simp add: unlock_map_def map_guard.left_def)

section \<open>Fields the tables do not depend on\<close>

lemma free_list_vmm [simp]:
  "free_list (s\<lparr>map_lock := l\<rparr>) = free_list s" "free_list (s\<lparr>tlb_flushes := n\<rparr>) = free_list s"
  "free_list (s\<lparr>kernel_pm := k\<rparr>) = free_list s" "free_list (s\<lparr>cr3 := c\<rparr>) = free_list s"
  "free_list (s\<lparr>physical_address_width := w\<rparr>) = free_list s"
  "free_list (s\<lparr>linear_address_width := w\<rparr>) = free_list s"
  by (simp_all add: free_list_def)

lemma stack_region_vmm [simp]:
  "stack_region (s\<lparr>map_lock := l\<rparr>) = stack_region s"
  "stack_region (s\<lparr>tlb_flushes := n\<rparr>) = stack_region s"
  "stack_region (s\<lparr>kernel_pm := k\<rparr>) = stack_region s"
  "stack_region (s\<lparr>cr3 := c\<rparr>) = stack_region s"
  "stack_region (s\<lparr>physical_address_width := w\<rparr>) = stack_region s"
  "stack_region (s\<lparr>linear_address_width := w\<rparr>) = stack_region s"
  by (simp_all add: stack_region_def)

lemma pmm_ok_vmm [simp]:
  "pmm_ok (s\<lparr>map_lock := l\<rparr>) = pmm_ok s" "pmm_ok (s\<lparr>tlb_flushes := n\<rparr>) = pmm_ok s"
  "pmm_ok (s\<lparr>kernel_pm := k\<rparr>) = pmm_ok s" "pmm_ok (s\<lparr>cr3 := c\<rparr>) = pmm_ok s"
  "pmm_ok (s\<lparr>physical_address_width := w\<rparr>) = pmm_ok s"
  "pmm_ok (s\<lparr>linear_address_width := w\<rparr>) = pmm_ok s"
  by (simp_all add: pmm_ok_def stack_wf_def frame_ok_def)

lemma tables_ok_vmm [simp]:
  "tables_ok (s\<lparr>map_lock := l\<rparr>) = tables_ok s" "tables_ok (s\<lparr>tlb_flushes := n\<rparr>) = tables_ok s"
  "tables_ok (s\<lparr>kernel_pm := k\<rparr>) = tables_ok s" "tables_ok (s\<lparr>cr3 := c\<rparr>) = tables_ok s"
  "tables_ok (s\<lparr>physical_address_width := w\<rparr>) = tables_ok s"
  "tables_ok (s\<lparr>linear_address_width := w\<rparr>) = tables_ok s"
  by (simp_all add: tables_ok_def table_ok_def fun_eq_iff)

lemma table_page_vmm [simp]:
  "table_page (s\<lparr>map_lock := l\<rparr>) = table_page s" "table_page (s\<lparr>tlb_flushes := n\<rparr>) = table_page s"
  "table_page (s\<lparr>kernel_pm := k\<rparr>) = table_page s" "table_page (s\<lparr>cr3 := c\<rparr>) = table_page s"
  "table_page (s\<lparr>physical_address_width := w\<rparr>) = table_page s"
  "table_page (s\<lparr>linear_address_width := w\<rparr>) = table_page s"
  by (simp_all add: table_page_def fun_eq_iff)

section \<open>The invariant and the address space\<close>

definition vmm_ok :: "pagemap_t \<Rightarrow> 'a vmm_state_scheme \<Rightarrow> bool" where
  "vmm_ok pm s \<longleftrightarrow> tables_ok s (pml4 pm) \<and> locked (map_lock s) = 0"

definition space :: "pagemap_t \<Rightarrow> 'a vmm_state_scheme \<Rightarrow> u64 \<Rightarrow> u64 option" where
  "space pm s v = translation (mem s) (hhdm_offset s) (pml4 pm) v"

text \<open>The address space with the page of \<open>v\<close> set to an entry, or taken out.\<close>

definition page_set :: "u64 \<Rightarrow> u64 \<Rightarrow> (u64 \<Rightarrow> u64 option) \<Rightarrow> u64 \<Rightarrow> u64 option" where
  "page_set v e A = (\<lambda>w. if same_page v w then entry_of e else A w)"

definition page_cleared :: "u64 \<Rightarrow> (u64 \<Rightarrow> u64 option) \<Rightarrow> u64 \<Rightarrow> u64 option" where
  "page_cleared v A = (\<lambda>w. if same_page v w then None else A w)"

text \<open>The globals no mapping operation touches.\<close>

definition same_globals :: "'a vmm_state_scheme \<Rightarrow> 'a vmm_state_scheme \<Rightarrow> bool" where
  "same_globals s s' \<longleftrightarrow>
     hhdm_offset s' = hhdm_offset s \<and> stack_region s' = stack_region s \<and>
     memmap s' = memmap s \<and> pm_total_pages s' = pm_total_pages s \<and>
     kernel_pm s' = kernel_pm s \<and> cr3 s' = cr3 s \<and> map_lock s' = map_lock s \<and>
     physical_address_width s' = physical_address_width s \<and>
     linear_address_width s' = linear_address_width s \<and> vmm_state.more s' = vmm_state.more s"

lemma same_globals_refl [simp]: "same_globals s s"
  by (simp add: same_globals_def)

lemma same_globals_trans: "same_globals s t \<Longrightarrow> same_globals t u \<Longrightarrow> same_globals s u"
  by (simp add: same_globals_def)

lemma vmm_more_eq:
  assumes "pmm_state.more s' = pmm_state.more s"
  shows "kernel_pm s' = kernel_pm s" "cr3 s' = cr3 s" "map_lock s' = map_lock s"
    "physical_address_width s' = physical_address_width s"
    "linear_address_width s' = linear_address_width s" "tlb_flushes s' = tlb_flushes s"
    "vmm_state.more s' = vmm_state.more s"
  using assms by (cases s; cases s'; simp)+

section \<open>Mapping\<close>

lemma paths_vmm [simp]:
  "paths (s\<lparr>map_lock := l\<rparr>) = paths s" "paths (s\<lparr>tlb_flushes := n\<rparr>) = paths s"
  "paths (s\<lparr>kernel_pm := k\<rparr>) = paths s" "paths (s\<lparr>cr3 := c\<rparr>) = paths s"
  by (simp_all add: paths_def fun_eq_iff)

text \<open>
  What mapping may change, apart from the address space: frames of the free list become
  tables, and only bytes of tables are written.
\<close>

definition extended :: "pagemap_t \<Rightarrow> 'a vmm_state_scheme \<Rightarrow> 'a vmm_state_scheme \<Rightarrow> bool" where
  "extended pm s s' \<longleftrightarrow>
     vmm_ok pm s' \<and> same_globals s s' \<and> frames_become_tables (pml4 pm) s s' \<and>
     (\<forall>x. table_page s (pml4 pm) x \<longrightarrow> table_page s' (pml4 pm) x) \<and>
     (\<forall>x. table_page s' (pml4 pm) x \<longrightarrow> table_page s (pml4 pm) x \<or>
        (\<exists>q \<in> set (free_list s). pgno x = pgno (q + hhdm_offset s))) \<and>
     (\<forall>x. \<not> table_page s' (pml4 pm) x \<longrightarrow> mem s' x = mem s x)"

lemma extendedD:
  assumes "extended pm s s'"
  shows "vmm_ok pm s'" "same_globals s s'" "set (free_list s') \<subseteq> set (free_list s)"
    "paths s (pml4 pm) \<subseteq> paths s' (pml4 pm)"
    "length (free_list s) + card (paths s (pml4 pm)) = length (free_list s') + card (paths s' (pml4 pm))"
    "table_page s' (pml4 pm) x \<Longrightarrow> table_page s (pml4 pm) x \<or>
       (\<exists>q \<in> set (free_list s). pgno x = pgno (q + hhdm_offset s))"
    "\<not> table_page s' (pml4 pm) x \<Longrightarrow> mem s' x = mem s x"
    "\<exists>fs. free_list s = free_list s' @ fs"
  using assms by (auto simp: extended_def frames_become_tables_def simp del: length_free_list)

lemma extended_refl: "vmm_ok pm s \<Longrightarrow> extended pm s s"
  by (simp add: extended_def frames_become_tables_refl)

lemma extended_trans:
  assumes "extended pm s t" "extended pm t u"
  shows "extended pm s u"
  unfolding extended_def
proof (intro conjI allI impI)
  show "vmm_ok pm u" using assms(2) by (simp add: extended_def)
  show "same_globals s u" using assms same_globals_trans unfolding extended_def by blast
  show "frames_become_tables (pml4 pm) s u"
    using assms frames_become_tables_trans unfolding extended_def by blast
  have h: "hhdm_offset t = hhdm_offset s" using assms(1) by (simp add: extended_def same_globals_def)
  show "table_page s (pml4 pm) x \<or> (\<exists>q \<in> set (free_list s). pgno x = pgno (q + hhdm_offset s))"
    if "table_page u (pml4 pm) x" for x
    using extendedD(6) [OF assms(2) that] extendedD(6) [OF assms(1)] extendedD(3) [OF assms(1)]
    unfolding h by blast
  show "mem u x = mem s x" if "\<not> table_page u (pml4 pm) x" for x
    using that assms unfolding extended_def by metis
qed (use assms in \<open>simp add: extended_def\<close>)

text \<open>
  The two outcomes of \<open>vmm_map\<close>: the page is set, or the frames did not suffice for the
  missing tables, the log says so, and the address space is as before.
\<close>

definition map_failure :: "log_line list" where
  "map_failure = descent_failure @ [no_page_table]"

lemma vmm_map_cases:
  assumes "vmm_ok pm s"
  obtains (mapped) s' where "vmm_map pm v p f s = Some s'" "extended pm s s'"
      "space pm s' = page_set v (p OR f) (space pm s)"
      "paths s' (pml4 pm) = paths s (pml4 pm) \<union> set (table_prefixes v)"
      "tlb_flushes s' = Suc (tlb_flushes s)" "klog s' = klog s"
      "\<exists>pt. walk (mem s') (hhdm_offset s') (pml4 pm) (table_path v) = Some pt \<and> pt \<noteq> 0 \<and>
         slot (mem s') pt (table_index 12 v) = p OR f"
  | (full) s' where "vmm_map pm v p f s = Some s'" "extended pm s s'" "space pm s' = space pm s"
      "free_list s' = []" "paths s' (pml4 pm) \<subset> paths s (pml4 pm) \<union> set (table_prefixes v)"
      "tlb_flushes s' = tlb_flushes s" "klog s' = klog s @ map_failure"
proof -
  let ?r = "pml4 pm"
  have free: "locked (map_lock s) = 0" and ok: "tables_ok s ?r"
    using assms by (simp_all add: vmm_ok_def)
  let ?t = "s\<lparr>map_lock := (map_lock s)\<lparr>locked := 1\<rparr>\<rparr>"
  have acq: "spinlock_acquire (map_lock s) = Some ((map_lock s)\<lparr>locked := 1\<rparr>)"
    using free by (simp add: acquire_eq)
  have restored: "spinlock_release ((map_lock s)\<lparr>locked := 1\<rparr>) = map_lock s"
    using free by (cases "map_lock s") (simp add: spinlock_release_def sync_lock_release_def)
  have ok': "tables_ok ?t ?r" using ok by simp
  show thesis
  proof (cases rule: descend_force [OF ok', of v])
    case (1 s0)
    note more = vmm_more_eq [OF grownD(6) [OF 1(2)]]
    note D = grownD [OF 1(2)]
    let ?s1 = "s0\<lparr>klog := klog s0 @ map_failure\<rparr>"
    show ?thesis
    proof (rule full)
      show "vmm_map pm v p f s = Some (unlock_map ?s1)"
        using 1(1) acq by (simp add: vmm_map_def map_failure_def)
      show "extended pm s (unlock_map ?s1)"
        unfolding extended_def
      proof (intro conjI allI impI)
        show "vmm_ok pm (unlock_map ?s1)"
          using D(1) by (simp add: vmm_ok_def unlock_map_def)
        show "same_globals s (unlock_map ?s1)"
          using D more restored by (simp add: same_globals_def unlock_map_def)
        show "frames_become_tables ?r s (unlock_map ?s1)"
          using D(12) by (simp add: frames_become_tables_def unlock_map_def)
      qed (use D(9-11) in \<open>simp_all add: unlock_map_def\<close>)
      show "space pm (unlock_map ?s1) = space pm s"
        using D(8) by (simp add: space_def unlock_map_def fun_eq_iff)
      show "free_list (unlock_map ?s1) = []" "paths (unlock_map ?s1) ?r \<subset> paths s ?r \<union> set (table_prefixes v)"
        using 1(3,4) by (simp_all add: unlock_map_def)
      show "tlb_flushes (unlock_map ?s1) = tlb_flushes s" "klog (unlock_map ?s1) = klog s @ map_failure"
        using more D(13) by (simp_all add: unlock_map_def)
    qed
  next
    case (2 pt s1)
    note more = vmm_more_eq [OF grownD(6) [OF 2(3)]]
    note D = grownD [OF 2(3)]
    note L = leaf_written [OF D(1) 2(4), where e = "p OR f"]
    define s2 where "s2 = leaf_written pt v (p OR f) s1"
    have s2_more: "kernel_pm s2 = kernel_pm s1" "cr3 s2 = cr3 s1" "map_lock s2 = map_lock s1"
      "physical_address_width s2 = physical_address_width s1"
      "linear_address_width s2 = linear_address_width s1" "tlb_flushes s2 = tlb_flushes s1"
      "vmm_state.more s2 = vmm_state.more s1"
      by (simp_all add: s2_def leaf_written_def)
    let ?s3 = "unlock_map (tlb_flush s2)"
    note L' = L [folded s2_def]
    have s2_simps: "hhdm_offset s2 = hhdm_offset s1" "stack_region s2 = stack_region s1"
      "memmap s2 = memmap s1" "pm_total_pages s2 = pm_total_pages s1"
      by (simp_all add: s2_def)
    show ?thesis
    proof (rule mapped)
      show "vmm_map pm v p f s = Some ?s3"
        using 2(1,2) acq by (simp add: vmm_map_def Let_def s2_def leaf_written_def)
      show "extended pm s ?s3"
        unfolding extended_def
      proof (intro conjI allI impI)
        show "vmm_ok pm ?s3"
          using L'(1) by (simp add: vmm_ok_def unlock_map_def tlb_flush_def)
        show "same_globals s ?s3"
          using D more restored s2_more s2_simps
          by (simp add: same_globals_def unlock_map_def tlb_flush_def)
        have "frames_become_tables ?r s s2"
          using D(12) L'(3,7) by (simp add: frames_become_tables_def del: length_free_list)
        then show "frames_become_tables ?r s ?s3"
          by (simp add: frames_become_tables_def unlock_map_def tlb_flush_def)
        show "mem ?s3 x = mem s x" if "\<not> table_page ?s3 ?r x" for x
          using D(9) that L'(4,5) by (simp add: unlock_map_def tlb_flush_def)
      qed (use D(10,11) L'(4) in \<open>simp_all add: unlock_map_def tlb_flush_def\<close>)
      show "space pm ?s3 = page_set v (p OR f) (space pm s)"
        using D(8) L'(2) D(2) s2_simps
        by (simp add: space_def unlock_map_def tlb_flush_def page_set_def fun_eq_iff)
      show "paths ?s3 ?r = paths s ?r \<union> set (table_prefixes v)"
        using 2(5) L'(7) by (simp add: unlock_map_def tlb_flush_def)
      show "tlb_flushes ?s3 = Suc (tlb_flushes s)" "klog ?s3 = klog s"
        using more s2_more D(13) by (simp_all add: unlock_map_def tlb_flush_def s2_def)
      have "slot (mem ?s3) pt (table_index 12 v) = p OR f"
        by (simp add: unlock_map_def tlb_flush_def s2_def leaf_written_def)
      with 2(2) L'(6) s2_simps
      show "\<exists>pt. walk (mem ?s3) (hhdm_offset ?s3) ?r (table_path v) = Some pt \<and> pt \<noteq> 0 \<and>
         slot (mem ?s3) pt (table_index 12 v) = p OR f"
        by (intro exI [of _ pt]) (simp add: unlock_map_def tlb_flush_def)
    qed
  qed
qed

text \<open>How many tables are missing on the way to an address decides which of the two happens.\<close>

definition missing_tables :: "pagemap_t \<Rightarrow> u64 \<Rightarrow> 'a vmm_state_scheme \<Rightarrow> nat" where
  "missing_tables pm v s = card (set (table_prefixes v) - paths s (pml4 pm))"

lemma card_table_prefixes: "card (A \<union> set (table_prefixes v)) \<le> card A + 3"
proof -
  have "card (set (table_prefixes v)) \<le> 3" using card_length [of "table_prefixes v"] by (simp add: table_prefixes_def)
  then show ?thesis using card_Un_le [of A "set (table_prefixes v)"] by simp
qed

lemma missing_tables_card:
  "card (paths s (pml4 pm) \<union> set (table_prefixes v)) = card (paths s (pml4 pm)) + missing_tables pm v s"
  "missing_tables pm v s \<le> 3"
proof -
  have "paths s (pml4 pm) \<union> set (table_prefixes v) = paths s (pml4 pm) \<union> (set (table_prefixes v) - paths s (pml4 pm))" by blast
  then show "card (paths s (pml4 pm) \<union> set (table_prefixes v)) = card (paths s (pml4 pm)) + missing_tables pm v s"
    unfolding missing_tables_def by (metis Diff_disjoint card_Un_disjoint finite_Diff finite_paths finite_set)
  then show "missing_tables pm v s \<le> 3"
    using card_table_prefixes [of "paths s (pml4 pm)" v] by simp
qed

lemma vmm_map_outcome:
  assumes "vmm_ok pm s"
  shows "\<exists>s'. vmm_map pm v p f s = Some s' \<and> extended pm s s' \<and>
    paths s' (pml4 pm) \<subseteq> paths s (pml4 pm) \<union> set (table_prefixes v) \<and>
    (if missing_tables pm v s \<le> length (free_list s)
     then space pm s' = page_set v (p OR f) (space pm s) \<and> tlb_flushes s' = Suc (tlb_flushes s) \<and>
       paths s' (pml4 pm) = paths s (pml4 pm) \<union> set (table_prefixes v) \<and>
       length (free_list s) = length (free_list s') + missing_tables pm v s \<and> klog s' = klog s
     else space pm s' = space pm s \<and> tlb_flushes s' = tlb_flushes s \<and> free_list s' = [] \<and>
       klog s' = klog s @ map_failure)"
proof (cases rule: vmm_map_cases [OF assms, of v p f])
  case (1 s')
  have "length (free_list s) = length (free_list s') + missing_tables pm v s"
    using extendedD(5) [OF 1(2)] 1(4) missing_tables_card(1) [of s pm v] by simp
  with 1 show ?thesis by (intro exI [of _ s']) simp
next
  case (2 s')
  have "card (paths s' (pml4 pm)) < card (paths s (pml4 pm)) + missing_tables pm v s"
    using psubset_card_mono [OF _ 2(5)] missing_tables_card(1) [of s pm v] by simp
  then have "length (free_list s) < missing_tables pm v s"
    using extendedD(5) [OF 2(2)] 2(4) by simp
  with 2 show ?thesis by (intro exI [of _ s']) auto
qed

lemma vmm_map_held: "locked (map_lock s) \<noteq> 0 \<Longrightarrow> vmm_map pm v p f s = None"
  by (simp add: vmm_map_def acquire_eq)

section \<open>Unmapping\<close>

text \<open>The two things \<open>vmm_unmap\<close> may find: a page table for the address, or none.\<close>

lemma vmm_unmap_absent:
  assumes "vmm_ok pm s" "walk (mem s) (hhdm_offset s) (pml4 pm) (table_path v) = None"
  shows "vmm_unmap pm v fp s = Some (Ret False s)" "space pm s v = None"
proof -
  have free: "locked (map_lock s) = 0" and ok: "tables_ok s (pml4 pm)"
    using assms by (simp_all add: vmm_ok_def)
  have "unlock_map (s\<lparr>map_lock := (map_lock s)\<lparr>locked := 1\<rparr>\<rparr>) = s"
    using free by (cases "map_lock s") (simp add: unlock_map_def spinlock_release_def sync_lock_release_def)
  moreover have "pml4_to_pt (pml4 pm) v False (s\<lparr>map_lock := l\<rparr>) = (0, s\<lparr>map_lock := l\<rparr>)" for l
    using descend_read(1) [of "s\<lparr>map_lock := l\<rparr>" "pml4 pm" v] ok assms(2) by simp
  ultimately show "vmm_unmap pm v fp s = Some (Ret False s)"
    using free by (simp add: vmm_unmap_def acquire_eq)
  show "space pm s v = None" using assms(2) by (simp add: space_def translation_def)
qed

text \<open>The state \<open>vmm_unmap\<close> leaves when it finds the table \<open>pt\<close>.\<close>

definition unmapped :: "u64 \<Rightarrow> u64 \<Rightarrow> 'a vmm_state_scheme \<Rightarrow> 'a vmm_state_scheme" where
  "unmapped pt v s = tlb_flush (leaf_written pt v 0 s)"

lemma leaf_written_lock: "leaf_written pt v e (s\<lparr>map_lock := l\<rparr>) = (leaf_written pt v e s)\<lparr>map_lock := l\<rparr>"
  by (simp add: leaf_written_def)

lemma vmm_unmap_present:
  assumes "vmm_ok pm s" "walk (mem s) (hhdm_offset s) (pml4 pm) (table_path v) = Some pt"
  shows "vmm_unmap pm v False s = Some (Ret True (unmapped pt v s))"
    and "vmm_unmap pm v True s =
      (case pmm_free_pages (slot (mem s) pt (table_index 12 v) AND PTE_ADDR) 1
              (s\<lparr>map_lock := (map_lock s)\<lparr>locked := 1\<rparr>\<rparr>) of
         Halt s' \<Rightarrow> Some (Halt s')
       | Ret _ s' \<Rightarrow> Some (Ret True (unlock_map (unmapped pt v s'))))"
proof -
  have free: "locked (map_lock s) = 0" and ok: "tables_ok s (pml4 pm)"
    using assms by (simp_all add: vmm_ok_def)
  have "pt \<noteq> 0" using descend_read(2) [OF ok, of v] assms(2) by auto
  then have down: "pml4_to_pt (pml4 pm) v False (s\<lparr>map_lock := l\<rparr>) = (pt, s\<lparr>map_lock := l\<rparr>)" for l
    using descend_read(1) [of "s\<lparr>map_lock := l\<rparr>" "pml4 pm" v] ok assms(2) by simp
  have relock: "unlock_map (s\<lparr>map_lock := (map_lock s)\<lparr>locked := 1\<rparr>,
      mem := m, tlb_flushes := n\<rparr>) = s\<lparr>mem := m, tlb_flushes := n\<rparr>" for m n
    using free
    by (cases s) (simp add: unlock_map_def spinlock_release_def sync_lock_release_def)
  show "vmm_unmap pm v False s = Some (Ret True (unmapped pt v s))"
    using free down \<open>pt \<noteq> 0\<close> relock
    by (simp add: vmm_unmap_def acquire_eq unmapped_def leaf_written_def tlb_flush_def Let_def)
  show "vmm_unmap pm v True s =
      (case pmm_free_pages (slot (mem s) pt (table_index 12 v) AND PTE_ADDR) 1
              (s\<lparr>map_lock := (map_lock s)\<lparr>locked := 1\<rparr>\<rparr>) of
         Halt s' \<Rightarrow> Some (Halt s')
       | Ret _ s' \<Rightarrow> Some (Ret True (unlock_map (unmapped pt v s'))))"
    using free down \<open>pt \<noteq> 0\<close>
    by (simp add: vmm_unmap_def acquire_eq unmapped_def leaf_written_def Let_def
        split: outcome.splits)
qed

lemma unmapped_spec:
  assumes "vmm_ok pm s" "walk (mem s) (hhdm_offset s) (pml4 pm) (table_path v) = Some pt"
  shows "vmm_ok pm (unmapped pt v s)" "same_globals s (unmapped pt v s)"
    and "space pm (unmapped pt v s) = page_cleared v (space pm s)"
    and "free_list (unmapped pt v s) = free_list s" "paths (unmapped pt v s) (pml4 pm) = paths s (pml4 pm)"
    and "\<not> table_page s (pml4 pm) x \<Longrightarrow> mem (unmapped pt v s) x = mem s x"
proof -
  have ok: "tables_ok s (pml4 pm)" using assms by (simp add: vmm_ok_def)
  note L = leaf_written [OF ok assms(2), where e = 0]
  define t where "t = leaf_written pt v 0 s"
  have t: "kernel_pm t = kernel_pm s" "cr3 t = cr3 s" "map_lock t = map_lock s"
    "physical_address_width t = physical_address_width s"
    "linear_address_width t = linear_address_width s" "hhdm_offset t = hhdm_offset s"
    "stack_region t = stack_region s" "memmap t = memmap s" "pm_total_pages t = pm_total_pages s"
    "vmm_state.more t = vmm_state.more s"
    by (simp_all add: t_def) (simp_all add: leaf_written_def)
  note L' = L [folded t_def]
  show "vmm_ok pm (unmapped pt v s)" "same_globals s (unmapped pt v s)"
    "space pm (unmapped pt v s) = page_cleared v (space pm s)"
    "free_list (unmapped pt v s) = free_list s" "paths (unmapped pt v s) (pml4 pm) = paths s (pml4 pm)"
    using L' t assms(1)
    by (simp_all add: unmapped_def vmm_ok_def same_globals_def tlb_flush_def space_def
        page_cleared_def entry_of_def fun_eq_iff flip: t_def)
  show "mem (unmapped pt v s) x = mem s x" if "\<not> table_page s (pml4 pm) x"
    using L'(5) that by (simp add: unmapped_def tlb_flush_def flip: t_def)
qed

section \<open>The contract\<close>

text \<open>
  A client sees the address space \<open>view\<close>, a stock of frames \<open>stock\<close>, the tables in use by
  their paths \<open>tables\<close>, and two operations. Frames only become tables; a mapping succeeds
  exactly when the stock suffices for the tables that are missing on the way to its page, and
  then logs nothing.
\<close>

definition request_tables :: "(u64 \<times> u64 \<times> u64) list \<Rightarrow> u64 list list" where
  "request_tables rs = concat (map (\<lambda>(v, _). table_prefixes v) rs)"

locale address_space =
  fixes ok :: "'s \<Rightarrow> bool"
    and view :: "'s \<Rightarrow> u64 \<Rightarrow> u64 option"
    and stock :: "'s \<Rightarrow> nat"
    and tables :: "'s \<Rightarrow> u64 list set"
    and logged :: "'s \<Rightarrow> log_line list"
    and map_page :: "u64 \<Rightarrow> u64 \<Rightarrow> u64 \<Rightarrow> 's \<Rightarrow> 's option"
    and unmap_page :: "u64 \<Rightarrow> 's \<Rightarrow> 's option"
  assumes finite_tables: "finite (tables s)"
    and map_ok: "ok s \<Longrightarrow> \<exists>s'. map_page v p f s = Some s' \<and> ok s' \<and> tables s \<subseteq> tables s' \<and>
      stock s + card (tables s) = stock s' + card (tables s') \<and>
      tables s' \<subseteq> tables s \<union> set (table_prefixes v) \<and>
      (if card (tables s \<union> set (table_prefixes v)) \<le> stock s + card (tables s)
       then view s' = page_set v (p OR f) (view s) \<and> tables s' = tables s \<union> set (table_prefixes v) \<and>
         logged s' = logged s
       else view s' = view s)"
    and unmap_ok: "ok s \<Longrightarrow> \<exists>s'. unmap_page v s = Some s' \<and> ok s' \<and> stock s' = stock s \<and>
      tables s' = tables s \<and> view s' = page_cleared v (view s)"
begin

text \<open>Three frames are always enough for one page.\<close>

lemma map_enough:
  assumes "ok s" "3 \<le> stock s"
  shows "\<exists>s'. map_page v p f s = Some s' \<and> ok s' \<and> stock s \<le> stock s' + 3 \<and>
    view s' = page_set v (p OR f) (view s)"
  using map_ok [OF assms(1), of v p f] card_table_prefixes [of "tables s" v] assms(2) by fastforce

lemma map_elsewhere:
  assumes "ok s" "map_page v p f s = Some s'" "\<not> same_page v w"
  shows "view s' w = view s w"
proof -
  have "view s' = page_set v (p OR f) (view s) \<or> view s' = view s"
    using map_ok [OF assms(1), of v p f] unfolding assms(2) by (metis option.inject)
  with assms(3) show ?thesis by (auto simp: page_set_def)
qed

lemma map_unmap:
  assumes "ok s" "3 \<le> stock s" "map_page v p f s = Some s'" "unmap_page v s' = Some s''"
  shows "view s'' = page_cleared v (view s)"
proof -
  from map_enough [OF assms(1,2), of v p f] assms(3)
  have s': "ok s'" "view s' = page_set v (p OR f) (view s)" by auto
  with unmap_ok [OF s'(1), of v] assms(4) show ?thesis
    by (auto simp: page_set_def page_cleared_def fun_eq_iff)
qed

text \<open>A run of mappings, as the boot code makes them, and the tables it needs.\<close>

fun map_pages :: "(u64 \<times> u64 \<times> u64) list \<Rightarrow> 's \<Rightarrow> 's option" where
  "map_pages [] s = Some s"
| "map_pages ((v, p, f) # rs) s = Option.bind (map_page v p f s) (map_pages rs)"

lemma map_pages_append: "map_pages (rs @ qs) s = Option.bind (map_pages rs s) (map_pages qs)"
  by (induction rs s rule: map_pages.induct) (auto split: bind_split)

lemma map_pages_ok:
  assumes "ok s"
  shows "\<exists>s'. map_pages rs s = Some s' \<and> ok s' \<and> tables s \<subseteq> tables s' \<and>
    stock s + card (tables s) = stock s' + card (tables s') \<and>
    (card (tables s \<union> set (request_tables rs)) \<le> stock s + card (tables s) \<longrightarrow>
      view s' = fold (\<lambda>(v, p, f). page_set v (p OR f)) rs (view s) \<and>
      tables s' = tables s \<union> set (request_tables rs) \<and> logged s' = logged s)"
  using assms
proof (induction rs arbitrary: s)
  case (Cons r rs)
  obtain v p f where r: "r = (v, p, f)" by (cases r)
  let ?P = "set (table_prefixes v)"
  obtain t where t: "map_page v p f s = Some t" "ok t" "tables s \<subseteq> tables t"
    "stock s + card (tables s) = stock t + card (tables t)"
    "if card (tables s \<union> ?P) \<le> stock s + card (tables s)
     then view t = page_set v (p OR f) (view s) \<and> tables t = tables s \<union> ?P \<and> logged t = logged s
     else view t = view s"
    using map_ok [OF Cons.prems] by blast
  obtain s' where s': "map_pages rs t = Some s'" "ok s'" "tables t \<subseteq> tables s'"
    "stock t + card (tables t) = stock s' + card (tables s')"
    "card (tables t \<union> set (request_tables rs)) \<le> stock t + card (tables t) \<longrightarrow>
      view s' = fold (\<lambda>(v, p, f). page_set v (p OR f)) rs (view t) \<and>
      tables s' = tables t \<union> set (request_tables rs) \<and> logged s' = logged t"
    using Cons.IH [OF t(2)] by blast
  have all: "tables s \<union> set (request_tables (r # rs)) = (tables s \<union> ?P) \<union> set (request_tables rs)"
    by (auto simp: r request_tables_def)
  have "view s' = fold (\<lambda>(v, p, f). page_set v (p OR f)) (r # rs) (view s) \<and>
      tables s' = tables s \<union> set (request_tables (r # rs)) \<and> logged s' = logged s"
    if enough: "card (tables s \<union> set (request_tables (r # rs))) \<le> stock s + card (tables s)"
  proof -
    have "card (tables s \<union> ?P) \<le> card ((tables s \<union> ?P) \<union> set (request_tables rs))"
      by (intro card_mono) (simp_all add: finite_tables)
    with enough have "card (tables s \<union> ?P) \<le> stock s + card (tables s)" unfolding all by linarith
    then have first: "view t = page_set v (p OR f) (view s)" "tables t = tables s \<union> ?P" "logged t = logged s"
      using t(5) by simp_all
    from enough have "card (tables t \<union> set (request_tables rs)) \<le> stock t + card (tables t)"
      unfolding all first(2) using t(4) first(2) by simp
    with s'(5) show ?thesis unfolding all by (simp add: first r)
  qed
  moreover have "map_pages (r # rs) s = Some s'" using t(1) s'(1) by (simp add: r)
  moreover have "stock s + card (tables s) = stock s' + card (tables s')" using t(4) s'(4) by simp
  ultimately show ?case using s'(2,3) t(3) by blast
qed (simp add: request_tables_def)

end

definition unmap_only :: "pagemap_t \<Rightarrow> u64 \<Rightarrow> 'a vmm_state_scheme \<Rightarrow> 'a vmm_state_scheme option" where
  "unmap_only pm v s =
     (case vmm_unmap pm v False s of Some (Ret _ s') \<Rightarrow> Some s' | _ \<Rightarrow> None)"

interpretation aspace: address_space "vmm_ok pm" "space pm" "\<lambda>s. length (free_list s)"
    "\<lambda>s. paths s (pml4 pm)" klog "vmm_map pm" "unmap_only pm" for pm :: pagemap_t
proof unfold_locales
  fix s :: "'a vmm_state_scheme" and v p f
  show "finite (paths s (pml4 pm))" by simp
  assume ok: "vmm_ok pm s"
  obtain s' where s': "vmm_map pm v p f s = Some s'" "extended pm s s'"
    "paths s' (pml4 pm) \<subseteq> paths s (pml4 pm) \<union> set (table_prefixes v)"
    "if missing_tables pm v s \<le> length (free_list s)
     then space pm s' = page_set v (p OR f) (space pm s) \<and>
       paths s' (pml4 pm) = paths s (pml4 pm) \<union> set (table_prefixes v) \<and> klog s' = klog s
     else space pm s' = space pm s"
    using vmm_map_outcome [OF ok, of v p f] by metis
  then show "\<exists>s'. vmm_map pm v p f s = Some s' \<and> vmm_ok pm s' \<and> paths s (pml4 pm) \<subseteq> paths s' (pml4 pm) \<and>
      length (free_list s) + card (paths s (pml4 pm)) = length (free_list s') + card (paths s' (pml4 pm)) \<and>
      paths s' (pml4 pm) \<subseteq> paths s (pml4 pm) \<union> set (table_prefixes v) \<and>
      (if card (paths s (pml4 pm) \<union> set (table_prefixes v)) \<le> length (free_list s) + card (paths s (pml4 pm))
       then space pm s' = page_set v (p OR f) (space pm s) \<and>
         paths s' (pml4 pm) = paths s (pml4 pm) \<union> set (table_prefixes v) \<and> klog s' = klog s
       else space pm s' = space pm s)"
    using extendedD(1,4,5) [OF s'(2)]
    by (intro exI [of _ s']) (simp add: missing_tables_card(1) add.commute del: length_free_list)
  show "\<exists>s'. unmap_only pm v s = Some s' \<and> vmm_ok pm s' \<and>
      length (free_list s') = length (free_list s) \<and> paths s' (pml4 pm) = paths s (pml4 pm) \<and>
      space pm s' = page_cleared v (space pm s)"
  proof (cases "walk (mem s) (hhdm_offset s) (pml4 pm) (table_path v)")
    case None
    have "space pm s = page_cleared v (space pm s)"
      using vmm_unmap_absent(2) [OF ok None] translation_same_page
      by (auto simp: page_cleared_def space_def fun_eq_iff)
    then show ?thesis using ok vmm_unmap_absent(1) [OF ok None] by (simp add: unmap_only_def)
  next
    case (Some pt)
    then show ?thesis
      using vmm_unmap_present(1) [OF ok Some] unmapped_spec [OF ok Some]
      by (simp add: unmap_only_def del: length_free_list)
  qed
qed

end
