(* ===== verification/VmmInit.thy ===== *)
theory VmmInit
  imports VmmSpec
begin

text \<open>
  The boot-time mappings. Every loop of \<open>vmm_init\<close> is a list of \<open>(virt, phys, flags)\<close>
  requests; \<open>boot_requests\<close> is the whole list, in the code's order, and the loops are shown
  to issue exactly it through the contract \<open>address_space\<close>. A loop runs from \<open>x\<close> up to a
  bound in steps of a page and ends when the last step does not wrap round (\<open>loop_ends\<close>).
\<close>

section \<open>Loops as lists\<close>

definition loop_count :: "u64 \<Rightarrow> u64 \<Rightarrow> nat" where
  "loop_count x bound = (unat bound - unat x + 4095) div 4096"

definition loop_pages :: "u64 \<Rightarrow> u64 \<Rightarrow> u64 list" where
  "loop_pages x bound = pages_from x (loop_count x bound)"

definition loop_ends :: "u64 \<Rightarrow> u64 \<Rightarrow> bool" where
  "loop_ends x bound \<longleftrightarrow> unat x + 4096 * loop_count x bound < 2 ^ 64"

lemma loop_done: "\<not> x < bound \<Longrightarrow> loop_pages x bound = []"
  by (simp add: loop_pages_def loop_count_def word_less_nat_alt)

lemma pages_step: "4096 < d \<Longrightarrow> (d + 4095) div 4096 = Suc ((d - 4096 + 4095) div (4096 :: nat))"
  by linarith

lemma loop_next:
  assumes "x < bound" "loop_ends x bound"
  shows "loop_pages x bound = x # loop_pages (x + PAGE_SIZE) bound"
    and "loop_ends (x + PAGE_SIZE) bound"
    and "loop_count (x + PAGE_SIZE) bound < loop_count x bound"
proof -
  have lt: "unat x < unat bound" using assms(1) by (simp add: word_less_nat_alt)
  then have pos: "0 < loop_count x bound" by (simp add: loop_count_def div_greater_zero_iff)
  then have next_x: "unat (x + PAGE_SIZE) = unat x + 4096"
    using assms(2) by (simp add: loop_ends_def PAGE_SIZE_def unat_word_ariths)
  have count: "loop_count x bound = Suc (loop_count (x + PAGE_SIZE) bound)"
  proof (cases "unat bound \<le> unat x + 4096")
    case True
    then have "loop_count (x + PAGE_SIZE) bound = 0" by (simp add: loop_count_def next_x)
    moreover have "loop_count x bound = 1"
      unfolding loop_count_def using True lt by (intro div_nat_eqI) simp_all
    ultimately show ?thesis by simp
  next
    case False
    then have "4096 < unat bound - unat x" by linarith
    from pages_step [OF this] show ?thesis by (simp only: loop_count_def next_x diff_diff_left)
  qed
  show "loop_count (x + PAGE_SIZE) bound < loop_count x bound" using count by simp
  show "loop_pages x bound = x # loop_pages (x + PAGE_SIZE) bound"
    by (simp add: loop_pages_def count pages_from_Suc)
  show "loop_ends (x + PAGE_SIZE) bound"
    using assms(2) by (simp add: loop_ends_def count next_x)
qed

lemma vmm_map_extended:
  "vmm_map pm v p f s = Some s' \<Longrightarrow> vmm_ok pm s \<Longrightarrow> extended pm s s'"
  using vmm_map_outcome [of pm s v p f] by auto

lemma same_globals_ok:
  "vmm_map pm v p f s = Some s' \<Longrightarrow> vmm_ok pm s \<Longrightarrow> same_globals s s' \<and> vmm_ok pm s'"
  using vmm_map_extended extendedD(1,2) by blast

lemma map_pages_extended:
  "aspace.map_pages pm rs s = Some s' \<Longrightarrow> vmm_ok pm s \<Longrightarrow> extended pm s s'"
proof (induction rs arbitrary: s)
  case (Cons r rs)
  obtain v p f where r: "r = (v, p, f)" by (cases r)
  with Cons.prems(1) obtain t where t: "vmm_map pm v p f s = Some t" "aspace.map_pages pm rs t = Some s'"
    by (auto split: bind_splits)
  have st: "extended pm s t" using vmm_map_extended [OF t(1) Cons.prems(2)] .
  from Cons.IH [OF t(2) extendedD(1) [OF st]] show ?case using extended_trans [OF st] by blast
qed (simp add: extended_refl)

lemma map_pages_globals:
  "aspace.map_pages pm rs s = Some s' \<Longrightarrow> vmm_ok pm s \<Longrightarrow> same_globals s s' \<and> vmm_ok pm s'"
  using map_pages_extended extendedD(1,2) by blast

text \<open>How many tables a list of requests needs, when there are none yet.\<close>

definition tables_needed :: "(u64 \<times> u64 \<times> u64) list \<Rightarrow> nat" where
  "tables_needed rs = length (remdups (request_tables rs))"

lemma tables_needed_card: "tables_needed rs = card (set (request_tables rs))"
  by (simp add: tables_needed_def length_remdups_card_conv)

lemma tables_needed_le: "tables_needed rs \<le> 3 * length rs"
proof -
  have "length (request_tables rs) = 3 * length rs"
    by (induction rs) (auto simp: request_tables_def table_prefixes_def)
  then show ?thesis using length_remdups_leq [of "request_tables rs"] by (simp add: tables_needed_def)
qed

lemma map_pages_some: "vmm_ok pm s \<Longrightarrow> \<exists>s'. aspace.map_pages pm rs s = Some s'"
  using aspace.map_pages_ok by blast

lemma page_loop_maps:
  assumes "vmm_ok pm s" "loop_ends x bound"
    and "\<And>y t. same_globals s t \<Longrightarrow> body y t = vmm_map pm (v y) (p y) f t"
  shows "page_loop body x bound s =
    aspace.map_pages pm (map (\<lambda>y. (v y, p y, f)) (loop_pages x bound)) s"
  using assms
proof (induction "loop_count x bound" arbitrary: x s rule: less_induct)
  case less
  show ?case
  proof (cases "x < bound")
    case False
    then show ?thesis by (subst page_loop.simps) (simp add: loop_done)
  next
    case True
    note step = loop_next [OF True less.prems(2)]
    obtain t where t: "vmm_map pm (v x) (p x) f s = Some t"
      using aspace.map_ok [OF less.prems(1)] by blast
    from same_globals_ok [OF t less.prems(1)] have st: "same_globals s t" "vmm_ok pm t" by auto
    have "page_loop body (x + PAGE_SIZE) bound t =
        aspace.map_pages pm (map (\<lambda>y. (v y, p y, f)) (loop_pages (x + PAGE_SIZE) bound)) t"
      using less.hyps [OF step(3) st(2) step(2)] less.prems(3) same_globals_trans [OF st(1)] by blast
    with True t less.prems(3) [OF same_globals_refl] show ?thesis
      by (subst page_loop.simps) (simp add: step(1))
  qed
qed

section \<open>The requests of each loop\<close>

definition entry_requests :: "u64 \<Rightarrow> limine_memmap_entry \<Rightarrow> (u64 \<times> u64 \<times> u64) list" where
  "entry_requests h e =
     (let bound = ALIGN_UP (entry_base e + entry_length e) PAGE_SIZE in
      case entry_type e of
        LIMINE_MEMMAP_USABLE \<Rightarrow>
          map (\<lambda>a. (a + h, a, PTE_BIT_PRESENT OR PTE_BIT_READ_WRITE))
            (loop_pages (entry_base e) (entry_base e + entry_length e))
      | LIMINE_MEMMAP_FRAMEBUFFER \<Rightarrow>
          map (\<lambda>off. (ALIGN_UP (entry_base e + off) PAGE_SIZE + h,
              ALIGN_UP (entry_base e + off) PAGE_SIZE,
              PTE_BIT_PRESENT OR PTE_BIT_READ_WRITE OR PTE_BIT_EXECUTE_DISABLE OR
                PTE_BIT_WRITE_THROUGH_CACHING))
            (loop_pages 0 bound)
      | LIMINE_MEMMAP_BOOTLOADER_RECLAIMABLE \<Rightarrow>
          map (\<lambda>off. (entry_base e + off + h, entry_base e + off,
              PTE_BIT_PRESENT OR PTE_BIT_READ_WRITE))
            (loop_pages 0 bound)
      | LIMINE_MEMMAP_OTHER _ \<Rightarrow> [])"

definition entry_ends :: "limine_memmap_entry \<Rightarrow> bool" where
  "entry_ends e \<longleftrightarrow>
     loop_ends (entry_base e) (entry_base e + entry_length e) \<and>
     loop_ends 0 (ALIGN_UP (entry_base e + entry_length e) PAGE_SIZE)"

definition section_requests :: "u64 \<Rightarrow> u64 \<Rightarrow> u64 \<Rightarrow> u64 \<Rightarrow> u64 \<Rightarrow> (u64 \<times> u64 \<times> u64) list" where
  "section_requests kv kp flags start end_addr =
     map (\<lambda>a. (a, a - kv + kp, flags)) (loop_pages start end_addr)"

lemma map_entry_requests:
  assumes "vmm_ok (kernel_pm s) s" "entry_ends e"
  shows "map_entry e s = aspace.map_pages (kernel_pm s) (entry_requests (hhdm_offset s) e) s"
proof (cases "entry_type e")
  case LIMINE_MEMMAP_USABLE
  then show ?thesis
    unfolding map_entry_def entry_requests_def
    using assms by (auto simp: entry_ends_def same_globals_def intro!: page_loop_maps)
next
  case LIMINE_MEMMAP_FRAMEBUFFER
  then show ?thesis
    unfolding map_entry_def entry_requests_def Let_def
    using assms by (auto simp: entry_ends_def same_globals_def intro!: page_loop_maps)
next
  case LIMINE_MEMMAP_BOOTLOADER_RECLAIMABLE
  then show ?thesis
    unfolding map_entry_def entry_requests_def Let_def
    using assms by (auto simp: entry_ends_def same_globals_def intro!: page_loop_maps)
qed (simp add: map_entry_def entry_requests_def)

lemma map_entries_requests:
  assumes "vmm_ok (kernel_pm s) s" "list_all entry_ends es"
  shows "map_entries es s =
    aspace.map_pages (kernel_pm s) (concat (map (entry_requests (hhdm_offset s)) es)) s"
  using assms
proof (induction es arbitrary: s)
  case (Cons e es)
  obtain t where t: "aspace.map_pages (kernel_pm s) (entry_requests (hhdm_offset s) e) s = Some t"
    using map_pages_some [OF Cons.prems(1)] by blast
  from map_pages_globals [OF t Cons.prems(1)]
  have g: "kernel_pm t = kernel_pm s" "hhdm_offset t = hhdm_offset s" "vmm_ok (kernel_pm t) t"
    by (auto simp: same_globals_def)
  have "map_entry e s = Some t"
    using map_entry_requests [of s e] Cons.prems t by simp
  moreover have "map_entries es t =
      aspace.map_pages (kernel_pm t) (concat (map (entry_requests (hhdm_offset t)) es)) t"
    using Cons.IH [OF g(3)] Cons.prems(2) by simp
  ultimately show ?case
    using t g by (simp add: aspace.map_pages_append)
qed simp

lemma map_section_requests:
  assumes "vmm_ok (kernel_pm s) s" "loop_ends start end_addr"
  shows "map_section kv kp flags start end_addr s =
    aspace.map_pages (kernel_pm s) (section_requests kv kp flags start end_addr) s"
  unfolding map_section_def section_requests_def Let_def
  using assms by (auto simp: same_globals_def intro!: page_loop_maps)

lemma map_pages_then:
  assumes "vmm_ok pm s"
    and "\<And>t. same_globals s t \<Longrightarrow> vmm_ok pm t \<Longrightarrow> g t = aspace.map_pages pm qs t"
  shows "Option.bind (aspace.map_pages pm rs s) g = aspace.map_pages pm (rs @ qs) s"
  using map_pages_some [OF assms(1), of rs] map_pages_globals [OF _ assms(1), of rs] assms(2)
  by (auto simp: aspace.map_pages_append)

definition boot_requests ::
  "kernel_image \<Rightarrow> u64 \<Rightarrow> u64 \<Rightarrow> u64 \<Rightarrow> limine_memmap_entry list \<Rightarrow> (u64 \<times> u64 \<times> u64) list" where
  "boot_requests img kv kp h es =
     concat (map (entry_requests h) es) @
     section_requests kv kp PTE_BIT_PRESENT
       (ALIGN_DOWN (text_start_sym img) PAGE_SIZE) (ALIGN_UP (text_end_sym img) PAGE_SIZE) @
     section_requests kv kp (PTE_BIT_PRESENT OR PTE_BIT_EXECUTE_DISABLE)
       (ALIGN_DOWN (rodata_start_sym img) PAGE_SIZE) (ALIGN_UP (rodata_end_sym img) PAGE_SIZE) @
     section_requests kv kp (PTE_BIT_PRESENT OR PTE_BIT_READ_WRITE OR PTE_BIT_EXECUTE_DISABLE)
       (ALIGN_DOWN (data_start_sym img) PAGE_SIZE) (ALIGN_UP (data_end_sym img) PAGE_SIZE)"

lemma aligned_loop_ends:
  assumes "aligned x" "aligned bound"
  shows "loop_ends x bound"
proof (cases "unat bound \<le> unat x")
  case True
  then show ?thesis using u64_bound [of x] by (simp add: loop_ends_def loop_count_def)
next
  case False
  from assms obtain a b where "unat x = 4096 * a" "unat bound = 4096 * b"
    by (auto simp: aligned_dvd elim!: dvdE)
  with False have "unat x + 4096 * loop_count x bound = unat bound"
    by (simp add: loop_count_def flip: right_diff_distrib')
  then show ?thesis using u64_bound [of bound] by (simp add: loop_ends_def)
qed

section \<open>The state before the loops, and the loops\<close>

text \<open>The state in which the mapping loops of \<open>vmm_init\<close> start.\<close>

definition rooted :: "u64 \<Rightarrow> u64 \<Rightarrow> u64 \<Rightarrow> 'a vmm_state_scheme \<Rightarrow> 'a vmm_state_scheme" where
  "rooted pw lw root s =
     (let s1 = popped 1 (s\<lparr>physical_address_width := pw, linear_address_width := lw\<rparr>)
      in s1\<lparr>kernel_pm := \<lparr>pml4 = root + hhdm_offset s\<rparr>,
           mem := filled (root + hhdm_offset s) 0 PAGE_SIZE (mem s)\<rparr>)"

lemma popped_vmm [simp]:
  "kernel_pm (popped n s) = kernel_pm s" "map_lock (popped n s) = map_lock s"
  "cr3 (popped n s) = cr3 s" "tlb_flushes (popped n s) = tlb_flushes s"
  "physical_address_width (popped n s) = physical_address_width s"
  "linear_address_width (popped n s) = linear_address_width s"
  by (simp_all add: popped_def)

lemma rooted_simps [simp]:
  "kernel_pm (rooted pw lw root s) = \<lparr>pml4 = root + hhdm_offset s\<rparr>"
  "map_lock (rooted pw lw root s) = map_lock s" "hhdm_offset (rooted pw lw root s) = hhdm_offset s"
  "memmap (rooted pw lw root s) = memmap s" "physical_address_width (rooted pw lw root s) = pw"
  "linear_address_width (rooted pw lw root s) = lw" "vmm_state.more (rooted pw lw root s) = vmm_state.more s"
  by (simp_all add: rooted_def Let_def popped_def)

lemma rooted_ok:
  assumes "pmm_ok s" "free_list s = fs @ [root]"
  shows "tables_ok (rooted pw lw root s) (root + hhdm_offset s)"
    and "translation (mem (rooted pw lw root s)) (hhdm_offset s) (root + hhdm_offset s) v = None"
    and "free_list (rooted pw lw root s) = fs" "paths (rooted pw lw root s) (root + hhdm_offset s) = {}"
    and "table_page (rooted pw lw root s) (root + hhdm_offset s) x \<longleftrightarrow> pgno x = pgno (root + hhdm_offset s)"
    and "stack_region (rooted pw lw root s) = stack_region s"
    and "pgno x \<noteq> pgno (root + hhdm_offset s) \<Longrightarrow> mem (rooted pw lw root s) x = mem s x"
proof -
  let ?r = "root + hhdm_offset s" and ?s = "rooted pw lw root s"
  let ?w = "s\<lparr>physical_address_width := pw, linear_address_width := lw\<rparr>"
  have root: "root \<in> set (free_list s)" "root \<notin> set fs"
    using assms by (auto simp: pmm_ok_def)
  then have r: "aligned ?r" "?r \<noteq> 0" "pgno ?r \<notin> stack_region s"
    using assms(1) by (auto simp: pmm_ok_def frame_ok_def aligned_add)
  have pop: "pmm_ok (popped 1 ?w)" "free_list (popped 1 ?w) = fs"
    using assms pmm_ok_popped [of ?w 1] free_list_popped [of 1 ?w] by simp_all
  let ?m = "filled ?r 0 PAGE_SIZE (mem s)"
  have "?m x = mem (popped 1 ?w) x" if "pgno x \<in> stack_region (popped 1 ?w)" for x
  proof -
    have "pgno x \<noteq> pgno ?r" using that r by auto
    then show ?thesis using filled_page(1) [OF r(1)] by simp
  qed
  note base = pmm_ok_mem [OF pop(1) this]
  have s: "?s = (popped 1 ?w)\<lparr>mem := ?m\<rparr>\<lparr>kernel_pm := \<lparr>pml4 = ?r\<rparr>\<rparr>"
    by (simp add: rooted_def Let_def popped_def)
  have pok: "pmm_ok ?s" and free: "free_list ?s = fs"
    using base pop(2) unfolding s by simp_all
  have reg: "stack_region ?s = stack_region s"
    by (simp add: stack_region_def rooted_def Let_def)
  show "free_list ?s = fs" by (rule free)
  show "stack_region ?s = stack_region s" by (rule reg)
  show "mem ?s x = mem s x" if "pgno x \<noteq> pgno ?r"
    using that filled_page(1) [OF r(1)] by (simp add: rooted_def Let_def)
  have tok: "table_ok ?s ?r"
    using r root reg by (simp add: table_ok_def free)
  have zero: "slot (mem ?s) ?r j = 0" if "j < 512" for j
  proof (rule ld64_zero)
    fix k :: nat assume "k < 8"
    then have "pgno (?r + 8 * j + of_nat k) = pgno ?r" using r that by (intro slot_byte_pgno)
    then show "mem ?s (?r + 8 * j + of_nat k) = 0"
      using filled_page(2) [OF r(1)] by (simp add: rooted_def Let_def)
  qed
  show "tables_ok ?s ?r" by (rule blank_root(1) [OF pok tok zero])
  show "translation (mem ?s) (hhdm_offset s) ?r v = None"
    using blank_root(2) [OF pok tok zero] by simp
  show "table_page ?s ?r x \<longleftrightarrow> pgno x = pgno ?r" "paths ?s ?r = {}"
    using blank_root(3,4) [OF pok tok zero] by simp_all
qed

lemma boot_loops:
  assumes ok: "vmm_ok (kernel_pm s) s" and ends: "list_all entry_ends (memmap s)"
  shows "Option.bind (map_entries (memmap s) s) (\<lambda>s5.
     Option.bind (map_section kv kp PTE_BIT_PRESENT
       (ALIGN_DOWN (text_start_sym img) PAGE_SIZE) (ALIGN_UP (text_end_sym img) PAGE_SIZE) s5) (\<lambda>s6.
     Option.bind (map_section kv kp (PTE_BIT_PRESENT OR PTE_BIT_EXECUTE_DISABLE)
       (ALIGN_DOWN (rodata_start_sym img) PAGE_SIZE) (ALIGN_UP (rodata_end_sym img) PAGE_SIZE) s6) (\<lambda>s7.
     Option.bind (map_section kv kp (PTE_BIT_PRESENT OR PTE_BIT_READ_WRITE OR PTE_BIT_EXECUTE_DISABLE)
       (ALIGN_DOWN (data_start_sym img) PAGE_SIZE) (ALIGN_UP (data_end_sym img) PAGE_SIZE) s7) g))) =
     Option.bind (aspace.map_pages (kernel_pm s)
       (boot_requests img kv kp (hhdm_offset s) (memmap s)) s) g"
proof -
  let ?pm = "kernel_pm s"
  have sect: "map_section kv kp f (ALIGN_DOWN a PAGE_SIZE) (ALIGN_UP b PAGE_SIZE) t =
      aspace.map_pages ?pm (section_requests kv kp f (ALIGN_DOWN a PAGE_SIZE) (ALIGN_UP b PAGE_SIZE)) t"
    if "same_globals s t" "vmm_ok ?pm t" for f a b t
    using map_section_requests [of t, OF _ aligned_loop_ends] that
    by (simp add: same_globals_def)
  have entries: "map_entries (memmap s) s =
      aspace.map_pages ?pm (concat (map (entry_requests (hhdm_offset s)) (memmap s))) s"
    using map_entries_requests [OF ok] ends by simp
  obtain s5 where s5: "map_entries (memmap s) s = Some s5" "same_globals s s5" "vmm_ok ?pm s5"
    using map_pages_some [OF ok] map_pages_globals [OF _ ok] entries by metis
  have next_section: "\<exists>u. map_section kv kp f (ALIGN_DOWN a PAGE_SIZE) (ALIGN_UP b PAGE_SIZE) t = Some u \<and>
      same_globals s u \<and> vmm_ok ?pm u" if "same_globals s t" "vmm_ok ?pm t" for f a b t
    using map_pages_some [OF that(2)] map_pages_globals [OF _ that(2)] sect [OF that]
      same_globals_trans [OF that(1)] by metis
  obtain s6 where s6: "map_section kv kp PTE_BIT_PRESENT (ALIGN_DOWN (text_start_sym img) PAGE_SIZE)
      (ALIGN_UP (text_end_sym img) PAGE_SIZE) s5 = Some s6" "same_globals s s6" "vmm_ok ?pm s6"
    using next_section [OF s5(2,3)] by blast
  obtain s7 where s7: "map_section kv kp (PTE_BIT_PRESENT OR PTE_BIT_EXECUTE_DISABLE)
      (ALIGN_DOWN (rodata_start_sym img) PAGE_SIZE) (ALIGN_UP (rodata_end_sym img) PAGE_SIZE) s6 = Some s7"
      "same_globals s s7" "vmm_ok ?pm s7"
    using next_section [OF s6(2,3)] by blast
  show ?thesis
    using s5(1) s6(1) s7(1) entries sect [OF s5(2,3)] sect [OF s6(2,3)] sect [OF s7(2,3)]
    by (simp add: boot_requests_def aspace.map_pages_append)
qed

text \<open>
  The whole of \<open>vmm_init\<close> on a state with a free frame: the address space it builds when the
  frames suffice for the tables, the frames it leaves, and what it does not touch.
\<close>

lemma vmm_init_builds:
  fixes img :: kernel_image
  assumes "pmm_ok s" "locked (map_lock s) = 0" "kv \<noteq> 0" "kp \<noteq> 0"
    and fl: "free_list s = fs @ [root]" and ends: "list_all entry_ends (memmap s)"
  defines "reqs \<equiv> boot_requests img kv kp (hhdm_offset s) (memmap s)"
  shows "\<exists>s'. vmm_init cpuid img kv kp s = Some (0, s') \<and>
    kernel_pm s' = \<lparr>pml4 = root + hhdm_offset s\<rparr> \<and> cr3 s' = root \<and> vmm_ok (kernel_pm s') s' \<and>
    hhdm_offset s' = hhdm_offset s \<and> stack_region s' = stack_region s \<and> vmm_state.more s' = vmm_state.more s \<and>
    (\<forall>x. table_page s' (root + hhdm_offset s) x \<longrightarrow> (\<exists>q \<in> set (free_list s). pgno x = pgno (q + hhdm_offset s))) \<and>
    (\<forall>x. \<not> table_page s' (root + hhdm_offset s) x \<longrightarrow> mem s' x = mem s x) \<and>
    (tables_needed reqs \<le> length fs \<longrightarrow>
      space (kernel_pm s') s' = fold (\<lambda>(v, p, f). page_set v (p OR f)) reqs (\<lambda>_. None) \<and>
      free_list s' = take (length fs - tables_needed reqs) fs \<and> klog s' = klog s)"
proof -
  obtain eax ebx ecx edx where cpu: "cpuid 0x80000008 = (eax, ebx, ecx, edx)"
    by (cases "cpuid 0x80000008") auto
  define r where "r = rooted (ucast (eax AND 0xFF)) (ucast (drop_bit 8 eax AND 0xFF)) root s"
  let ?r = "root + hhdm_offset s"
  let ?pm = "\<lparr>pml4 = ?r\<rparr>"
  note R = rooted_ok [OF assms(1) fl, where pw = "ucast (eax AND 0xFF)" and
      lw = "ucast (drop_bit 8 eax AND 0xFF)", folded r_def]
  have simps: "kernel_pm r = ?pm" "map_lock r = map_lock s" "hhdm_offset r = hhdm_offset s"
    "memmap r = memmap s" "vmm_state.more r = vmm_state.more s"
    by (simp_all add: r_def)
  have log: "klog r = klog s" by (simp add: r_def rooted_def)
  have ok: "vmm_ok ?pm r"
    using R(1) assms(2) simps by (simp add: vmm_ok_def)
  obtain u where u: "aspace.map_pages ?pm reqs r = Some u"
    "card (set (request_tables reqs)) \<le> length (free_list r) \<longrightarrow>
       space ?pm u = fold (\<lambda>(v, p, f). page_set v (p OR f)) reqs (space ?pm r) \<and>
       paths u ?r = set (request_tables reqs) \<and> klog u = klog s"
    using aspace.map_pages_ok [OF ok, of reqs] by (auto simp: R(4) log simp del: length_free_list)
  have ext: "extended ?pm r u" by (rule map_pages_extended [OF u(1) ok])
  have ug: "kernel_pm u = ?pm" "hhdm_offset u = hhdm_offset s" "stack_region u = stack_region s"
    "vmm_state.more u = vmm_state.more s"
    using extendedD(2) [OF ext] simps R(6) by (simp_all add: same_globals_def)
  let ?s' = "tlb_flush (vmm_set_pm (kernel_pm u) u)"
  have root: "root \<noteq> 0" using assms(1) fl by (auto simp: pmm_ok_def frame_ok_def)
  have "pmm_request_pages 1 (s\<lparr>physical_address_width := pw, linear_address_width := lw\<rparr>) =
      (root, popped 1 (s\<lparr>physical_address_width := pw, linear_address_width := lw\<rparr>))" for pw lw
    using request_some [of 1 "s\<lparr>physical_address_width := pw, linear_address_width := lw\<rparr>"] fl
    by (simp add: nth_append)
  then have "vmm_init cpuid img kv kp s =
      Option.bind (aspace.map_pages ?pm reqs r) (\<lambda>u. Some (0, tlb_flush (vmm_set_pm (kernel_pm u) u)))"
    using assms(3,4) cpu root boot_loops [of r kv kp img] ok ends simps
    by (simp add: vmm_init_def get_cpuid_def Let_def memset_filled r_def rooted_def reqs_def)
  then have init: "vmm_init cpuid img kv kp s = Some (0, ?s')" using u(1) by simp
  have blank: "space ?pm r = (\<lambda>_. None)" using R(2) simps by (simp add: space_def fun_eq_iff)
  have list: "free_list ?s' = free_list u" by (simp add: vmm_set_pm_def tlb_flush_def)
  have built: "space ?pm u = fold (\<lambda>(v, p, f). page_set v (p OR f)) reqs (\<lambda>_. None) \<and>
      free_list u = take (length fs - tables_needed reqs) fs \<and> klog u = klog s" if "tables_needed reqs \<le> length fs"
  proof -
    have "space ?pm u = fold (\<lambda>(v, p, f). page_set v (p OR f)) reqs (space ?pm r)"
      "paths u ?r = set (request_tables reqs)" "klog u = klog s"
      using u(2) that by (simp_all only: R(3) tables_needed_card)
    moreover obtain gs where gs: "fs = free_list u @ gs" using extendedD(8) [OF ext] by (auto simp: R(3))
    ultimately have "length fs = length (free_list u) + tables_needed reqs"
      using extendedD(5) [OF ext] by (simp only: R(3,4) pagemap_t.simps card.empty add_0_right tables_needed_card)
    with gs \<open>space ?pm u = _\<close> \<open>klog u = _\<close> show ?thesis by (simp add: blank del: length_free_list)
  qed
  have pages: "\<exists>q \<in> set (free_list s). pgno x = pgno (q + hhdm_offset s)" if "table_page u ?r x" for x
    using extendedD(6) [OF ext, of x] that R(3,5) simps(3) fl by auto
  have frame: "mem u x = mem s x" if "\<not> table_page u ?r x" for x
  proof -
    have "\<not> table_page r ?r x" using ext that by (auto simp: extended_def)
    then show ?thesis using extendedD(7) [OF ext, of x] that R(5,7) by simp
  qed
  have "vmm_ok ?pm ?s'" "space ?pm ?s' = space ?pm u" "kernel_pm ?s' = ?pm" "cr3 ?s' = root"
    "hhdm_offset ?s' = hhdm_offset s" "stack_region ?s' = stack_region s" "vmm_state.more ?s' = vmm_state.more s"
    "table_page ?s' = table_page u" "mem ?s' = mem u" "klog ?s' = klog u"
    using extendedD(1) [OF ext] ug
    by (simp_all add: vmm_ok_def space_def fun_eq_iff vmm_set_pm_def tlb_flush_def)
  with init built pages frame list show ?thesis by (intro exI [of _ ?s']) simp
qed

end
