(* ===== verification/VmmProps.thy ===== *)
theory VmmProps
  imports VmmInit PmmProps
begin

text \<open>
  The properties of the virtual memory manager, each with a concrete witness. \<open>demo_vmm\<close> is
  a state with a blank kernel page map and seven free frames.
\<close>

section \<open>An example state\<close>

definition demo_vmm :: vmm_state where
  "demo_vmm = pm_push_list [0x1000, 0x2000, 0x3000, 0x4000, 0x5000, 0x6000, 0x7000]
     \<lparr>mem = (\<lambda>_. 0), pm_stack = 0xffff800000010000, pm_stack_idx = 0, pm_stack_count = 0,
      pm_free_pages = 7, pm_used_pages = 0, pm_total_pages = 8,
      hhdm_offset = 0xffff800000000000, memmap = [], klog = [],
      kernel_pm = \<lparr>pml4 = 0xffff800000020000\<rparr>,
      physical_address_width = 48, linear_address_width = 48,
      map_lock = SPINLOCK_INIT, cr3 = 0, tlb_flushes = 0\<rparr>"

abbreviation demo_pm :: pagemap_t where
  "demo_pm \<equiv> \<lparr>pml4 = 0xffff800000020000\<rparr>"

lemma pm_push_vmm [simp]:
  "kernel_pm (pm_push q s) = kernel_pm s" "map_lock (pm_push q s) = map_lock s"
  "cr3 (pm_push q s) = cr3 s" "tlb_flushes (pm_push q s) = tlb_flushes s"
  "physical_address_width (pm_push q s) = physical_address_width s"
  "linear_address_width (pm_push q s) = linear_address_width s"
  by (simp_all add: pm_push_def)

lemma pm_push_list_vmm [simp]:
  "kernel_pm (pm_push_list vs s) = kernel_pm s" "map_lock (pm_push_list vs s) = map_lock s"
  "cr3 (pm_push_list vs s) = cr3 s" "tlb_flushes (pm_push_list vs s) = tlb_flushes s"
  "physical_address_width (pm_push_list vs s) = physical_address_width s"
  "linear_address_width (pm_push_list vs s) = linear_address_width s"
  by (induction vs arbitrary: s) simp_all

lemma demo_vmm_simps [simp]:
  "pm_stack_idx demo_vmm = 7" "pm_total_pages demo_vmm = 8"
  "hhdm_offset demo_vmm = 0xffff800000000000" "memmap demo_vmm = []"
  "kernel_pm demo_vmm = demo_pm" "map_lock demo_vmm = SPINLOCK_INIT"
  "physical_address_width demo_vmm = 48" "pm_stack demo_vmm = 0xffff800000010000"
  by (simp_all add: demo_vmm_def)

lemma demo_stack_region: "stack_region demo_vmm = {0xffff800000010}"
  using stack_region_stocked by (simp add: stack_region_def)

lemma demo_vmm_lists:
  "free_list demo_vmm = [0x1000, 0x2000, 0x3000, 0x4000, 0x5000, 0x6000, 0x7000]" (is ?free)
  "stack_wf demo_vmm"
  "pgno x \<noteq> 0xffff800000010 \<Longrightarrow> mem demo_vmm x = 0" (is "_ \<Longrightarrow> ?mem")
proof -
  let ?s = "\<lparr>mem = (\<lambda>_. 0), pm_stack = 0xffff800000010000, pm_stack_idx = 0, pm_stack_count = 0,
      pm_free_pages = 7, pm_used_pages = 0, pm_total_pages = 8,
      hhdm_offset = 0xffff800000000000, memmap = [], klog = [],
      kernel_pm = \<lparr>pml4 = 0xffff800000020000\<rparr>,
      physical_address_width = 48, linear_address_width = 48,
      map_lock = SPINLOCK_INIT, cr3 = 0, tlb_flushes = 0\<rparr> :: vmm_state"
  have "stack_wf ?s" by (simp add: stack_wf_def aligned_dvd)
  note spec = push_list_spec [OF this,
      of "[0x1000, 0x2000, 0x3000, 0x4000, 0x5000, 0x6000, 0x7000]", folded demo_vmm_def]
  have "free_list ?s = []" by (simp add: free_list_def)
  with spec(1,2) show ?free "stack_wf demo_vmm" by simp_all
  have "stack_region ?s = stack_region demo_vmm" by (simp add: stack_region_def)
  then show ?mem if "pgno x \<noteq> 0xffff800000010"
    using spec(3) [of x] that demo_stack_region by simp
qed

lemma demo_frames: "pmm_ok demo_vmm"
  using demo_vmm_lists(2)
  by (simp add: pmm_ok_def demo_vmm_lists(1) frame_ok_def demo_stack_region aligned_dvd pgno_def)

lemma demo_root_table: "table_ok demo_vmm 0xffff800000020000"
  by (simp add: table_ok_def demo_vmm_lists(1) demo_stack_region aligned_dvd pgno_def)

lemma demo_root_blank: "j < 512 \<Longrightarrow> slot (mem demo_vmm) 0xffff800000020000 j = 0"
proof (rule ld64_zero)
  fix k :: nat assume "j < 512" "k < 8"
  then have "pgno (0xffff800000020000 + 8 * j + of_nat k) = pgno (0xffff800000020000 :: u64)"
    by (intro slot_byte_pgno) (simp_all add: aligned_dvd)
  then show "mem demo_vmm (0xffff800000020000 + 8 * j + of_nat k) = 0"
    by (intro demo_vmm_lists(3)) (simp add: pgno_def)
qed

lemma demo_vmm_ok:
  "vmm_ok demo_pm demo_vmm" "space demo_pm demo_vmm v = None"
  "table_page demo_vmm 0xffff800000020000 x \<longleftrightarrow> pgno x = 0xffff800000020"
  using blank_root [OF demo_frames demo_root_table demo_root_blank]
  by (simp_all add: vmm_ok_def space_def SPINLOCK_INIT_def pgno_def)

lemma space_same_page: "same_page v w \<Longrightarrow> space pm s w = space pm s v"
  using translation_same_page [of v w] by (simp add: space_def)

text \<open>The example with one page mapped.\<close>

lemma demo_mapped:
  obtains s where "vmm_map demo_pm 0x400000 0x9000 3 demo_vmm = Some s" "vmm_ok demo_pm s"
    "same_globals demo_vmm s" "space demo_pm s 0x400000 = Some 0x9003"
    "set (free_list s) \<subseteq> {0x1000, 0x2000, 0x3000, 0x4000, 0x5000, 0x6000, 0x7000}"
    "length (free_list s) \<le> 7" "\<not> table_page s 0xffff800000020000 0xffff800000009000"
proof -
  obtain s where s: "vmm_map demo_pm 0x400000 0x9000 3 demo_vmm = Some s" "extended demo_pm demo_vmm s"
    "if missing_tables demo_pm 0x400000 demo_vmm \<le> length (free_list demo_vmm)
     then space demo_pm s = page_set 0x400000 (0x9000 OR 3) (space demo_pm demo_vmm) else True"
    using vmm_map_outcome [OF demo_vmm_ok(1), where v = "0x400000" and p = "0x9000" and f = 3] by metis
  note X = extendedD [OF s(2)]
  have "length (free_list s) \<le> length (free_list demo_vmm)"
    using X(8) by (auto simp del: length_free_list)
  then have len: "length (free_list s) \<le> 7" unfolding demo_vmm_lists(1) by simp
  have "missing_tables demo_pm 0x400000 demo_vmm \<le> length (free_list demo_vmm)"
    using missing_tables_card(2) [of demo_pm "0x400000" demo_vmm] unfolding demo_vmm_lists(1) by simp
  then have "space demo_pm s 0x400000 = Some 0x9003"
    using s(3) by (simp add: page_set_def entry_of_def present_bit)
  moreover have "\<not> table_page s 0xffff800000020000 0xffff800000009000"
    using X(6) [of "0xffff800000009000"] by (auto simp: demo_vmm_ok(3) demo_vmm_lists(1) pgno_def)
  moreover have "set (free_list s) \<subseteq> {0x1000, 0x2000, 0x3000, 0x4000, 0x5000, 0x6000, 0x7000}"
    using X(3) unfolding demo_vmm_lists(1) by simp
  ultimately show thesis using that s(1) X(1,2) len by blast
qed

lemma same_globals_frame:
  "same_globals s s' \<Longrightarrow> frame_ok s' = frame_ok s"
  by (simp add: same_globals_def frame_ok_def fun_eq_iff)

section \<open>Map and unmap\<close>

text \<open>
  C2. \<open>vmm_map\<close> refines the update of a function from pages to entries. In every good state
  it returns, with the lock free again and the invariant kept. Exactly when the free frames
  suffice for the tables missing on the way to \<open>virt\<close>, its page is set to \<open>phys | flags\<close> (and
  the TLB flushed once), with every other page's translation as before, and one frame is gone
  for each missing table, and nothing is logged; otherwise no translation has changed, the
  frames are used up, and the failure is logged by every function on the way.
  Only bytes of page tables are written, and every new table is a frame that was free.
\<close>

theorem vmm_map_refines:
  assumes "vmm_ok pm s"
  shows "\<exists>s'. vmm_map pm v p f s = Some s' \<and> vmm_ok pm s' \<and> same_globals s s' \<and>
    (if missing_tables pm v s \<le> length (free_list s)
     then space pm s' = page_set v (p OR f) (space pm s) \<and> tlb_flushes s' = Suc (tlb_flushes s) \<and>
       length (free_list s) = length (free_list s') + missing_tables pm v s \<and> klog s' = klog s
     else space pm s' = space pm s \<and> tlb_flushes s' = tlb_flushes s \<and> free_list s' = [] \<and>
       klog s' = klog s @ map_failure) \<and>
    set (free_list s') \<subseteq> set (free_list s) \<and>
    (\<forall>x. table_page s' (pml4 pm) x \<longrightarrow> table_page s (pml4 pm) x \<or>
       (\<exists>q \<in> set (free_list s). pgno x = pgno (q + hhdm_offset s))) \<and>
    (\<forall>x. \<not> table_page s' (pml4 pm) x \<longrightarrow> mem s' x = mem s x)"
proof -
  obtain s' where s': "vmm_map pm v p f s = Some s'" "extended pm s s'"
    "if missing_tables pm v s \<le> length (free_list s)
     then space pm s' = page_set v (p OR f) (space pm s) \<and> tlb_flushes s' = Suc (tlb_flushes s) \<and>
       length (free_list s) = length (free_list s') + missing_tables pm v s \<and> klog s' = klog s
     else space pm s' = space pm s \<and> tlb_flushes s' = tlb_flushes s \<and> free_list s' = [] \<and>
       klog s' = klog s @ map_failure"
    using vmm_map_outcome [OF assms, of v p f] by metis
  show ?thesis using s'(1,3) extendedD(1-3,6,7) [OF s'(2)] by blast
qed

lemma vmm_map_refines_witness:
  "\<exists>s'. vmm_map demo_pm 0x400000 0x9000 3 demo_vmm = Some s' \<and>
     space demo_pm s' 0x400123 = Some 0x9003 \<and> space demo_pm s' 0x401000 = None"
proof -
  have "missing_tables demo_pm 0x400000 demo_vmm \<le> length (free_list demo_vmm)"
    using missing_tables_card(2) [of demo_pm "0x400000" demo_vmm] unfolding demo_vmm_lists(1) by simp
  with vmm_map_refines [OF demo_vmm_ok(1), where v = "0x400000" and p = "0x9000" and f = 3]
  obtain s' where "vmm_map demo_pm 0x400000 0x9000 3 demo_vmm = Some s'"
    "space demo_pm s' = page_set 0x400000 (0x9000 OR 3) (space demo_pm demo_vmm)" by auto
  moreover have "same_page 0x400000 0x400123" "\<not> same_page 0x400000 0x401000"
    by (simp_all add: same_page_def table_path_def table_index_def)
  ultimately show ?thesis by (simp add: page_set_def demo_vmm_ok(2) entry_of_def present_bit)
qed

text \<open>
  C13. \<open>vmm_unmap\<close> without freeing refines taking the page out of the address space: it
  always returns with the lock free, the translation of \<open>virt\<close> gone, every other one kept,
  no frame taken or returned, nothing logged, and its result tells whether a page table for the address
  existed; when none did, the whole state is unchanged.
\<close>

theorem vmm_unmap_refines:
  assumes "vmm_ok pm s"
  shows "\<exists>r s'. vmm_unmap pm v False s = Some (Ret r s') \<and> vmm_ok pm s' \<and> same_globals s s' \<and>
    space pm s' = page_cleared v (space pm s) \<and> free_list s' = free_list s \<and> klog s' = klog s \<and>
    (r \<longleftrightarrow> walk (mem s) (hhdm_offset s) (pml4 pm) (table_path v) \<noteq> None) \<and>
    (\<not> r \<longrightarrow> s' = s) \<and>
    (\<forall>x. \<not> table_page s (pml4 pm) x \<longrightarrow> mem s' x = mem s x)"
proof (cases "walk (mem s) (hhdm_offset s) (pml4 pm) (table_path v)")
  case None
  have "page_cleared v (space pm s) = space pm s"
    using vmm_unmap_absent(2) [OF assms None] translation_same_page
    by (auto simp: page_cleared_def space_def fun_eq_iff)
  with None assms vmm_unmap_absent(1) [OF assms None] show ?thesis
    by (intro exI [of _ False] exI [of _ s]) simp
next
  case (Some pt)
  with vmm_unmap_present(1) [OF assms Some] unmapped_spec [OF assms Some] show ?thesis
    by (intro exI [of _ True] exI [of _ "unmapped pt v s"]) (simp add: unmapped_def tlb_flush_def)
qed

lemma vmm_unmap_refines_witness:
  "\<exists>s'. vmm_unmap demo_pm 0x400000 False demo_vmm = Some (Ret False s') \<and>
     space demo_pm s' 0x400000 = None \<and> free_list s' = free_list demo_vmm"
proof -
  have "walk (mem demo_vmm) h 0xffff800000020000 (table_path 0x400000) = None" for h
    using demo_root_blank [OF table_index_less]
    by (simp add: table_path_def next_table_def del: walk.simps(1))
  then show ?thesis
    using vmm_unmap_refines [OF demo_vmm_ok(1), where v = "0x400000"] by (auto simp: demo_vmm_ok(2))
qed

text \<open>
  The physical frame of a present page goes back to the free list. Pushing it writes only to
  the page stack, so no table changes.
\<close>

lemma walk_mem_cong:
  assumes "tables_ok s root" "\<And>x. table_page s root x \<Longrightarrow> m' x = mem s x" "valid_path qs"
  shows "walk m' (hhdm_offset s) root qs = walk (mem s) (hhdm_offset s) root qs"
  using assms(3)
proof (induction qs rule: rev_induct)
  case (snoc j rs)
  note valid = valid_path_snocD [OF snoc.prems]
  show ?case
  proof (cases "walk (mem s) (hhdm_offset s) root rs")
    case (Some u)
    have "aligned u" using tables_okD(2) [OF assms(1) _ Some] valid by (simp add: table_ok_def)
    then have "slot m' u j = slot (mem s) u j"
      using valid Some by (intro ld64_slot_frame assms(2)) (auto simp: table_page_def)
    then show ?thesis using snoc.IH valid Some by (simp add: walk_snoc next_table_def)
  qed (use snoc.IH valid in \<open>simp add: walk_snoc\<close>)
qed simp

lemma translation_mem_cong:
  assumes "tables_ok s root" "\<And>x. table_page s root x \<Longrightarrow> m' x = mem s x"
  shows "translation m' (hhdm_offset s) root v = translation (mem s) (hhdm_offset s) root v"
proof (cases "walk (mem s) (hhdm_offset s) root (table_path v)")
  case (Some u)
  have "aligned u" using tables_okD(2) [OF assms(1) _ Some] by (simp add: table_ok_def)
  moreover have "table_page s root x" if "pgno x = pgno u" for x
    using Some that valid_path_simps(2) [of v] unfolding table_page_def by blast
  ultimately have "slot m' u (table_index 12 v) = slot (mem s) u (table_index 12 v)"
    by (intro ld64_slot_frame assms(2)) auto
  with Some walk_mem_cong [OF assms valid_path_simps(2), of v] show ?thesis
    by (simp add: translation_def)
qed (use walk_mem_cong [OF assms valid_path_simps(2), of v] in \<open>simp add: translation_def\<close>)

lemma pushed_frame:
  assumes ok: "tables_ok s root" and p: "frame_ok s p" "p \<notin> set (free_list s)"
    "\<not> table_page s root (p + hhdm_offset s)"
    and room: "length (free_list s) < unat (pm_total_pages s)"
  shows "pmm_free_pages p 1 s = Ret () (pushed p 1 s)"
    and "free_list (pushed p 1 s) = free_list s @ [p]"
    and "tables_ok (pushed p 1 s) root"
    and "walk (mem (pushed p 1 s)) (hhdm_offset s) root (table_path v) =
      walk (mem s) (hhdm_offset s) root (table_path v)"
    and "translation (mem (pushed p 1 s)) (hhdm_offset s) root v =
      translation (mem s) (hhdm_offset s) root v"
proof -
  have pages: "pages_from p (unat (1 :: u64)) = [p]" by (simp add: pages_from_def)
  have room1: "length (free_list s) + unat (1 :: u64) \<le> unat (pm_total_pages s)" using room by simp
  note pok = tables_okD(1) [OF ok]
  then have wf: "stack_wf s" by (simp add: pmm_ok_def)
  note spec = pushed_spec [OF wf room1, where p = p, unfolded pages]
  show "pmm_free_pages p 1 s = Ret () (pushed p 1 s)"
    using p(1) by (intro free_some room1) (auto simp: frame_ok_def)
  show free: "free_list (pushed p 1 s) = free_list s @ [p]" by (rule spec(1))
  have same: "mem (pushed p 1 s) x = mem s x" if "table_page s root x" for x
    using that tables_okD(2) [OF ok] by (intro spec(3)) (auto simp: table_page_def table_ok_def)
  note walk = walk_mem_cong [OF ok same]
  show "walk (mem (pushed p 1 s)) (hhdm_offset s) root (table_path v) =
      walk (mem s) (hhdm_offset s) root (table_path v)" using walk by simp
  show "translation (mem (pushed p 1 s)) (hhdm_offset s) root v =
      translation (mem s) (hhdm_offset s) root v"
    using translation_mem_cong [OF ok same] .
  have "pmm_ok (pushed p 1 s)"
    using p by (intro pmm_ok_pushed [OF pok room1]) (simp_all add: pages_from_def)
  moreover have "table_ok (pushed p 1 s) t"
    if "valid_path qs" "walk (mem s) (hhdm_offset s) root qs = Some t" for qs t
  proof -
    have "t - hhdm_offset s \<noteq> p"
      using that p(3) by (auto simp: table_page_def algebra_simps)
    with tables_okD(2) [OF ok that] show ?thesis by (simp add: table_ok_def free)
  qed
  ultimately show "tables_ok (pushed p 1 s) root"
    using walk tables_okD(3) [OF ok] by (simp add: tables_ok_def)
qed

lemma pushed_vmm [simp]:
  "kernel_pm (pushed p n s) = kernel_pm s" "map_lock (pushed p n s) = map_lock s"
  "cr3 (pushed p n s) = cr3 s" "tlb_flushes (pushed p n s) = tlb_flushes s"
  "physical_address_width (pushed p n s) = physical_address_width s"
  "linear_address_width (pushed p n s) = linear_address_width s"
  by (simp_all add: pushed_def Let_def)

text \<open>
  C23. \<open>vmm_unmap\<close> with \<open>free_phys\<close>: for a page mapped to a frame that is neither free, nor a
  page of the page stack, nor a page table, it returns \<open>true\<close>, the page is gone from the
  address space, and the frame, and only it, is back on the free list; the invariant holds
  again.
\<close>

theorem vmm_unmap_frees:
  assumes ok: "vmm_ok pm s" and e: "space pm s v = Some e" and p: "p = e AND PTE_ADDR"
    and frame: "frame_ok s p" "p \<notin> set (free_list s)"
      "\<not> table_page s (pml4 pm) (p + hhdm_offset s)"
    and room: "length (free_list s) < unat (pm_total_pages s)"
  shows "\<exists>s'. vmm_unmap pm v True s = Some (Ret True s') \<and> vmm_ok pm s' \<and>
    space pm s' = page_cleared v (space pm s) \<and> free_list s' = free_list s @ [p]"
proof -
  obtain pt where pt: "walk (mem s) (hhdm_offset s) (pml4 pm) (table_path v) = Some pt"
    and slot: "slot (mem s) pt (table_index 12 v) = e"
    using e by (auto simp: space_def translation_def entry_of_def split: option.splits if_splits)
  have tok: "tables_ok s (pml4 pm)" and free: "locked (map_lock s) = 0"
    using ok by (simp_all add: vmm_ok_def)
  let ?t = "s\<lparr>map_lock := (map_lock s)\<lparr>locked := 1\<rparr>\<rparr>"
  have f: "frame_ok ?t p" using frame(1) by (simp add: frame_ok_def)
  define u where "u = pushed p 1 ?t"
  have hyps: "tables_ok ?t (pml4 pm)" "p \<notin> set (free_list ?t)"
    "\<not> table_page ?t (pml4 pm) (p + hhdm_offset ?t)"
    "length (free_list ?t) < unat (pm_total_pages ?t)"
    using tok frame(2,3) room by simp_all
  note P = pushed_frame [OF hyps(1) f hyps(2-4), folded u_def]
  have u: "hhdm_offset u = hhdm_offset s" "map_lock u = (map_lock s)\<lparr>locked := 1\<rparr>"
    by (simp_all add: u_def)
  have at: "walk (mem u) (hhdm_offset u) (pml4 pm) (table_path v) = Some pt"
    using P(4) pt u by simp
  note L = leaf_written [OF P(3) at, where e = 0]
  show ?thesis
  proof (intro exI conjI)
    show "vmm_unmap pm v True s = Some (Ret True (unlock_map (unmapped pt v u)))"
      using vmm_unmap_present(2) [OF ok pt] P(1) slot p by simp
    show "vmm_ok pm (unlock_map (unmapped pt v u))"
      using L(1) by (simp add: vmm_ok_def unlock_map_def unmapped_def tlb_flush_def)
    show "space pm (unlock_map (unmapped pt v u)) = page_cleared v (space pm s)"
      using L(2) P(5) u translation_same_page
      by (auto simp: space_def unlock_map_def unmapped_def tlb_flush_def page_cleared_def
          entry_of_def fun_eq_iff)
    show "free_list (unlock_map (unmapped pt v u)) = free_list s @ [p]"
      using L(3) P(2) by (simp add: unlock_map_def unmapped_def tlb_flush_def)
  qed
qed

lemma vmm_unmap_frees_witness:
  "\<exists>s s'. vmm_map demo_pm 0x400000 0x9000 3 demo_vmm = Some s \<and>
     vmm_unmap demo_pm 0x400000 True s = Some (Ret True s') \<and>
     space demo_pm s' 0x400000 = None \<and> free_list s' = free_list s @ [0x9000]"
proof -
  obtain s where s: "vmm_map demo_pm 0x400000 0x9000 3 demo_vmm = Some s" "vmm_ok demo_pm s"
    "same_globals demo_vmm s" "space demo_pm s 0x400000 = Some 0x9003"
    "set (free_list s) \<subseteq> {0x1000, 0x2000, 0x3000, 0x4000, 0x5000, 0x6000, 0x7000}"
    "length (free_list s) \<le> 7" "\<not> table_page s 0xffff800000020000 0xffff800000009000"
    by (rule demo_mapped)
  have g: "hhdm_offset s = 0xffff800000000000" "pm_total_pages s = 8"
    using s(3) by (simp_all add: same_globals_def)
  have addr: "0x9000 = (0x9003 AND PTE_ADDR)" by (simp add: PTE_ADDR_def)
  have frame: "frame_ok s 0x9000"
    using same_globals_frame [OF s(3)]
    by (simp add: frame_ok_def demo_stack_region aligned_dvd pgno_def)
  have "0x9000 \<notin> set (free_list s)" using s(5) by auto
  then have "\<exists>s'. vmm_unmap demo_pm 0x400000 True s = Some (Ret True s') \<and> vmm_ok demo_pm s' \<and>
      space demo_pm s' = page_cleared 0x400000 (space demo_pm s) \<and>
      free_list s' = free_list s @ [0x9000]"
    using s(6,7) g by (intro vmm_unmap_frees [OF s(2,4) addr frame]) simp_all
  with s(1) show ?thesis by (auto simp: page_cleared_def)
qed

text \<open>
  \<open>vmm_unmap\<close> with \<open>free_phys\<close> does not look at the present bit: when the page table for
  the address exists but its entry is zero, the assertion of \<open>pmm_free_pages\<close> on a null
  frame stops the machine, with the lock of the tables held and nothing else changed but the log.
\<close>

lemma vmm_unmap_zero_entry_halts:
  assumes "vmm_ok pm s"
    and "walk (mem s) (hhdm_offset s) (pml4 pm) (table_path v) = Some pt"
    and "slot (mem s) pt (table_index 12 v) = 0"
  shows "vmm_unmap pm v True s = Some (Halt
    (report (assertion_line ''ptr != NULL'') (s\<lparr>map_lock := (map_lock s)\<lparr>locked := 1\<rparr>\<rparr>)))"
  using vmm_unmap_present(2) [OF assms(1,2)] assms(3) by (simp add: pmm_free_pages_def assert_failed_def)

text \<open>The walk to a page table, after that page has been mapped.\<close>

lemma mapped_walk:
  assumes "space pm s v = Some e"
  obtains pt where "walk (mem s) (hhdm_offset s) (pml4 pm) (table_path v) = Some pt"
    "slot (mem s) pt (table_index 12 v) = e" "present e"
  using assms
  by (auto simp: space_def translation_def entry_of_def split: option.splits if_splits)

text \<open>After an unmap the page table is still there, with a zero entry.\<close>

lemma unmapped_entry:
  assumes "vmm_ok pm s" "walk (mem s) (hhdm_offset s) (pml4 pm) (table_path v) = Some pt"
  shows "walk (mem (unmapped pt v s)) (hhdm_offset (unmapped pt v s)) (pml4 pm) (table_path v) = Some pt"
    and "slot (mem (unmapped pt v s)) pt (table_index 12 v) = 0"
proof -
  have ok: "tables_ok s (pml4 pm)" using assms by (simp add: vmm_ok_def)
  show "walk (mem (unmapped pt v s)) (hhdm_offset (unmapped pt v s)) (pml4 pm) (table_path v) = Some pt"
    using leaf_written(6) [OF ok assms(2), where e = 0] by (simp add: unmapped_def tlb_flush_def)
  show "slot (mem (unmapped pt v s)) pt (table_index 12 v) = 0"
    by (simp add: unmapped_def tlb_flush_def leaf_written_def)
qed

text \<open>The example with a page mapped and unmapped again.\<close>

lemma demo_unmapped:
  obtains s :: vmm_state and pt where "vmm_ok demo_pm s"
    "walk (mem s) (hhdm_offset s) (pml4 demo_pm) (table_path 0x400000) = Some pt"
    "slot (mem s) pt (table_index 12 0x400000) = 0" "physical_address_width s = 48"
proof -
  obtain s where s: "vmm_ok demo_pm s" "space demo_pm s 0x400000 = Some 0x9003"
    "same_globals demo_vmm s"
    by (rule demo_mapped)
  obtain pt where pt: "walk (mem s) (hhdm_offset s) (pml4 demo_pm) (table_path 0x400000) = Some pt"
    using mapped_walk [OF s(2)] by blast
  note spec = unmapped_spec [OF s(1) pt]
  show thesis
    using that [of "unmapped pt 0x400000 s" pt] unmapped_entry [OF s(1) pt] spec(1,2) s(3)
    by (simp add: same_globals_def)
qed

lemma vmm_unmap_zero_entry_halts_witness:
  "\<exists>(s :: vmm_state) t. vmm_ok demo_pm s \<and> vmm_unmap demo_pm 0x400000 True s = Some (Halt t) \<and>
     locked (map_lock t) = 1"
proof -
  obtain s :: vmm_state and pt where s: "vmm_ok demo_pm s"
    "walk (mem s) (hhdm_offset s) (pml4 demo_pm) (table_path 0x400000) = Some pt"
    "slot (mem s) pt (table_index 12 0x400000) = 0"
    by (rule demo_unmapped)
  from vmm_unmap_zero_entry_halts [OF s] s(1) show ?thesis by fastforce
qed

text \<open>
  The lock is not recursive: while it is held, neither \<open>vmm_map\<close> nor \<open>vmm_unmap\<close> returns,
  whatever the page map and the arguments; \<open>virt2phys\<close> takes no lock and never changes the
  state it reads.
\<close>

lemma vmm_spins_while_locked:
  "(vmm_map pm v p f s = None \<longleftrightarrow> locked (map_lock s) \<noteq> 0) \<and>
   (vmm_unmap pm v fp s = None \<longleftrightarrow> locked (map_lock s) \<noteq> 0) \<and>
   virt2phys pm v (s\<lparr>map_lock := l\<rparr>) = virt2phys pm v s"
proof -
  have read: "get_below_pml t i False u =
      (if present (slot (mem u) t i) then (slot (mem u) t i AND PTE_ADDR) + hhdm_offset u else 0, u)"
    for t i and u :: "'a vmm_state_scheme"
    by (simp add: get_below_pml_def present_def)
  have "virt2phys pm v (s\<lparr>map_lock := l\<rparr>) = virt2phys pm v s"
    by (simp add: virt2phys_def pml4_to_pt_def read Let_def)
  moreover have "vmm_map pm v p f s = None \<longleftrightarrow> locked (map_lock s) \<noteq> 0"
    by (simp add: vmm_map_def acquire_eq Let_def split: prod.splits)
  moreover have "vmm_unmap pm v fp s = None \<longleftrightarrow> locked (map_lock s) \<noteq> 0"
    by (simp add: vmm_unmap_def acquire_eq Let_def split: prod.splits outcome.splits)
  ultimately show ?thesis by simp
qed

section \<open>Translation\<close>

lemma virt2phys_walk:
  assumes "vmm_ok pm s"
  shows "virt2phys pm v s =
    (case walk (mem s) (hhdm_offset s) (pml4 pm) (table_path v) of
       None \<Rightarrow> 0
     | Some pt \<Rightarrow>
         (slot (mem s) pt (table_index 12 v) AND address_mask (physical_address_width s)) OR (v AND 0xFFF))"
proof -
  have ok: "tables_ok s (pml4 pm)" using assms by (simp add: vmm_ok_def)
  note read = descend_read [OF ok, of v]
  then show ?thesis
    by (cases "walk (mem s) (hhdm_offset s) (pml4 pm) (table_path v)") (auto simp: virt2phys_def)
qed

lemma address_mask_bits: "bit (address_mask w) n \<longleftrightarrow> n < 64 \<and> 12 \<le> n \<and> n < unat w"
proof -
  have low: "(push_bit (unat w) 1 - 1 :: u64) = mask (unat w)"
    by (simp add: mask_eq_exp_minus_1 push_bit_of_1)
  have high: "NOT (0xFFF :: u64) = push_bit 12 (mask 52)"
    by (simp add: mask_eq_exp_minus_1)
  show ?thesis unfolding address_mask_def low high by (auto simp: bit_simps)
qed

lemma frame_mask:
  assumes "aligned p" "unat p < 2 ^ unat w" "f AND address_mask w = 0"
  shows "(p OR f) AND address_mask w = p"
proof -
  have "(p OR f) AND address_mask w = p AND address_mask w"
    using assms(3) by (simp only: and.commute [of _ "address_mask w"] bit.conj_disj_distrib) simp
  also have "\<dots> = p"
    by (rule bit_word_eqI)
       (use frame_bits [OF assms(1,2)] in \<open>auto simp: bit_and_iff address_mask_bits\<close>)
  finally show ?thesis .
qed

text \<open>
  C29. \<open>virt2phys\<close> inverts a mapping: where a page is mapped to an aligned frame below the
  physical address width, with flags outside the address field, it returns the frame with
  the offset of the address; where no page table exists it returns null.
\<close>

theorem virt2phys_correct:
  assumes "vmm_ok pm s"
  shows "(\<forall>p f. space pm s v = Some (p OR f) \<and> aligned p \<and>
      unat p < 2 ^ unat (physical_address_width s) \<and>
      f AND address_mask (physical_address_width s) = 0
      \<longrightarrow> virt2phys pm v s = p OR (v AND 0xFFF)) \<and>
    (walk (mem s) (hhdm_offset s) (pml4 pm) (table_path v) = None \<longrightarrow> virt2phys pm v s = 0)"
proof (intro conjI allI impI)
  fix p f
  assume h: "space pm s v = Some (p OR f) \<and> aligned p \<and>
      unat p < 2 ^ unat (physical_address_width s) \<and>
      f AND address_mask (physical_address_width s) = 0"
  then obtain pt where "walk (mem s) (hhdm_offset s) (pml4 pm) (table_path v) = Some pt"
    "slot (mem s) pt (table_index 12 v) = p OR f"
    using mapped_walk by metis
  with h frame_mask show "virt2phys pm v s = p OR (v AND 0xFFF)"
    by (simp only: virt2phys_walk [OF assms] option.case)
next
  assume "walk (mem s) (hhdm_offset s) (pml4 pm) (table_path v) = None"
  then show "virt2phys pm v s = 0" by (simp add: virt2phys_walk [OF assms])
qed

lemma virt2phys_correct_witness:
  "\<exists>s. vmm_map demo_pm 0x400000 0x9000 3 demo_vmm = Some s \<and> virt2phys demo_pm 0x400123 s = 0x9123"
proof -
  obtain s where s: "vmm_map demo_pm 0x400000 0x9000 3 demo_vmm = Some s" "vmm_ok demo_pm s"
    "same_globals demo_vmm s" "space demo_pm s 0x400000 = Some 0x9003"
    by (rule demo_mapped)
  have "same_page 0x400000 0x400123" by (simp add: same_page_def table_path_def table_index_def)
  then have "space demo_pm s 0x400123 = Some (0x9000 OR 3)"
    using s(4) by (simp add: space_same_page [of "0x400000" "0x400123"])
  moreover have "physical_address_width s = 48" using s(3) by (simp add: same_globals_def)
  moreover have mask: "3 AND address_mask 48 = 0" by (simp add: address_mask_def)
  ultimately have "virt2phys demo_pm 0x400123 s = 0x9000 OR (0x400123 AND 0xFFF)"
    by (intro virt2phys_correct [OF s(2), THEN conjunct1, rule_format, where f = 3])
       (simp add: aligned_dvd)
  with s(1) show ?thesis by simp
qed

text \<open>
  \<open>virt2phys\<close> does not look at the present bit of the last entry: for an address that
  was mapped and unmapped again it returns the offset within the page, which for every
  address that is not page aligned is a non-null "physical address".
\<close>

lemma virt2phys_after_unmap:
  assumes "vmm_ok pm s" "space pm s v \<noteq> None"
  shows "\<exists>s'. vmm_unmap pm v False s = Some (Ret True s') \<and> space pm s' v = None \<and>
    virt2phys pm v s' = v AND 0xFFF"
proof -
  obtain pt where pt: "walk (mem s) (hhdm_offset s) (pml4 pm) (table_path v) = Some pt"
    using assms(2) mapped_walk by blast
  note spec = unmapped_spec [OF assms(1) pt] and at = unmapped_entry [OF assms(1) pt]
  have "virt2phys pm v (unmapped pt v s) = v AND 0xFFF"
    using at by (simp add: virt2phys_walk [OF spec(1)])
  then show ?thesis
    using vmm_unmap_present(1) [OF assms(1) pt] spec(3) by (simp add: page_cleared_def)
qed

lemma virt2phys_after_unmap_witness:
  "\<exists>s s'. vmm_map demo_pm 0x400000 0x9000 3 demo_vmm = Some s \<and>
     vmm_unmap demo_pm 0x400123 False s = Some (Ret True s') \<and> virt2phys demo_pm 0x400123 s' = 0x123"
proof -
  obtain s where s: "vmm_map demo_pm 0x400000 0x9000 3 demo_vmm = Some s" "vmm_ok demo_pm s"
    "space demo_pm s 0x400000 = Some 0x9003"
    by (rule demo_mapped)
  have "same_page 0x400000 0x400123" by (simp add: same_page_def table_path_def table_index_def)
  then have "space demo_pm s 0x400123 \<noteq> None"
    using s(3) by (simp add: space_same_page [of "0x400000" "0x400123"])
  from virt2phys_after_unmap [OF s(2) this] s(1) show ?thesis by auto
qed

section \<open>Initialisation\<close>

text \<open>
  C9. \<open>vmm_init\<close> builds the kernel address space. When a frame for the root table is free and
  no mapping loop wraps round, it returns \<open>0\<close> with that root loaded in CR3 and the invariant
  established; and when the other frames suffice for the tables that its requests need (one
  for each different prefix of their paths), the address space is exactly that of the requests,
  later ones over earlier ones, over an empty one, just those frames are gone from the top
  of the free list, and nothing is logged.
\<close>

theorem vmm_init_refines:
  fixes img :: kernel_image
  assumes "pmm_ok s" "locked (map_lock s) = 0" "kv \<noteq> 0" "kp \<noteq> 0"
    and "free_list s = fs @ [root]" "list_all entry_ends (memmap s)"
  shows "\<exists>s'. vmm_init cpuid img kv kp s = Some (0, s') \<and>
    kernel_pm s' = \<lparr>pml4 = root + hhdm_offset s\<rparr> \<and> cr3 s' = root \<and>
    vmm_ok (kernel_pm s') s' \<and>
    (tables_needed (boot_requests img kv kp (hhdm_offset s) (memmap s)) \<le> length fs \<longrightarrow>
      space (kernel_pm s') s' = fold (\<lambda>(v, p, f). page_set v (p OR f))
        (boot_requests img kv kp (hhdm_offset s) (memmap s)) (\<lambda>_. None) \<and>
      free_list s' = take (length fs - tables_needed (boot_requests img kv kp (hhdm_offset s) (memmap s))) fs \<and>
      klog s' = klog s)"
  using vmm_init_builds [OF assms, of cpuid img] by blast

text \<open>
  C34. \<open>vmm_init\<close> refuses null kernel addresses and an empty free list with the result \<open>1\<close>,
  without touching memory, CR3 or the free list, and logs which of them it was.
\<close>

theorem vmm_init_fails:
  assumes "kv = 0 \<or> kp = 0 \<or> free_list s = []"
  shows "\<exists>s'. vmm_init cpuid img kv kp s = Some (1, s') \<and>
    mem s' = mem s \<and> cr3 s' = cr3 s \<and> free_list s' = free_list s \<and> map_lock s' = map_lock s \<and>
    klog s' = klog s @
      (if kv = 0 \<or> kp = 0 then [null_kernel_address kv kp] else [out_of_pages 1, no_root_table])"
proof (cases "kv = 0 \<or> kp = 0")
  case False
  obtain eax ebx ecx edx where cpu: "cpuid 0x80000008 = (eax, ebx, ecx, edx)"
    by (cases "cpuid 0x80000008") auto
  have "free_list s = []" using False assms by blast
  then have "pmm_request_pages 1 (s\<lparr>physical_address_width := pw, linear_address_width := lw\<rparr>) =
      (0, report (out_of_pages 1) (s\<lparr>physical_address_width := pw, linear_address_width := lw\<rparr>))" for pw lw
    by (intro request_none) simp
  then show ?thesis using False cpu by (simp add: vmm_init_def get_cpuid_def Let_def)
qed (simp add: vmm_init_def get_cpuid_def)

definition demo_image :: kernel_image where
  "demo_image =
     \<lparr>text_start_sym = 0xffffffff80000000, text_end_sym = 0xffffffff80000800,
      rodata_start_sym = 0xffffffff80001000, rodata_end_sym = 0xffffffff80001000,
      data_start_sym = 0xffffffff80002000, data_end_sym = 0xffffffff80002000\<rparr>"

lemma vmm_init_fails_witness:
  "\<exists>s'. vmm_init (\<lambda>_. (0x3030, 0, 0, 0)) demo_image 0 0x200000 demo_vmm = Some (1, s') \<and>
     free_list s' = free_list demo_vmm"
  using vmm_init_fails [of 0 "0x200000" demo_vmm "\<lambda>_. (0x3030, 0, 0, 0)" demo_image] by auto

section \<open>Mapping a framebuffer\<close>

lemma fold_page_set_last:
  assumes "same_page v w"
  shows "fold (\<lambda>(v, p, f). page_set v (p OR f)) (rs @ [(v, p, f)]) A w = entry_of (p OR f)"
  using assms by (simp add: page_set_def)

text \<open>
  A framebuffer at \<open>base\<close> is mapped for \<open>base + length\<close> bytes from \<open>base\<close> on, not for
  \<open>length\<close>: the last page of the entry's loop is the one that ends at
  \<open>base + (base + length)\<close>, and after it that page is mapped, writable, to the physical
  memory behind it.
\<close>

lemma framebuffer_overmapped:
  assumes ok: "vmm_ok (kernel_pm s) s" and fb: "entry_type e = LIMINE_MEMMAP_FRAMEBUFFER"
    and al: "aligned (entry_base e)" "aligned (entry_length e)"
    and pos: "0 < entry_length e" and room: "2 * unat (entry_base e) + unat (entry_length e) + 4096 < 2 ^ 64"
    and frames: "3 * ((unat (entry_base e) + unat (entry_length e)) div 4096) \<le> length (free_list s)"
  shows "\<exists>s'. map_entry e s = Some s' \<and>
    (let last_page = entry_base e + (entry_base e + entry_length e - PAGE_SIZE)
     in space (kernel_pm s) s' (last_page + hhdm_offset s) =
          Some (last_page OR (PTE_BIT_PRESENT OR PTE_BIT_READ_WRITE OR PTE_BIT_EXECUTE_DISABLE OR
                  PTE_BIT_WRITE_THROUGH_CACHING)))"
proof -
  let ?b = "entry_base e" and ?l = "entry_length e" and ?h = "hhdm_offset s"
  let ?f = "PTE_BIT_PRESENT OR PTE_BIT_READ_WRITE OR PTE_BIT_EXECUTE_DISABLE OR
    PTE_BIT_WRITE_THROUGH_CACHING"
  let ?n = "(unat ?b + unat ?l) div 4096"
  have sum: "unat (?b + ?l) = unat ?b + unat ?l" using room by (intro unat_add_small) simp
  obtain k where k: "unat (?b + ?l) = 4096 * k" "0 < k"
  proof -
    obtain k where k: "unat (?b + ?l) = 4096 * k"
      using aligned_add [OF al] by (auto simp: aligned_dvd elim!: dvdE)
    moreover have "0 < unat (?b + ?l)" using pos sum by (simp add: word_less_nat_alt)
    ultimately show thesis by (intro that [of k]) auto
  qed
  have up: "ALIGN_UP (?b + ?l) PAGE_SIZE = ?b + ?l"
  proof -
    have "unat (ALIGN_UP (?b + ?l) PAGE_SIZE) = (4096 * k + 4095) div 4096 * 4096"
      using ALIGN_UP_unat [of "?b + ?l"] sum room k(1) by simp
    also have "\<dots> = unat (?b + ?l)" using k(1) by simp
    finally show ?thesis by (simp add: word_unat_eq_iff)
  qed
  have n: "loop_count 0 (?b + ?l) = Suc (k - 1)" "?n = k"
    using k sum by (simp_all add: loop_count_def)
  have ends: "entry_ends e"
    using aligned_loop_ends al aligned_add [OF al] up by (simp add: entry_ends_def)
  have "loop_pages 0 (?b + ?l) = map (\<lambda>j. PAGE_SIZE * of_nat j) [0..<k - 1] @ [PAGE_SIZE * of_nat (k - 1)]"
    by (simp add: loop_pages_def n pages_from_def)
  moreover have "PAGE_SIZE * of_nat (k - 1) = ?b + ?l - PAGE_SIZE"
  proof -
    have "unat (of_nat (4096 * k) :: u64) = unat (?b + ?l)"
      using k(1) u64_bound [of "?b + ?l"] by (simp only: unat_of_nat_small)
    then have "of_nat (4096 * k) = ?b + ?l" by (rule word_unat_eq_iff [THEN iffD2])
    then show ?thesis using k(2) by (simp add: PAGE_SIZE_def of_nat_diff algebra_simps)
  qed
  ultimately obtain offs where offs: "loop_pages 0 (?b + ?l) = offs @ [?b + ?l - PAGE_SIZE]"
    "length offs = k - 1" by auto
  define last_page where "last_page = ?b + (?b + ?l - PAGE_SIZE)"
  have "aligned last_page" unfolding last_page_def by (intro aligned_add aligned_diff al) simp
  have lastu: "unat last_page + 4096 = 2 * unat ?b + unat ?l" 
  proof -
    have "unat (?b + ?l - PAGE_SIZE) = unat ?b + unat ?l - 4096"
      using k sum by (simp add: unat_sub word_le_nat_alt PAGE_SIZE_def)
    then have "unat ?b + unat (?b + ?l - PAGE_SIZE) = 2 * unat ?b + unat ?l - 4096"
      using k sum by simp
    moreover from this have "unat last_page = unat ?b + unat (?b + ?l - PAGE_SIZE)"
      unfolding last_page_def using room by (intro unat_add_small) simp
    ultimately show ?thesis using k sum by simp
  qed
  have up2: "ALIGN_UP last_page PAGE_SIZE = last_page"
  proof -
    have "4096 dvd unat last_page" using \<open>aligned last_page\<close> by (simp add: aligned_dvd)
    moreover have "unat (ALIGN_UP last_page PAGE_SIZE) = (unat last_page + 4095) div 4096 * 4096"
      using lastu room by (intro ALIGN_UP_unat) simp
    ultimately have "unat (ALIGN_UP last_page PAGE_SIZE) = unat last_page" by (auto elim!: dvdE)
    then show ?thesis by (simp add: word_unat_eq_iff)
  qed
  obtain rs where rs: "entry_requests ?h e = rs @ [(last_page + ?h, last_page, ?f)]" "length rs = k - 1"
    using fb up offs up2 by (simp add: entry_requests_def last_page_def)
  let ?P = "paths s (pml4 (kernel_pm s))"
  have "3 * length (entry_requests ?h e) \<le> length (free_list s)"
    using rs frames n k by simp
  then have "card (?P \<union> set (request_tables (entry_requests ?h e))) \<le> length (free_list s) + card ?P"
    using card_Un_le [of ?P "set (request_tables (entry_requests ?h e))"]
      tables_needed_le [of "entry_requests ?h e"] by (simp add: tables_needed_card)
  with aspace.map_pages_ok [OF ok, of "entry_requests ?h e"] obtain s' where
    s': "aspace.map_pages (kernel_pm s) (entry_requests ?h e) s = Some s'"
      "space (kernel_pm s) s' = fold (\<lambda>(v, p, f). page_set v (p OR f)) (entry_requests ?h e) (space (kernel_pm s) s)"
    by blast
  have "space (kernel_pm s) s' (last_page + ?h) = entry_of (last_page OR ?f)"
    unfolding s'(2) rs(1) by (rule fold_page_set_last) simp
  moreover have "present (last_page OR ?f)"
    by (simp add: present_bit bit_or_iff PTE_BIT_PRESENT_def)
  ultimately show ?thesis
    using map_entry_requests [OF ok ends] s'(1) by (simp add: entry_of_def last_page_def Let_def)
qed

lemma framebuffer_overmapped_witness:
  "\<exists>s'. map_entry \<lparr>entry_base = 0x1000, entry_length = 0x1000,
        entry_type = LIMINE_MEMMAP_FRAMEBUFFER\<rparr> demo_vmm = Some s' \<and>
     space demo_pm s' 0xffff800000002000 = Some 0x800000000000200b"
proof -
  let ?e = "\<lparr>entry_base = 0x1000, entry_length = 0x1000, entry_type = LIMINE_MEMMAP_FRAMEBUFFER\<rparr>"
  have ok: "vmm_ok (kernel_pm demo_vmm) demo_vmm" using demo_vmm_ok(1) by simp
  have frames: "3 * ((unat (entry_base ?e) + unat (entry_length ?e)) div 4096) \<le> length (free_list demo_vmm)"
    by (simp add: demo_vmm_lists(1))
  show ?thesis
    using framebuffer_overmapped [OF ok _ _ _ _ _ frames]
    by (simp add: aligned_dvd PAGE_SIZE_def PTE_BIT_PRESENT_def PTE_BIT_READ_WRITE_def
        PTE_BIT_EXECUTE_DISABLE_def PTE_BIT_WRITE_THROUGH_CACHING_def Let_def)
qed

lemma vmm_init_refines_witness:
  "\<exists>s'. vmm_init (\<lambda>_. (0x3030, 0, 0, 0)) demo_image
       0xffffffff80000000 0x200000 demo_vmm = Some (0, s') \<and> cr3 s' = 0x7000 \<and>
     space (kernel_pm s') s' 0xffffffff80000010 = Some 0x200001"
proof -
  have up: "ALIGN_UP 0xffffffff80000800 PAGE_SIZE = 0xffffffff80001000"
    "ALIGN_UP 0xffffffff80001000 PAGE_SIZE = 0xffffffff80001000"
    "ALIGN_UP 0xffffffff80002000 PAGE_SIZE = 0xffffffff80002000"
    "ALIGN_DOWN 0xffffffff80000000 PAGE_SIZE = 0xffffffff80000000"
    "ALIGN_DOWN 0xffffffff80001000 PAGE_SIZE = 0xffffffff80001000"
    "ALIGN_DOWN 0xffffffff80002000 PAGE_SIZE = 0xffffffff80002000"
    by (simp_all add: ALIGN_UP_def ALIGN_DOWN_def DIV_ROUND_UP_def PAGE_SIZE_def)
  have reqs: "boot_requests demo_image 0xffffffff80000000 0x200000 0xffff800000000000 [] =
      [(0xffffffff80000000, 0x200000, PTE_BIT_PRESENT)]"
    by (simp add: boot_requests_def demo_image_def section_requests_def up loop_pages_def loop_count_def pages_from_def)
  have fl: "free_list demo_vmm = [0x1000, 0x2000, 0x3000, 0x4000, 0x5000, 0x6000] @ [0x7000]"
    by (simp add: demo_vmm_lists(1))
  have same: "same_page 0xffffffff80000000 0xffffffff80000010"
    by (simp add: same_page_def table_path_def table_index_def)
  obtain s' where s': "vmm_init (\<lambda>_. (0x3030, 0, 0, 0)) demo_image 0xffffffff80000000 0x200000 demo_vmm = Some (0, s')"
    "cr3 s' = 0x7000"
    "tables_needed (boot_requests demo_image 0xffffffff80000000 0x200000 0xffff800000000000 []) \<le> 6 \<longrightarrow>
      space (kernel_pm s') s' = fold (\<lambda>(v, p, f). page_set v (p OR f))
        (boot_requests demo_image 0xffffffff80000000 0x200000 0xffff800000000000 []) (\<lambda>_. None)"
    using vmm_init_refines [OF demo_frames _ _ _ fl, of "0xffffffff80000000" "0x200000" "\<lambda>_. (0x3030, 0, 0, 0)" demo_image]
    by (auto simp: SPINLOCK_INIT_def)
  moreover have "tables_needed [(0xffffffff80000000, 0x200000, PTE_BIT_PRESENT)] \<le> 6"
    using tables_needed_le [of "[(0xffffffff80000000, 0x200000, PTE_BIT_PRESENT)]"] by simp
  ultimately show ?thesis
    using same by (auto simp: reqs page_set_def entry_of_def present_bit PTE_BIT_PRESENT_def)
qed

end
