(* ===== verification/NanoText.thy ===== *)
theory NanoText
  imports Nanoprintf
begin

text \<open>
  What the formatter prints, as a string. \<open>npf_text\<close> is the reference: it lays one conversion
  out as a list of pieces (\<open>layout\<close>) and never touches a character sink. The main lemma says
  that \<open>npf_vpprintf\<close> sends exactly this text to whatever sink it is given, character by
  character, and returns its length. Two consequences are shared with the console: what ends
  up in a buffer, and that printing fails only through the shape of the argument list.
\<close>

section \<open>The layout of one conversion\<close>

definition opt_char :: "char \<Rightarrow> string" where
  "opt_char c = (if c = NUL then [] else [c])"

definition layout :: "npf_format_spec_t \<Rightarrow> conversion \<Rightarrow> string" where
  "layout fs cv =
     (let pad = pad_char fs cv;
          field = (if pad = NUL then [] else replicate (nat (field_pad fs cv)) pad);
          ox = (if need_0x cv = NUL then [] else [CHR ''0'', need_0x cv]);
          text = conv_spec fs = NPF_FMT_SPEC_CONV_STRING;
          zeros = replicate (nat (prec_pad fs cv)) CHR ''0'';
          body = (if text then cbuf cv else zeros @ rev (cbuf cv));
          sign = (if text then [] else opt_char (sign_c cv))
      in if left_justified fs then ox @ sign @ body @ field
         else if pad = CHR ''0'' then opt_char (sign_c cv) @ ox @ field @ body
         else field @ ox @ sign @ body)"

lemma put_all_eq: "put_all pc cs (n, ctx) = (n + int (length cs), fold pc cs ctx)"
  by (induction cs arbitrary: n ctx) (simp_all add: npf_putc_cnt_def)

lemma NUL_not_zero_char [simp]: "NUL \<noteq> CHR ''0''" "CHR ''0'' \<noteq> NUL"
  by (simp_all add: NUL_def)

lemma npf_emit_layout: "npf_emit pc fs cv st = put_all pc (layout fs cv) st"
  by (simp add: npf_emit_def layout_def opt_char_def Let_def)

section \<open>The text of a format\<close>

function text_loop :: "string \<Rightarrow> va list \<Rightarrow> string option" where
  "text_loop [] as = Some []"
| "text_loop (c # cs) as =
     (case (if c \<noteq> CHR ''%'' then None else npf_parse_format_spec cs) of
        None \<Rightarrow> map_option ((#) c) (text_loop cs as)
      | Some (fs, rest) \<Rightarrow>
          Option.bind (star_width fs as) (\<lambda>(fs1, as1).
          Option.bind (star_prec fs1 as1) (\<lambda>(fs2, as2).
          Option.bind (npf_convert fs2 as2) (\<lambda>(cv, fs3, as3).
            map_option ((@) (layout fs3 cv)) (text_loop rest as3)))))"
  by pat_completeness auto
termination
  by (relation "measure (\<lambda>(cs, as). length cs)") (auto split: if_splits dest!: npf_parse_shorter)

definition npf_text :: "string \<Rightarrow> va list \<Rightarrow> string option" where
  "npf_text format as = text_loop (c_string format) as"

lemma npf_loop_text:
  "npf_loop pc cs as st = map_option (\<lambda>t. put_all pc t st) (text_loop cs as)"
proof (induction cs as arbitrary: st rule: text_loop.induct)
  case (2 c cs as)
  show ?case
  proof (cases "if c \<noteq> CHR ''%'' then None else npf_parse_format_spec cs")
    case None
    have "npf_loop pc cs as (npf_putc_cnt pc c st) =
        map_option (\<lambda>t. put_all pc t (npf_putc_cnt pc c st)) (text_loop cs as)"
      by (rule "2.IH"(1) [OF None])
    with None show ?thesis by (simp add: option.map_comp comp_def)
  next
    case (Some r)
    obtain fs rest where r: "r = (fs, rest)" by (cases r)
    note IH = "2.IH"(2) [OF Some r [symmetric]]
    show ?thesis
      using Some r
      by (auto simp: IH npf_emit_layout option.map_comp comp_def split: bind_split
          intro!: Option.bind_cong)
  qed
qed simp

text \<open>The counting sink adds one per character, so the result is the length of the text.\<close>

lemma npf_vpprintf_text:
  "npf_vpprintf pc ctx fmt as = map_option (\<lambda>t. (int (length t), fold pc t ctx)) (npf_text fmt as)"
  by (simp add: npf_vpprintf_def npf_text_def npf_loop_text put_all_eq)


section \<open>Digits\<close>

text \<open>The digits of a number in a base, least significant first.\<close>

function digits_rev :: "nat \<Rightarrow> nat \<Rightarrow> nat list" where
  "digits_rev b n = n mod b # (if b < 2 \<or> n div b = 0 then [] else digits_rev b (n div b))"
  by pat_completeness auto
termination
proof (relation "measure snd")
  fix b n :: nat
  assume "\<not> (b < 2 \<or> n div b = 0)"
  then show "((b, n div b), b, n) \<in> measure snd"
    by (cases "n = 0") (auto intro!: div_less_dividend)
qed simp

declare digits_rev.simps [simp del]

abbreviation digits_value :: "nat \<Rightarrow> nat list \<Rightarrow> nat" where
  "digits_value b ds \<equiv> foldr (\<lambda>d v. d + b * v) ds 0"

lemma digits_value: "2 \<le> b \<Longrightarrow> digits_value b (digits_rev b n) = n"
proof (induction b n rule: digits_rev.induct)
  case (1 b n)
  show ?case
  proof (cases "n div b = 0")
    case True
    then show ?thesis using 1(2) by (subst digits_rev.simps) (auto simp: div_eq_0_iff)
  next
    case False
    with 1 show ?thesis by (subst digits_rev.simps) (simp add: not_less)
  qed
qed

lemma digits_less: "2 \<le> b \<Longrightarrow> d \<in> set (digits_rev b n) \<Longrightarrow> d < b"
proof (induction b n rule: digits_rev.induct)
  case (1 b n)
  from 1(3) have "d = n mod b \<or> n div b \<noteq> 0 \<and> d \<in> set (digits_rev b (n div b))"
    by (subst (asm) digits_rev.simps) (auto split: if_splits)
  with 1 show ?case by (auto simp: not_less)
qed

lemma digits_count: "2 \<le> b \<Longrightarrow> n < b ^ Suc k \<Longrightarrow> length (digits_rev b n) \<le> Suc k"
proof (induction k arbitrary: n)
  case 0
  then have "n div b = 0" by simp
  then show ?case by (subst digits_rev.simps) simp
next
  case (Suc k)
  then have "n div b < b ^ Suc k"
    by (simp add: less_mult_imp_div_less mult.commute)
  with Suc have "length (digits_rev b (n div b)) \<le> Suc k" by blast
  then show ?case by (subst digits_rev.simps) simp
qed

text \<open>No leading zero, unless the number is zero.\<close>

lemma digits_top: "2 \<le> b \<Longrightarrow> n \<noteq> 0 \<Longrightarrow> last (digits_rev b n) \<noteq> 0"
proof (induction b n rule: digits_rev.induct)
  case (1 b n)
  have "digits_rev b (n div b) \<noteq> []" by (subst digits_rev.simps) simp
  with 1 show ?case by (subst digits_rev.simps) (auto simp: not_less div_eq_0_iff)
qed

text \<open>Padded with zeros to \<open>k\<close> digits, the list has each digit at its place.\<close>

lemma digits_padded:
  assumes "2 \<le> b" "n < b ^ Suc k"
  shows "digits_rev b n @ replicate (Suc k - length (digits_rev b n)) 0 =
    map (\<lambda>i. n div b ^ i mod b) [0..<Suc k]"
  using assms
proof (induction k arbitrary: n)
  case 0
  then show ?case by (subst (1 2) digits_rev.simps) simp
next
  case (Suc k)
  have step: "map (\<lambda>i. n div b ^ i mod b) [0..<Suc (Suc k)] =
      n mod b # map (\<lambda>i. n div b div b ^ i mod b) [0..<Suc k]"
    by (simp add: map_upt_Suc div_mult2_eq del: upt_Suc)
  show ?case
  proof (cases "n div b = 0")
    case True
    then have "digits_rev b n = [n mod b]" by (subst digits_rev.simps) simp
    then show ?thesis unfolding step using True by (simp add: map_replicate_const del: upt_Suc)
  next
    case False
    then have "digits_rev b n = n mod b # digits_rev b (n div b)"
      using Suc.prems by (subst digits_rev.simps) simp
    moreover have "n div b < b ^ Suc k"
      using Suc.prems by (simp add: less_mult_imp_div_less mult.commute)
    ultimately show ?thesis unfolding step using Suc.IH [of "n div b"] Suc.prems(1) by simp
  qed
qed

lemma char_of_int: "char_of (48 + int k) = (char_of (48 + k) :: char)"
  using char_of_nat [where 'a = int, of "48 + k"] by (simp del: char_of_nat)

text \<open>Reading decimal digits back, with the parser the formatter uses for widths.\<close>

lemma parse_decimal:
  assumes "\<And>d. d \<in> set ds \<Longrightarrow> d < 10"
  shows "parse_digits a (map (\<lambda>d. char_of (48 + d)) ds) = (foldl (\<lambda>v d. v * 10 + int d) a ds, [])"
  using assms
proof (induction ds arbitrary: a)
  case (Cons d ds)
  then have "d < 10" by simp
  then have "(of_char (char_of (48 + d) :: char) :: nat) = 48 + d" by simp
  moreover have "(of_char (char_of (48 + d) :: char) :: int) = 48 + int d"
    unfolding char_of_int [symmetric] using \<open>d < 10\<close> by (subst of_char_of) simp
  moreover have "is_digit (char_of (48 + d))" using \<open>d < 10\<close> by (simp add: is_digit_def)
  ultimately show ?case using Cons by simp
qed simp

lemma npf_utoa_rev_digits:
  assumes "2 \<le> unat base"
  shows "npf_utoa_rev i base adj = Some (map (\<lambda>d. digit_char adj (of_nat d)) (digits_rev (unat base) (unat i)))"
proof (induction "unat i" arbitrary: i rule: less_induct)
  case less
  have d: "digit_char adj (i mod base) = digit_char adj (of_nat (unat i mod unat base))"
    by (simp flip: unat_mod_distrib)
  show ?case
  proof (cases "i div base = 0")
    case True
    then have "unat i div unat base = 0" by (simp flip: unat_div_distrib)
    with True d show ?thesis
      by (subst npf_utoa_rev.simps, subst digits_rev.simps) (simp add: Let_def)
  next
    case False
    then have nz: "unat i div unat base \<noteq> 0"
      by (metis unat_div_distrib unat_eq_zero)
    then have "unat (i div base) < unat i"
      using assms by (auto simp: unat_div_distrib intro!: div_less_dividend) (metis div_0 neq0_conv)
    note IH = less [OF this]
    show ?thesis
      using False nz assms d IH
      by (subst npf_utoa_rev.simps, subst digits_rev.simps) (simp add: Let_def unat_div_distrib)
  qed
qed

lemma sdiv_smod_10:
  "(if i \<ge> 0 then 1 else - 1) * (i smod 10) = int (nat \<bar>i\<bar> mod 10)" "nat \<bar>i sdiv 10\<bar> = nat \<bar>i\<bar> div 10"
proof -
  show "(if i \<ge> 0 then 1 else - 1) * (i smod 10) = int (nat \<bar>i\<bar> mod 10)"
    by (simp add: signed_modulo_int_def sgn_if nat_mod_distrib zmod_int)
  show "nat \<bar>i sdiv 10\<bar> = nat \<bar>i\<bar> div 10"
    by (auto simp: signed_divide_int_def abs_mult sgn_if nat_div_distrib)
qed

lemma npf_itoa_rev_digits:
  "npf_itoa_rev i = map (\<lambda>d. char_of (48 + d)) (digits_rev 10 (nat \<bar>i\<bar>))"
proof (induction i rule: npf_itoa_rev.induct)
  case (1 i)
  have zero: "i sdiv 10 = 0 \<longleftrightarrow> nat \<bar>i\<bar> div 10 = 0"
    using sdiv_smod_10(2) [of i] by auto
  have d: "char_of (48 + (if i \<ge> 0 then 1 else - 1) * (i smod 10)) = (char_of (48 + nat \<bar>i\<bar> mod 10) :: char)"
    by (simp only: sdiv_smod_10(1) char_of_int)
  show ?case
  proof (cases "i sdiv 10 = 0")
    case True
    then show ?thesis using d zero
      by (subst npf_itoa_rev.simps, subst digits_rev.simps) (simp only: Let_def simp_thms if_True if_False list.map)
  next
    case False
    note IH = 1 [OF refl refl refl False, unfolded sdiv_smod_10(2)]
    show ?thesis using d zero False IH
      by (subst npf_itoa_rev.simps, subst digits_rev.simps) (simp only: Let_def simp_thms if_True if_False list.map, simp)
  qed
qed

lemma parse_npf_itoa: "parse_digits 0 (rev (npf_itoa_rev v)) = (\<bar>v\<bar>, [])"
proof -
  let ?ds = "digits_rev 10 (nat \<bar>v\<bar>)"
  have "foldl (\<lambda>v d. v * 10 + int d) 0 (rev ds) = int (digits_value 10 ds)" for ds
    by (induction ds) simp_all
  then have "foldl (\<lambda>v d. v * 10 + int d) 0 (rev ?ds) = \<bar>v\<bar>"
    by (simp add: digits_value)
  moreover have "d < 10" if "d \<in> set (rev ?ds)" for d
    using digits_less [of 10 d "nat \<bar>v\<bar>"] that by simp
  ultimately show ?thesis
    by (simp only: npf_itoa_rev_digits rev_map parse_decimal)
qed

section \<open>Conversions always succeed on arguments of the right kind\<close>

lemma base_cases: "convert_base cv = 8 \<or> convert_base cv = 10 \<or> convert_base cv = 16"
  by (simp add: convert_base_def)

lemma utoa_some:
  assumes "base = 8 \<or> base = 10 \<or> base = 16"
  obtains ds where "npf_utoa_rev w base adj = Some ds" "length ds \<le> 22"
    "length ds = length (digits_rev (unat base) (unat w))"
proof -
  have w: "unat w < 2 ^ 64" by (rule u64_bound)
  from assms have "2 \<le> unat base" "2 ^ 64 \<le> unat base ^ Suc 21" by auto
  with w have "length (digits_rev (unat base) (unat w)) \<le> Suc 21"
    by (intro digits_count) auto
  with npf_utoa_rev_digits [OF \<open>2 \<le> unat base\<close>, of w adj] that show thesis by auto
qed

lemma extract_signed_range: "\<bar>extract_signed lm w\<bar> \<le> 2 ^ 63"
proof -
  have "\<bar>sint (ucast w :: u32)\<bar> \<le> 2 ^ 31" "\<bar>sint (ucast w :: u16)\<bar> \<le> 2 ^ 15"
    "\<bar>sint (ucast w :: u8)\<bar> \<le> 2 ^ 7" "\<bar>sint w\<bar> \<le> 2 ^ 63"
    using sint_range_size [of "ucast w :: u32"] sint_range_size [of "ucast w :: u16"]
      sint_range_size [of "ucast w :: u8"] sint_range_size [of w]
    by (simp_all add: word_size abs_le_iff)
  then show ?thesis by (cases lm) (simp_all add: extract_signed_def)
qed

lemma itoa_length:
  assumes "\<bar>v\<bar> \<le> 2 ^ 63"
  shows "length (npf_itoa_rev v) \<le> 19"
proof -
  have "nat \<bar>v\<bar> < 10 ^ Suc 18" using assms by simp
  then have "length (digits_rev 10 (nat \<bar>v\<bar>)) \<le> Suc 18" by (intro digits_count) auto
  then show ?thesis by (simp add: npf_itoa_rev_digits del: npf_itoa_rev.simps)
qed

lemma convert_unsigned_some:
  "convert_unsigned fs v \<noteq> None" "convert_unsigned fs v = Some (cv, fs') \<Longrightarrow> length (cbuf cv) \<le> 23"
proof -
  obtain ds where "npf_utoa_rev v (convert_base (conv_spec fs)) (case_adjust fs) = Some ds" "length ds \<le> 22"
    by (rule utoa_some [OF base_cases])
  then show "convert_unsigned fs v \<noteq> None"
    "convert_unsigned fs v = Some (cv, fs') \<Longrightarrow> length (cbuf cv) \<le> 23"
    by (cases "v = 0 \<and> prec_opt fs = NPF_FMT_SPEC_OPT_LITERAL \<and> prec fs = 0";
        auto simp: convert_unsigned_def Let_def)+
qed

text \<open>
  The kinds of argument one specification takes: \<open>True\<close> for an eight-byte slot, \<open>False\<close> for a
  string.
\<close>

definition wants :: "npf_format_spec_t \<Rightarrow> bool list" where
  "wants fs =
     (if field_width_opt fs = NPF_FMT_SPEC_OPT_STAR then [True] else []) @
     (if prec_opt fs = NPF_FMT_SPEC_OPT_STAR then [True] else []) @
     (case conv_spec fs of
        NPF_FMT_SPEC_CONV_PERCENT \<Rightarrow> [] | NPF_FMT_SPEC_CONV_STRING \<Rightarrow> [False] | _ \<Rightarrow> [True])"

fun take_kinds :: "bool list \<Rightarrow> bool list \<Rightarrow> bool list option" where
  "take_kinds [] ks = Some ks"
| "take_kinds (n # ns) (k # ks) = (if n = k then take_kinds ns ks else None)"
| "take_kinds (n # ns) [] = None"

fun is_slot :: "va \<Rightarrow> bool" where
  "is_slot (Slot _) = True"
| "is_slot (Str _) = False"

function fits :: "string \<Rightarrow> bool list \<Rightarrow> bool" where
  "fits [] ks = True"
| "fits (c # cs) ks =
     (case (if c \<noteq> CHR ''%'' then None else npf_parse_format_spec cs) of
        None \<Rightarrow> fits cs ks
      | Some (fs, rest) \<Rightarrow>
          (case take_kinds (wants fs) ks of None \<Rightarrow> False | Some ks' \<Rightarrow> fits rest ks'))"
  by pat_completeness auto
termination
  by (relation "measure (\<lambda>(cs, ks). length cs)") (auto split: if_splits dest!: npf_parse_shorter)

lemma va_slot_kinds: "va_slot as = Some (w, r) \<longleftrightarrow> as = Slot w # r"
  by (cases as rule: va_slot.cases) auto

lemma va_slot_none: "va_slot as = None \<longleftrightarrow> (\<forall>ks. map is_slot as \<noteq> True # ks)"
  by (cases as rule: va_slot.cases) auto

lemma va_str_none: "va_str as = None \<longleftrightarrow> (\<forall>ks. map is_slot as \<noteq> False # ks)"
  by (cases as rule: va_str.cases) auto

lemma va_str_kinds: "va_str as = Some (s, r) \<Longrightarrow> map is_slot as = False # map is_slot r"
  by (cases as rule: va_str.cases) auto

lemma star_width_kinds:
  "star_width fs as =
     (if field_width_opt fs \<noteq> NPF_FMT_SPEC_OPT_STAR then Some (fs, as)
      else case as of Slot w # r \<Rightarrow>
          (let n = sint (ucast w :: u32) in
           Some (fs\<lparr>field_width_opt := NPF_FMT_SPEC_OPT_LITERAL, field_width := \<bar>n\<bar>,
              left_justified := (left_justified fs \<or> n < 0)\<rparr>, r))
        | _ \<Rightarrow> None)"
  by (auto simp: star_width_def va_int_def Let_def split: list.splits va.splits)

lemma star_prec_kinds:
  "star_prec fs as =
     (if prec_opt fs \<noteq> NPF_FMT_SPEC_OPT_STAR then Some (fs, as)
      else case as of Slot w # r \<Rightarrow>
          (let n = sint (ucast w :: u32) in
           Some (fs\<lparr>prec_opt := (if n \<ge> 0 then NPF_FMT_SPEC_OPT_LITERAL else NPF_FMT_SPEC_OPT_NONE),
              prec := n\<rparr>, r))
        | _ \<Rightarrow> None)"
  by (auto simp: star_prec_def va_int_def Let_def split: list.splits va.splits)

text \<open>The pointer conversion, and the one case analysis on conversions the proofs share.\<close>

lemma npf_convert_kinds:
  "(case npf_convert fs as of
      None \<Rightarrow> take_kinds (case conv_spec fs of
          NPF_FMT_SPEC_CONV_PERCENT \<Rightarrow> [] | NPF_FMT_SPEC_CONV_STRING \<Rightarrow> [False] | _ \<Rightarrow> [True])
          (map is_slot as) = None
    | Some (cv, fs', r) \<Rightarrow> take_kinds (case conv_spec fs of
          NPF_FMT_SPEC_CONV_PERCENT \<Rightarrow> [] | NPF_FMT_SPEC_CONV_STRING \<Rightarrow> [False] | _ \<Rightarrow> [True])
          (map is_slot as) = Some (map is_slot r) \<and>
        (conv_spec fs \<noteq> NPF_FMT_SPEC_CONV_STRING \<longrightarrow> length (cbuf cv) \<le> 23))"
proof -
  have slots: "(\<exists>w r. as = Slot w # r) \<or> as = [] \<or> (\<exists>s r. as = Str s # r)"
    by (cases as rule: va_slot.cases) auto
  have signed: "length (cbuf (fst (convert_signed fs (extract_signed lm w)))) \<le> 23" for lm w
    using itoa_length [OF extract_signed_range [of lm w]]
    by (simp add: convert_signed_def del: npf_itoa_rev.simps)
  have pointer: "\<exists>ds. npf_utoa_rev w 16 32 = Some ds \<and> length ds \<le> 23" for w
    by (rule utoa_some [of 16 w 32]) auto
  then have pointer_length: "npf_utoa_rev w 16 32 = Some ds \<Longrightarrow> length ds \<le> 23" for w ds
    by (metis option.inject)
  show ?thesis
  proof (cases "conv_spec fs")
    case NPF_FMT_SPEC_CONV_SIGNED_INT
    then show ?thesis using slots signed
      by (auto simp: npf_convert_def Let_def split: prod.splits) (metis fst_conv)+
  next
    case NPF_FMT_SPEC_CONV_POINTER
    then show ?thesis using slots pointer
      by (elim disjE exE) (auto simp: npf_convert_def Let_def pointer_length split: bind_split)
  next
    case NPF_FMT_SPEC_CONV_OCTAL
    then show ?thesis using slots convert_unsigned_some
      by (elim disjE exE) (auto simp: npf_convert_def Let_def split: bind_split)
  next
    case NPF_FMT_SPEC_CONV_HEX_INT
    then show ?thesis using slots convert_unsigned_some
      by (elim disjE exE) (auto simp: npf_convert_def Let_def split: bind_split)
  next
    case NPF_FMT_SPEC_CONV_UNSIGNED_INT
    then show ?thesis using slots convert_unsigned_some
      by (elim disjE exE) (auto simp: npf_convert_def Let_def split: bind_split)
  qed (use slots in \<open>auto simp: npf_convert_def Let_def\<close>)
qed

lemma take_kinds_append: "take_kinds (ns @ ms) ks = Option.bind (take_kinds ns ks) (take_kinds ms)"
  by (induction ns ks rule: take_kinds.induct) auto

definition stars :: "npf_format_spec_t \<Rightarrow> va list \<Rightarrow> (npf_format_spec_t \<times> va list) option" where
  "stars fs as = Option.bind (star_width fs as) (\<lambda>(fs1, as1). star_prec fs1 as1)"

lemma stars_kinds:
  "case stars fs as of
     None \<Rightarrow> take_kinds ((if field_width_opt fs = NPF_FMT_SPEC_OPT_STAR then [True] else []) @
       (if prec_opt fs = NPF_FMT_SPEC_OPT_STAR then [True] else [])) (map is_slot as) = None
   | Some (fs', r) \<Rightarrow> conv_spec fs' = conv_spec fs \<and>
       take_kinds ((if field_width_opt fs = NPF_FMT_SPEC_OPT_STAR then [True] else []) @
       (if prec_opt fs = NPF_FMT_SPEC_OPT_STAR then [True] else [])) (map is_slot as) = Some (map is_slot r)"
  by (auto simp: stars_def star_width_kinds star_prec_kinds Let_def
      split: list.splits va.splits option.splits)

lemma text_loop_fits: "text_loop cs as \<noteq> None \<longleftrightarrow> fits cs (map is_slot as)"
proof (induction cs as rule: text_loop.induct)
  case (2 c cs as)
  show ?case
  proof (cases "if c \<noteq> CHR ''%'' then None else npf_parse_format_spec cs")
    case None
    with "2.IH"(1) [OF None] show ?thesis by simp
  next
    case (Some r)
    obtain fs rest where r: "r = (fs, rest)" by (cases r)
    have step: "text_loop (c # cs) as =
        Option.bind (stars fs as) (\<lambda>(fs2, as2). Option.bind (npf_convert fs2 as2) (\<lambda>(cv, fs3, as3).
          map_option ((@) (layout fs3 cv)) (text_loop rest as3)))"
      using Some r by (auto simp: stars_def split: bind_split)
    have IH: "text_loop rest as3 \<noteq> None \<longleftrightarrow> fits rest (map is_slot as3)"
      if "stars fs as = Some (fs2, as2)" "npf_convert fs2 as2 = Some (cv, fs3, as3)" for fs2 as2 cv fs3 as3
    proof -
      from that(1) obtain fs1 as1 where "star_width fs as = Some (fs1, as1)" "star_prec fs1 as1 = Some (fs2, as2)"
        by (auto simp: stars_def bind_eq_Some_conv)
      from "2.IH"(2) [OF Some r [symmetric] this(1) refl this(2) refl that(2) refl refl] show ?thesis .
    qed
    show ?thesis
    proof (cases "stars fs as")
      case None
      with stars_kinds [of fs as] have "take_kinds (wants fs) (map is_slot as) = None"
        by (simp only: wants_def append_assoc [symmetric] take_kinds_append option.case) simp
      with None step Some r show ?thesis by simp
    next
      case (Some p)
      obtain fs2 as2 where p: "p = (fs2, as2)" by (cases p)
      have kinds: "take_kinds (wants fs) (map is_slot as) =
          take_kinds (case conv_spec fs2 of
            NPF_FMT_SPEC_CONV_PERCENT \<Rightarrow> [] | NPF_FMT_SPEC_CONV_STRING \<Rightarrow> [False] | _ \<Rightarrow> [True])
            (map is_slot as2)"
        using stars_kinds [of fs as] Some p
        by (simp only: wants_def append_assoc [symmetric] take_kinds_append option.case prod.case) simp
      show ?thesis
      proof (cases "npf_convert fs2 as2")
        case None
        with npf_convert_kinds [of fs2 as2] kinds have "take_kinds (wants fs) (map is_slot as) = None" by simp
        with None step Some p r \<open>(if c \<noteq> CHR ''%'' then None else npf_parse_format_spec cs) = Some r\<close>
        show ?thesis by simp
      next
        case (Some q)
        obtain cv fs3 as3 where q: "q = (cv, fs3, as3)" by (cases q)
        from npf_convert_kinds [of fs2 as2] kinds Some q
        have "take_kinds (wants fs) (map is_slot as) = Some (map is_slot as3)" by simp
        with IH Some q p \<open>stars fs as = Some p\<close> step r
          \<open>(if c \<noteq> CHR ''%'' then None else npf_parse_format_spec cs) = Some r\<close>
        show ?thesis by simp
      qed
    qed
  qed
qed simp

lemma npf_text_fits: "npf_text fmt as \<noteq> None \<longleftrightarrow> fits (c_string fmt) (map is_slot as)"
  by (simp only: npf_text_def text_loop_fits)

section \<open>What ends up in a buffer\<close>

text \<open>\<open>put_string b t m\<close> is the memory with the characters of \<open>t\<close> at \<open>b\<close>, without a terminator.\<close>

definition put_string :: "u64 \<Rightarrow> string \<Rightarrow> mem \<Rightarrow> mem" where
  "put_string b t m =
     (\<lambda>x. if unat (x - b) < length t then of_char (t ! unat (x - b)) else m x)"

lemma put_string_Nil [simp]: "put_string b [] m = m"
  by (simp add: put_string_def)

lemma put_string_snoc:
  assumes "length t < 2 ^ 64"
  shows "st8 (b + of_nat (length t)) (of_char c) (put_string b t m) = put_string b (t @ [c]) m"
proof
  fix x
  have "x = b + of_nat (length t) \<longleftrightarrow> unat (x - b) = length t"
  proof -
    have "x = b + of_nat (length t) \<longleftrightarrow> x - b = of_nat (length t)" by (auto simp: algebra_simps)
    then show ?thesis using assms by (simp add: word_unat_eq_iff [of "x - b"] unat_of_nat_small)
  qed
  then show "st8 (b + of_nat (length t)) (of_char c) (put_string b t m) x = put_string b (t @ [c]) m x"
    by (auto simp: st8_apply put_string_def nth_append)
qed

lemma bufputc_fold:
  "fold npf_bufputc t (\<lparr>dst = b, len = n, cur = 0\<rparr>, m) =
     (\<lparr>dst = b, len = n, cur = of_nat (min (length t) (unat n))\<rparr>, put_string b (take (unat n) t) m)"
proof (induction t rule: rev_induct)
  case (snoc c t)
  show ?case
  proof (cases "length t < unat n")
    case True
    then have small: "length t < 2 ^ 64" using u64_bound [of n] by simp
    then have "of_nat (length t) < n" using True by (simp add: word_less_nat_alt unat_of_nat_small)
    then show ?thesis using snoc True put_string_snoc [OF small]
      by (simp add: npf_bufputc_def)
  next
    case False
    then show ?thesis using snoc by (simp add: npf_bufputc_def)
  qed
qed simp

lemma bufputc_nop_fold [simp]: "fold npf_bufputc_nop t ctx = ctx"
  by (induction t) (simp_all add: npf_bufputc_nop_def)

text \<open>A buffer holds the text cut to one less than its size, then a null.\<close>

lemma npf_vsnprintf_text:
  assumes "npf_text fmt as = Some t" "buffer \<noteq> 0" "bufsz \<noteq> 0"
  obtains m' where "npf_vsnprintf buffer bufsz fmt as m = Some (int (length t), m')"
    "\<And>i. i < length t \<Longrightarrow> i + 1 < unat bufsz \<Longrightarrow> m' (buffer + of_nat i) = of_char (t ! i)"
    "m' (buffer + of_nat (min (length t) (unat bufsz - 1))) = 0"
    "\<And>x. unat bufsz \<le> unat (x - buffer) \<Longrightarrow> m' x = m x"
proof
  let ?n = "unat bufsz"
  have n: "0 < ?n" "?n < 2 ^ 64" using assms(3) u64_bound [of bufsz] by (auto simp: unat_gt_0)
  let ?m1 = "put_string buffer (take ?n (t @ [NUL])) m"
  let ?m = "st8 (buffer + (bufsz - 1)) 0 ?m1"
  have "npf_bufputc NUL (fold npf_bufputc t (\<lparr>dst = buffer, len = bufsz, cur = 0\<rparr>, m)) =
      fold npf_bufputc (t @ [NUL]) (\<lparr>dst = buffer, len = bufsz, cur = 0\<rparr>, m)" by simp
  then show "npf_vsnprintf buffer bufsz fmt as m = Some (int (length t), ?m)"
    using assms by (simp only: bufputc_fold)
      (simp add: npf_vsnprintf_def npf_vpprintf_text bufputc_fold Let_def)
  have at: "unat (buffer + of_nat i - buffer) = i" if "i < ?n" for i
    using that n by (simp add: unat_of_nat_small)
  have last: "buffer + of_nat i = buffer + (bufsz - 1) \<longleftrightarrow> i = ?n - 1" if "i < ?n" for i
  proof -
    have "unat (bufsz - 1) = ?n - 1" using assms(3) by (simp add: unat_minus_one)
    then show ?thesis using that n
      by (subst add_left_cancel) (simp add: word_unat_eq_iff unat_of_nat_small)
  qed
  show "?m (buffer + of_nat i) = of_char (t ! i)" if "i < length t" "i + 1 < ?n" for i
    using that last [of i] at [of i] by (auto simp: st8_apply put_string_def nth_append)
  show "?m (buffer + of_nat (min (length t) (?n - 1))) = 0"
  proof -
    define k where "k = min (length t) (?n - 1)"
    have k: "k < ?n" "k = ?n - 1 \<or> k = length t" using n by (auto simp: k_def)
    show ?thesis unfolding k_def [symmetric]
      using last [OF k(1)] at [OF k(1)] k
      by (cases "k = ?n - 1") (auto simp: st8_apply put_string_def nth_append NUL_def)
  qed
  show "?m x = m x" if "?n \<le> unat (x - buffer)" for x
  proof -
    have "x \<noteq> buffer + (bufsz - 1)" using that assms(3) n
      by (auto simp: unat_minus_one)
    then show ?thesis using that
      by (auto simp: st8_apply put_string_def min_def split: if_splits)
  qed
qed

end
