(* ===== verification/NanoProps.thy ===== *)
theory NanoProps
  imports NanoText
begin

text \<open>Properties of the formatter.\<close>


text \<open>
  C17. \<open>npf_vsnprintf\<close> into a buffer of \<open>bufsz\<close> bytes stores the text, cut to what fits
  before a terminating null, returns the length the whole text has, and writes no byte
  outside the buffer.
\<close>

theorem npf_vsnprintf_bounded:
  assumes "npf_text fmt as = Some t" "buffer \<noteq> 0" "bufsz \<noteq> 0"
  shows "\<exists>m'. npf_vsnprintf buffer bufsz fmt as m = Some (int (length t), m') \<and>
    (\<forall>i. i < length t \<longrightarrow> i + 1 < unat bufsz \<longrightarrow> m' (buffer + of_nat i) = of_char (t ! i)) \<and>
    m' (buffer + of_nat (min (length t) (unat bufsz - 1))) = 0 \<and>
    (\<forall>x. unat bufsz \<le> unat (x - buffer) \<longrightarrow> m' x = m x)"
  by (rule npf_vsnprintf_text [OF assms, of m]) blast

lemma npf_vsnprintf_bounded_witness:
  "\<exists>m'. npf_vsnprintf 0x1000 4 ''%d-%s'' [Slot 42, Str ''abc''] (\<lambda>_. 1) = Some (6, m') \<and>
    m' 0x1001 = 50 \<and> m' 0x1003 = 0 \<and> m' 0x1004 = 1"
proof -
  have t: "npf_text ''%d-%s'' [Slot 42, Str ''abc''] = Some ''42-abc''" by code_simp
  obtain m' where m: "npf_vsnprintf 0x1000 4 ''%d-%s'' [Slot 42, Str ''abc''] (\<lambda>_. 1) =
      Some (int (length ''42-abc''), m')"
    "\<forall>i. i < length ''42-abc'' \<longrightarrow> i + 1 < unat (4 :: u64) \<longrightarrow>
      m' (0x1000 + of_nat i) = of_char (''42-abc'' ! i)"
    "m' (0x1000 + of_nat (min (length ''42-abc'') (unat (4 :: u64) - 1))) = 0"
    "\<forall>x. unat (4 :: u64) \<le> unat (x - 0x1000) \<longrightarrow> m' x = (\<lambda>_. 1) x"
    using npf_vsnprintf_bounded [OF t, of "0x1000" 4 "\<lambda>_. 1"] by auto
  from m(2) [rule_format, of 1] m(3) m(4) [rule_format, of "0x1004"] m(1)
  show ?thesis by (intro exI [of _ m']) simp
qed

text \<open>
  C36. The 23-byte conversion buffer is never overrun: for every specification, argument and
  conversion other than a string, the converted digits take at most 23 characters.
\<close>

theorem npf_convert_fits_buffer:
  assumes "npf_convert fs as = Some (cv, fs', r)" "conv_spec fs \<noteq> NPF_FMT_SPEC_CONV_STRING"
  shows "length (cbuf cv) \<le> 23"
  using npf_convert_kinds [of fs as] assms by simp

lemma npf_convert_fits_buffer_witness:
  "length (cbuf (fst (the (npf_convert
     (empty_spec\<lparr>alt_form := True, conv_spec := NPF_FMT_SPEC_CONV_OCTAL, length_modifier := NPF_FMT_SPEC_LEN_MOD_LONG\<rparr>)
     [Slot (- 1)])))) \<le> 23"
proof -
  let ?fs = "empty_spec\<lparr>alt_form := True, conv_spec := NPF_FMT_SPEC_CONV_OCTAL,
    length_modifier := NPF_FMT_SPEC_LEN_MOD_LONG\<rparr>"
  have "npf_convert ?fs [Slot (- 1)] \<noteq> None" by code_simp
  then obtain cv fs' r where r: "npf_convert ?fs [Slot (- 1)] = Some (cv, fs', r)" by auto
  with npf_convert_fits_buffer [OF r] show ?thesis by simp
qed

section \<open>Integers\<close>

lemma parse_specs:
  "npf_parse_format_spec ''d'' = Some (empty_spec\<lparr>conv_spec := NPF_FMT_SPEC_CONV_SIGNED_INT\<rparr>, [])"
  "npf_parse_format_spec ''lld'' = Some (empty_spec\<lparr>conv_spec := NPF_FMT_SPEC_CONV_SIGNED_INT,
     length_modifier := NPF_FMT_SPEC_LEN_MOD_LARGE_LONG_LONG\<rparr>, [])"
  "npf_parse_format_spec ''.16llx'' = Some (empty_spec\<lparr>conv_spec := NPF_FMT_SPEC_CONV_HEX_INT,
     prec_opt := NPF_FMT_SPEC_OPT_LITERAL, prec := 16,
     length_modifier := NPF_FMT_SPEC_LEN_MOD_LARGE_LONG_LONG\<rparr>, [])"
  by code_simp+

lemma c_string_id: "NUL \<notin> set t \<Longrightarrow> c_string t = t"
  by (simp add: c_string_def takeWhile_eq_all_conv) metis

lemma text_signed:
  assumes "npf_parse_format_spec cs = Some (fs, [])" "conv_spec fs = NPF_FMT_SPEC_CONV_SIGNED_INT"
    "field_width_opt fs = NPF_FMT_SPEC_OPT_NONE" "prec_opt fs = NPF_FMT_SPEC_OPT_NONE"
    "prec fs = 0" "prepend fs = NUL" "left_justified fs = False" "NUL \<notin> set cs"
  shows "npf_text (CHR ''%'' # cs) [Slot w] =
    Some (let v = extract_signed (length_modifier fs) w
          in (if v < 0 then ''-'' else []) @ rev (npf_itoa_rev v))"
proof -
  have "c_string (CHR ''%'' # cs) = CHR ''%'' # cs"
    using assms(8) by (intro c_string_id) (simp add: NUL_def)
  then show ?thesis using assms
    by (simp add: npf_text_def star_width_def star_prec_def npf_convert_def convert_signed_def
        layout_def pad_char_def prec_pad_def opt_char_def Let_def NUL_def
        del: npf_itoa_rev.simps)
qed

lemma collect: "npf_text fmt as = Some t \<Longrightarrow>
    npf_vpprintf (\<lambda>c out. out @ [c]) [] fmt as = Some (int (length t), t)"
proof -
  have "fold (\<lambda>c out. out @ [c]) t us = us @ t" for us by (induction t arbitrary: us) simp_all
  then show "npf_text fmt as = Some t \<Longrightarrow> ?thesis" by (simp add: npf_vpprintf_text)
qed

text \<open>
  C26. Decimal output reads back: \<open>%d\<close> and \<open>%lld\<close> print a minus sign exactly for a negative
  argument, then digits that the formatter's own decimal parser turns back into the
  magnitude, for every 32-bit or 64-bit value, the least one included.
\<close>

theorem print_decimal_parses_back:
  "(\<exists>out t. npf_vpprintf (\<lambda>c out. out @ [c]) [] ''%d'' [Slot w] = Some (int (length out), out) \<and>
      out = (if sint (ucast w :: u32) < 0 then ''-'' else []) @ t \<and>
      parse_digits 0 t = (\<bar>sint (ucast w :: u32)\<bar>, [])) \<and>
   (\<exists>out t. npf_vpprintf (\<lambda>c out. out @ [c]) [] ''%lld'' [Slot w] = Some (int (length out), out) \<and>
      out = (if sint w < 0 then ''-'' else []) @ t \<and> parse_digits 0 t = (\<bar>sint w\<bar>, []))"
proof -
  have "(\<exists>t. npf_text ''%d'' [Slot w] = Some ((if sint (ucast w :: u32) < 0 then ''-'' else []) @ t) \<and>
      parse_digits 0 t = (\<bar>sint (ucast w :: u32)\<bar>, []))"
    "(\<exists>t. npf_text ''%lld'' [Slot w] = Some ((if sint w < 0 then ''-'' else []) @ t) \<and>
      parse_digits 0 t = (\<bar>sint w\<bar>, []))"
  using text_signed [OF parse_specs(1), of w] text_signed [OF parse_specs(2), of w] parse_npf_itoa
  by (auto simp: empty_spec_def NUL_def extract_signed_def Let_def simp del: npf_itoa_rev.simps)
  then show ?thesis using collect by blast
qed

text \<open>
  \<open>%.16llx\<close>, which the register dump uses, prints exactly sixteen characters: the
  hexadecimal digits of the argument from the most significant nibble down.
\<close>

lemma print_hex16:
  "npf_text ''%.16llx'' [Slot w] =
     Some (map (\<lambda>i. digit_char 32 (drop_bit (4 * (15 - i)) w AND 15)) [0..<16])"
proof -
  let ?ds = "digits_rev 16 (unat w)"
  have u: "npf_utoa_rev w 16 32 = Some (map (\<lambda>d. digit_char 32 (of_nat d)) ?ds)"
    using npf_utoa_rev_digits [of 16 w 32] by simp
  have pad: "?ds @ replicate (16 - length ?ds) 0 = map (\<lambda>i. unat w div 16 ^ i mod 16) [0..<16]"
    using digits_padded [of 16 "unat w" 15] u64_bound [of w] by simp
  have nibble: "(of_nat (unat w div 16 ^ i mod 16) :: u64) = drop_bit (4 * i) w AND 15" for i
  proof -
    have "drop_bit (4 * i) w AND 15 = take_bit 4 (drop_bit (4 * i) w)"
      by (simp add: take_bit_eq_mask mask_eq_exp_minus_1)
    then have "unat (drop_bit (4 * i) w AND 15) = take_bit 4 (drop_bit (4 * i) (unat w))"
      by (simp only: unsigned_take_bit_eq unat_drop_bit_eq)
    also have "\<dots> = unat w div 16 ^ i mod 16"
      by (simp add: take_bit_eq_mod drop_bit_eq_div power_mult)
    finally show ?thesis by (simp add: word_unat_eq_iff unat_of_nat)
  qed
  have upto: "rev [0..<16] = map (\<lambda>i. 15 - i) [0..<(16 :: nat)]" by code_simp
  have zero: "digit_char 32 0 = CHR ''0''" by code_simp
  have "replicate (16 - length ?ds) CHR ''0'' @ rev (map (\<lambda>d. digit_char 32 (of_nat d)) ?ds) =
      rev (map (\<lambda>d. digit_char 32 (of_nat d)) (?ds @ replicate (16 - length ?ds) 0))"
    by (simp add: zero)
  also have "\<dots> = map (\<lambda>i. digit_char 32 (drop_bit (4 * (15 - i)) w AND 15)) [0..<16]"
    unfolding pad map_map comp_def nibble rev_map upto ..
  finally have body: "replicate (16 - length ?ds) CHR ''0'' @ rev (map (\<lambda>d. digit_char 32 (of_nat d)) ?ds) =
      map (\<lambda>i. digit_char 32 (drop_bit (4 * (15 - i)) w AND 15)) [0..<16]" .
  have "nat (max 0 (16 - int (length ?ds))) = 16 - length ?ds" by linarith
  with body u show ?thesis
    by (simp add: npf_text_def c_string_def NUL_def parse_specs(3) star_width_def star_prec_def
        npf_convert_def convert_unsigned_def convert_base_def extract_unsigned_def empty_spec_def
        layout_def pad_char_def prec_pad_def opt_char_def Let_def del: upt_Suc)
qed

section \<open>Where the output differs from C's\<close>

text \<open>
  A precision on \<open>%c\<close> pads with zeros, a zero flag with a negative star width pads with zeros
  on the right, and a negative precision literal is not ignored.
\<close>

lemma print_char_precision: "npf_text ''%.3c'' [Slot 65] = Some ''00A''"
  by code_simp

lemma print_negative_star_width: "npf_text ''%0*d'' [Slot (- 5), Slot 42] = Some ''42000''"
  by code_simp

lemma print_negative_precision: "npf_text ''%.-5d'' [Slot 42] = Some ''00042''"
  by code_simp

end
