(* ===== verification/Liballoc.thy ===== *)
theory Liballoc
  imports Vmm
begin

text \<open>
  The kernel heap, \<^verbatim>\<open>olive/src/mm/liballoc/liballoc.c\<close> with
  \<^verbatim>\<open>liballoc_wrappers.c\<close>. The heap is a doubly linked list of \<^emph>\<open>major\<close> blocks of
  whole pages, each with a doubly linked list of \<^emph>\<open>minor\<close> blocks; both kinds of header are
  structs in byte memory, read and written at the offsets of the x86-64 layout. Sizes keep
  the widths of the source: requests are 64 bits wide, the fields of the headers 32 bits.

  A result \<open>None\<close> is a call that does not return: it spins on the heap's lock, or follows
  lists of headers for ever. Of the two versions of \<open>liballoc_dump\<close> the first is the release
  build's, which the allocator calls; the second is the debug build's.
\<close>

section \<open>State and struct layout\<close>

record heap_state = vmm_state +
  l_memRoot :: u64
  l_bestBet :: u64
  l_allocated :: u64
  l_inuse :: u64
  l_warningCount :: u64
  l_errorCount :: u64
  l_possibleOverruns :: u64
  liballoc_lock_var :: spinlock_t
  return_address :: u64

text \<open>
  \<open>return_address\<close> is what \<open>__builtin_return_address(0)\<close> gives in the entry point that runs; it
  only appears in log lines.
\<close>

definition ALIGNMENT :: u64 where "ALIGNMENT = 16"
definition ALIGN_INFO :: u64 where "ALIGN_INFO = 16"
definition LIBALLOC_MAGIC :: u32 where "LIBALLOC_MAGIC = 0xc001c0de"
definition LIBALLOC_DEAD :: u32 where "LIBALLOC_DEAD = 0xdeaddead"
definition l_pageSize :: u32 where "l_pageSize = 4096"
definition l_pageCount :: u32 where "l_pageCount = 16"

definition sizeof_major :: u64 where "sizeof_major = 40"
definition sizeof_minor :: u64 where "sizeof_minor = 40"

text \<open>The fields of \<open>struct liballoc_major\<close> at an address.\<close>

definition maj_prev :: "mem \<Rightarrow> u64 \<Rightarrow> u64" where "maj_prev m p = ld64 m p"
definition maj_next :: "mem \<Rightarrow> u64 \<Rightarrow> u64" where "maj_next m p = ld64 m (p + 8)"
definition maj_pages :: "mem \<Rightarrow> u64 \<Rightarrow> u32" where "maj_pages m p = ld32 m (p + 16)"
definition maj_size :: "mem \<Rightarrow> u64 \<Rightarrow> u32" where "maj_size m p = ld32 m (p + 20)"
definition maj_usage :: "mem \<Rightarrow> u64 \<Rightarrow> u32" where "maj_usage m p = ld32 m (p + 24)"
definition maj_first :: "mem \<Rightarrow> u64 \<Rightarrow> u64" where "maj_first m p = ld64 m (p + 32)"

definition set_maj_prev :: "u64 \<Rightarrow> u64 \<Rightarrow> mem \<Rightarrow> mem" where "set_maj_prev p v = st64 p v"
definition set_maj_next :: "u64 \<Rightarrow> u64 \<Rightarrow> mem \<Rightarrow> mem" where "set_maj_next p v = st64 (p + 8) v"
definition set_maj_pages :: "u64 \<Rightarrow> u32 \<Rightarrow> mem \<Rightarrow> mem" where "set_maj_pages p v = st32 (p + 16) v"
definition set_maj_size :: "u64 \<Rightarrow> u32 \<Rightarrow> mem \<Rightarrow> mem" where "set_maj_size p v = st32 (p + 20) v"
definition set_maj_usage :: "u64 \<Rightarrow> u32 \<Rightarrow> mem \<Rightarrow> mem" where "set_maj_usage p v = st32 (p + 24) v"
definition set_maj_first :: "u64 \<Rightarrow> u64 \<Rightarrow> mem \<Rightarrow> mem" where "set_maj_first p v = st64 (p + 32) v"

text \<open>The fields of \<open>struct liballoc_minor\<close> at an address.\<close>

definition min_prev :: "mem \<Rightarrow> u64 \<Rightarrow> u64" where "min_prev m p = ld64 m p"
definition min_next :: "mem \<Rightarrow> u64 \<Rightarrow> u64" where "min_next m p = ld64 m (p + 8)"
definition min_block :: "mem \<Rightarrow> u64 \<Rightarrow> u64" where "min_block m p = ld64 m (p + 16)"
definition min_magic :: "mem \<Rightarrow> u64 \<Rightarrow> u32" where "min_magic m p = ld32 m (p + 24)"
definition min_size :: "mem \<Rightarrow> u64 \<Rightarrow> u32" where "min_size m p = ld32 m (p + 28)"
definition min_req_size :: "mem \<Rightarrow> u64 \<Rightarrow> u32" where "min_req_size m p = ld32 m (p + 32)"

definition set_min_prev :: "u64 \<Rightarrow> u64 \<Rightarrow> mem \<Rightarrow> mem" where "set_min_prev p v = st64 p v"
definition set_min_next :: "u64 \<Rightarrow> u64 \<Rightarrow> mem \<Rightarrow> mem" where "set_min_next p v = st64 (p + 8) v"
definition set_min_block :: "u64 \<Rightarrow> u64 \<Rightarrow> mem \<Rightarrow> mem" where "set_min_block p v = st64 (p + 16) v"
definition set_min_magic :: "u64 \<Rightarrow> u32 \<Rightarrow> mem \<Rightarrow> mem" where "set_min_magic p v = st32 (p + 24) v"
definition set_min_size :: "u64 \<Rightarrow> u32 \<Rightarrow> mem \<Rightarrow> mem" where "set_min_size p v = st32 (p + 28) v"
definition set_min_req_size :: "u64 \<Rightarrow> u32 \<Rightarrow> mem \<Rightarrow> mem" where "set_min_req_size p v = st32 (p + 32) v"

lemmas major_fields =
  maj_prev_def maj_next_def maj_pages_def maj_size_def maj_usage_def maj_first_def
  set_maj_prev_def set_maj_next_def set_maj_pages_def set_maj_size_def set_maj_usage_def
  set_maj_first_def

lemmas minor_fields =
  min_prev_def min_next_def min_block_def min_magic_def min_size_def min_req_size_def
  set_min_prev_def set_min_next_def set_min_block_def set_min_magic_def set_min_size_def
  set_min_req_size_def

abbreviation upd :: "(mem \<Rightarrow> mem) \<Rightarrow> 'a pmm_state_scheme \<Rightarrow> 'a pmm_state_scheme" where
  "upd f s \<equiv> s\<lparr>mem := f (mem s)\<rparr>"

section \<open>Wrappers and helpers\<close>

definition liballoc_lock :: "'a heap_state_scheme \<Rightarrow> 'a heap_state_scheme option" where
  "liballoc_lock s =
     map_option (\<lambda>l. s\<lparr>liballoc_lock_var := l\<rparr>) (spinlock_acquire (liballoc_lock_var s))"

definition liballoc_unlock :: "'a heap_state_scheme \<Rightarrow> 'a heap_state_scheme" where
  "liballoc_unlock s = s\<lparr>liballoc_lock_var := spinlock_release (liballoc_lock_var s)\<rparr>"

text \<open>
  The wrappers take \<open>int pages\<close>. The null result of a failed request is not checked before
  the offset of the higher half is added.
\<close>

definition liballoc_alloc :: "u32 \<Rightarrow> 'a pmm_state_scheme \<Rightarrow> u64 \<times> 'a pmm_state_scheme" where
  "liballoc_alloc pages s =
     (case pmm_request_pages (scast pages) s of (p, s') \<Rightarrow> (p + hhdm_offset s', s'))"

definition liballoc_free ::
  "u64 \<Rightarrow> u32 \<Rightarrow> 'a pmm_state_scheme \<Rightarrow> (unit, 'a pmm_state_scheme) outcome" where
  "liballoc_free ptr pages s = pmm_free_pages ptr (scast pages) s"

text \<open>The index of \<open>liballoc_memset\<close> has 32 bits: with a longer length it never ends.\<close>

partial_function (option) liballoc_memset_loop ::
  "u64 \<Rightarrow> u8 \<Rightarrow> u32 \<Rightarrow> u64 \<Rightarrow> mem \<Rightarrow> mem option" where
  "liballoc_memset_loop p c i n m =
     (if ucast i < n then liballoc_memset_loop p c (i + 1) n (st8 (p + ucast i) c m)
      else Some m)"

declare liballoc_memset_loop.simps [code]

definition liballoc_memset :: "u64 \<Rightarrow> u32 \<Rightarrow> u64 \<Rightarrow> mem \<Rightarrow> mem option" where
  "liballoc_memset p c n m = liballoc_memset_loop p (ucast c) 0 n m"

text \<open>Whole 32-bit words first, then the rest byte by byte.\<close>

function copy_words :: "u64 \<Rightarrow> u64 \<Rightarrow> u64 \<Rightarrow> mem \<Rightarrow> u64 \<times> u64 \<times> u64 \<times> mem" where
  "copy_words d s n m =
     (if 4 \<le> n then copy_words (d + 4) (s + 4) (n - 4) (st32 d (ld32 m s) m)
      else (d, s, n, m))"
  by pat_completeness auto
termination
  by (relation "measure (\<lambda>(d, s, n, m). unat n)") (auto simp: word_le_nat_alt unat_sub)

function copy_bytes :: "u64 \<Rightarrow> u64 \<Rightarrow> u64 \<Rightarrow> mem \<Rightarrow> mem" where
  "copy_bytes d s n m =
     (if 0 < n then copy_bytes (d + 1) (s + 1) (n - 1) (st8 d (ld8 m s) m) else m)"
  by pat_completeness auto
termination
  by (relation "measure (\<lambda>(d, s, n, m). unat n)") (auto simp: word_gt_0 unat_minus_one unat_gt_0)

declare copy_words.simps [simp del] copy_bytes.simps [simp del]

definition liballoc_memcpy :: "u64 \<Rightarrow> u64 \<Rightarrow> u64 \<Rightarrow> mem \<Rightarrow> mem" where
  "liballoc_memcpy d s n m = (case copy_words d s n m of (d', s', n', m') \<Rightarrow> copy_bytes d' s' n' m')"

text \<open>
  The macros \<open>ALIGN\<close> and \<open>UNALIGN\<close>. The byte sixteen below an aligned pointer holds how far
  the pointer was moved; it is read back as a signed \<open>char\<close>.
\<close>

definition ALIGN :: "u64 \<Rightarrow> 'a pmm_state_scheme \<Rightarrow> u64 \<times> 'a pmm_state_scheme" where
  "ALIGN ptr s =
     (let p1 = ptr + ALIGN_INFO;
          d = p1 AND (ALIGNMENT - 1);
          diff = (if d \<noteq> 0 then ALIGNMENT - d else 0);
          p2 = (if d \<noteq> 0 then p1 + diff else p1)
      in (p2, upd (st8 (p2 - ALIGN_INFO) (ucast (diff + ALIGN_INFO))) s))"

definition UNALIGN :: "u64 \<Rightarrow> mem \<Rightarrow> u64" where
  "UNALIGN ptr m =
     (let diff = scast (ld8 m (ptr - ALIGN_INFO))
      in if diff < ALIGNMENT + ALIGN_INFO then ptr - diff else ptr)"

text \<open>
  The log lines of the heap. The preprocessor leaves the name of its macro \<open>PREFIX\<close> alone in
  the format strings.
\<close>

definition no_block_line :: "u32 \<Rightarrow> log_line" where
  "no_block_line st = WARN (''liballoc: liballoc_alloc( %i ) return NULL'' @ nl) [Slot (ucast st)]"
definition no_root_line :: log_line where
  "no_root_line = ERROR (''liballoc: initial l_memRoot initialization failed'' @ nl) [Slot 0]"
definition alloc_zero_line :: "u64 \<Rightarrow> log_line" where
  "alloc_zero_line ret = WARN (''liballoc: alloc( 0 ) called from %x'' @ nl) [Slot ret]"
definition exhausted_line :: log_line where
  "exhausted_line = WARN (''All cases exhausted. No memory available.'' @ nl) []"
definition malloc_null_line :: "u64 \<Rightarrow> log_line" where
  "malloc_null_line sz = WARN (''liballoc: PREFIX(malloc)( %i ) returning NULL.'' @ nl) [Slot sz]"
definition free_null_line :: "u64 \<Rightarrow> log_line" where
  "free_null_line ret = WARN (''liballoc:PREFIX(free)( NULL ) called from %x'' @ nl) [Slot ret]"
definition overrun_line :: "string \<Rightarrow> u32 \<Rightarrow> log_line" where
  "overrun_line level magic =
     (level, ''liballoc: Possible 1-3 byte overrun for magic %x != %x'' @ nl,
      [Slot (ucast magic), Slot (ucast LIBALLOC_MAGIC)])"
definition double_free_line :: "string \<Rightarrow> u64 \<Rightarrow> u64 \<Rightarrow> log_line" where
  "double_free_line prefix ptr ret =
     ERROR (prefix @ ''multiple PREFIX(free)() attempt on %x from %x.'' @ nl) [Slot ptr, Slot ret]"
definition bad_free_line :: "string \<Rightarrow> u64 \<Rightarrow> u64 \<Rightarrow> log_line" where
  "bad_free_line prefix ptr ret = ERROR (prefix @ ''Bad PREFIX(free)( %x ) called from %x'' @ nl) [Slot ptr, Slot ret]"

definition allocate_new_page :: "u32 \<Rightarrow> 'a heap_state_scheme \<Rightarrow> u64 \<times> 'a heap_state_scheme" where
  "allocate_new_page sz s =
     (let st0 = sz + ucast sizeof_major + ucast sizeof_minor;
          st1 = (if st0 mod l_pageSize = 0 then st0 div l_pageSize else st0 div l_pageSize + 1);
          st = (if st1 < l_pageCount then l_pageCount else st1)
      in case liballoc_alloc st s of (maj, s1) \<Rightarrow>
           if maj = 0
           then (0, report (no_block_line st) (s1\<lparr>l_warningCount := l_warningCount s1 + 1\<rparr>))
           else
             let s2 = upd (set_maj_first maj 0 \<circ> set_maj_usage maj (ucast sizeof_major) \<circ>
                           set_maj_size maj (st * l_pageSize) \<circ> set_maj_pages maj st \<circ>
                           set_maj_next maj 0 \<circ> set_maj_prev maj 0) s1
             in (maj, s2\<lparr>l_allocated := l_allocated s2 + ucast (st * l_pageSize)\<rparr>))"

section \<open>Allocation\<close>

text \<open>\<open>maj->usage += size + sizeof(struct liballoc_minor)\<close>, in 64 bits and then cut to 32.\<close>

definition add_usage :: "u64 \<Rightarrow> u64 \<Rightarrow> mem \<Rightarrow> mem" where
  "add_usage maj sz m =
     set_maj_usage maj (ucast (ucast (maj_usage m maj) + (sz + sizeof_minor) :: u64)) m"

definition claim :: "u64 \<Rightarrow> u64 \<Rightarrow> 'a heap_state_scheme \<Rightarrow> u64 \<times> 'a heap_state_scheme" where
  "claim min_ptr sz s = ALIGN (min_ptr + sizeof_minor) (s\<lparr>l_inuse := l_inuse s + sz\<rparr>)"

text \<open>Case 2: the block is empty. Case 3: there is room before its first minor.\<close>

definition case2 ::
  "u64 \<Rightarrow> u64 \<Rightarrow> u64 \<Rightarrow> 'a heap_state_scheme \<Rightarrow> u64 \<times> 'a heap_state_scheme" where
  "case2 sz req_size maj s =
     (let first = maj + sizeof_major
      in claim first sz
           (upd (add_usage maj sz \<circ> set_min_req_size first (ucast req_size) \<circ>
                 set_min_size first (ucast sz) \<circ> set_min_block first maj \<circ>
                 set_min_next first 0 \<circ> set_min_prev first 0 \<circ>
                 set_min_magic first LIBALLOC_MAGIC \<circ> set_maj_first maj first) s))"

definition case3 ::
  "u64 \<Rightarrow> u64 \<Rightarrow> u64 \<Rightarrow> 'a heap_state_scheme \<Rightarrow> u64 \<times> 'a heap_state_scheme" where
  "case3 sz req_size maj s =
     (let old = maj_first (mem s) maj; first = maj + sizeof_major
      in claim first sz
           (upd (add_usage maj sz \<circ> set_min_req_size first (ucast req_size) \<circ>
                 set_min_size first (ucast sz) \<circ> set_min_block first maj \<circ>
                 set_min_prev first 0 \<circ> set_min_magic first LIBALLOC_MAGIC \<circ>
                 set_maj_first maj first \<circ> set_min_next first old \<circ>
                 set_min_prev old first) s))"

text \<open>Case 4.1: room after the last minor. Case 4.2: room between two minors.\<close>

definition case41 ::
  "u64 \<Rightarrow> u64 \<Rightarrow> u64 \<Rightarrow> u64 \<Rightarrow> 'a heap_state_scheme \<Rightarrow> u64 \<times> 'a heap_state_scheme" where
  "case41 sz req_size maj min_ptr s =
     (let new_min = min_ptr + sizeof_minor + ucast (min_size (mem s) min_ptr)
      in claim new_min sz
           (upd (add_usage maj sz \<circ> set_min_req_size new_min (ucast req_size) \<circ>
                 set_min_size new_min (ucast sz) \<circ> set_min_block new_min maj \<circ>
                 set_min_magic new_min LIBALLOC_MAGIC \<circ> set_min_next new_min 0 \<circ>
                 set_min_prev new_min min_ptr \<circ> set_min_next min_ptr new_min) s))"

definition case42 ::
  "u64 \<Rightarrow> u64 \<Rightarrow> u64 \<Rightarrow> u64 \<Rightarrow> 'a heap_state_scheme \<Rightarrow> u64 \<times> 'a heap_state_scheme" where
  "case42 sz req_size maj min_ptr s =
     (let new_min = min_ptr + sizeof_minor + ucast (min_size (mem s) min_ptr);
          after = min_next (mem s) min_ptr
      in claim new_min sz
           (upd (add_usage maj sz \<circ> set_min_next min_ptr new_min \<circ>
                 set_min_prev after new_min \<circ> set_min_block new_min maj \<circ>
                 set_min_req_size new_min (ucast req_size) \<circ>
                 set_min_size new_min (ucast sz) \<circ> set_min_prev new_min min_ptr \<circ>
                 set_min_next new_min after \<circ> set_min_magic new_min LIBALLOC_MAGIC) s))"

definition room_after :: "mem \<Rightarrow> u64 \<Rightarrow> u64 \<Rightarrow> u64" where
  "room_after m min_ptr bound = bound - min_ptr - sizeof_minor - ucast (min_size m min_ptr)"

text \<open>The inner loop; its result is the pointer of case 4, or \<open>None\<close> after the last minor.\<close>

partial_function (option) scan_minors ::
  "u64 \<Rightarrow> u64 \<Rightarrow> u64 \<Rightarrow> u64 \<Rightarrow> 'a heap_state_scheme \<Rightarrow> (u64 option \<times> 'a heap_state_scheme) option" where
  "scan_minors sz req_size maj min_ptr s =
     (if min_ptr = 0 then Some (None, s)
      else if min_next (mem s) min_ptr = 0 \<and>
          sz + sizeof_minor \<le> room_after (mem s) min_ptr (maj + ucast (maj_size (mem s) maj))
      then Some (apfst Some (case41 sz req_size maj min_ptr s))
      else if min_next (mem s) min_ptr \<noteq> 0 \<and>
          sz + sizeof_minor \<le> room_after (mem s) min_ptr (min_next (mem s) min_ptr)
      then Some (apfst Some (case42 sz req_size maj min_ptr s))
      else scan_minors sz req_size maj (min_next (mem s) min_ptr) s)"

declare scan_minors.simps [code]

text \<open>Cases 2 to 4 on one major block.\<close>

definition try_block ::
  "u64 \<Rightarrow> u64 \<Rightarrow> u64 \<Rightarrow> 'a heap_state_scheme \<Rightarrow> (u64 option \<times> 'a heap_state_scheme) option" where
  "try_block sz req_size maj s =
     (if maj_first (mem s) maj = 0 then Some (apfst Some (case2 sz req_size maj s))
      else if sz + sizeof_minor \<le> maj_first (mem s) maj - maj - sizeof_major
      then Some (apfst Some (case3 sz req_size maj s))
      else scan_minors sz req_size maj (maj_first (mem s) maj) s)"

text \<open>
  How the outer loop goes on: with another block and flag (\<open>continue\<close>), with cases 2 to 5 on
  a block, or out of the loop (\<open>break\<close>).
\<close>

datatype next_step = Continue u64 bool | Here u64 | Break

definition append_page :: "u64 \<Rightarrow> u64 \<Rightarrow> 'a heap_state_scheme \<Rightarrow> u64 \<times> 'a heap_state_scheme" where
  "append_page sz maj s =
     (case allocate_new_page (ucast sz) s of (new_maj, s1) \<Rightarrow>
        let s2 = upd (set_maj_next maj new_maj) s1
        in if new_maj = 0 then (0, s2) else (new_maj, upd (set_maj_prev new_maj maj) s2))"

definition free_space :: "mem \<Rightarrow> u64 \<Rightarrow> u64" where
  "free_space m maj = ucast (maj_size m maj - maj_usage m maj)"

definition case1 ::
  "u64 \<Rightarrow> u64 \<Rightarrow> bool \<Rightarrow> 'a heap_state_scheme \<Rightarrow> next_step \<times> 'a heap_state_scheme" where
  "case1 sz maj startedBet s =
     (if free_space (mem s) maj < sz + sizeof_minor then
        if maj_next (mem s) maj \<noteq> 0 then (Continue (maj_next (mem s) maj) startedBet, s)
        else if startedBet then (Continue (l_memRoot s) False, s)
        else case append_page sz maj s of (new_maj, s1) \<Rightarrow>
               (if new_maj = 0 then Break else Here new_maj, s1)
      else (Here maj, s))"

definition case5 ::
  "u64 \<Rightarrow> u64 \<Rightarrow> bool \<Rightarrow> 'a heap_state_scheme \<Rightarrow> next_step \<times> 'a heap_state_scheme" where
  "case5 sz maj startedBet s =
     (if maj_next (mem s) maj = 0 then
        if startedBet then (Continue (l_memRoot s) False, s)
        else case append_page sz maj s of (new_maj, s1) \<Rightarrow>
               (if new_maj = 0 then Break else Continue new_maj startedBet, s1)
      else (Continue (maj_next (mem s) maj) startedBet, s))"

text \<open>In the release build the dump is empty.\<close>

definition liballoc_dump :: "'a heap_state_scheme \<Rightarrow> 'a heap_state_scheme" where
  "liballoc_dump s = s"

definition malloc_failed :: "u64 \<Rightarrow> 'a heap_state_scheme \<Rightarrow> u64 \<times> 'a heap_state_scheme" where
  "malloc_failed sz s =
     (0, liballoc_dump
           (report (malloc_null_line sz) (report exhausted_line (liballoc_unlock s))))"

partial_function (option) malloc_loop ::
  "u64 \<Rightarrow> u64 \<Rightarrow> u64 \<Rightarrow> bool \<Rightarrow> u64 \<Rightarrow> 'a heap_state_scheme \<Rightarrow> (u64 \<times> 'a heap_state_scheme) option" where
  "malloc_loop sz req_size maj startedBet bestSize s =
     (if maj = 0 then Some (malloc_failed sz s)
      else
        let diff = free_space (mem s) maj;
            s1 = (if bestSize < diff then s\<lparr>l_bestBet := maj\<rparr> else s);
            best = (if bestSize < diff then diff else bestSize)
        in case case1 sz maj startedBet s1 of
             (Break, s2) \<Rightarrow> Some (malloc_failed sz s2)
           | (Continue maj' bet, s2) \<Rightarrow> malloc_loop sz req_size maj' bet best s2
           | (Here maj', s2) \<Rightarrow>
               Option.bind (try_block sz req_size maj' s2) (\<lambda>(r, s3).
                 case r of
                   Some p \<Rightarrow> Some (p, liballoc_unlock s3)
                 | None \<Rightarrow>
                     (case case5 sz maj' startedBet s3 of
                        (Continue maj'' bet, s4) \<Rightarrow> malloc_loop sz req_size maj'' bet best s4
                      | (_, s4) \<Rightarrow> Some (malloc_failed sz s4))))"

declare malloc_loop.simps [code]

text \<open>\<open>kmalloc\<close> from the test of \<open>l_memRoot\<close> on, with the lock held.\<close>

definition malloc_locked ::
  "u64 \<Rightarrow> u64 \<Rightarrow> 'a heap_state_scheme \<Rightarrow> (u64 \<times> 'a heap_state_scheme) option" where
  "malloc_locked sz req_size s =
     (let s1 = (if l_memRoot s = 0
                then (case allocate_new_page (ucast sz) s of (r, s') \<Rightarrow> s'\<lparr>l_memRoot := r\<rparr>)
                else s)
      in if l_memRoot s1 = 0
         then Some (0, report no_root_line (liballoc_unlock s1))
         else
           let bestSize = (if l_bestBet s1 \<noteq> 0 then free_space (mem s1) (l_bestBet s1) else 0);
               bet = (l_bestBet s1 \<noteq> 0 \<and> bestSize > sz + sizeof_minor)
           in malloc_loop sz req_size (if bet then l_bestBet s1 else l_memRoot s1) bet bestSize s1)"

text \<open>The padded size wraps to \<open>0\<close> for one request, which is then served as a request for one byte.\<close>

definition kmalloc ::
  "u64 \<Rightarrow> 'a heap_state_scheme \<Rightarrow> (u64 \<times> 'a heap_state_scheme) option" where
  "kmalloc req_size s =
     Option.bind (liballoc_lock s) (\<lambda>s1.
       if req_size + (ALIGNMENT + ALIGN_INFO) = 0 then
         Option.bind (liballoc_lock (liballoc_unlock
             (report (alloc_zero_line (return_address s1)) (s1\<lparr>l_warningCount := l_warningCount s1 + 1\<rparr>))))
           (malloc_locked (1 + (ALIGNMENT + ALIGN_INFO)) 1)
       else malloc_locked (req_size + (ALIGNMENT + ALIGN_INFO)) req_size s1)"

section \<open>Freeing\<close>

text \<open>
  A header without the magic number: the error counters and the log lines, whose level and
  prefix differ between \<open>kfree\<close> and \<open>krealloc\<close>.
\<close>

definition bad_magic ::
  "string \<Rightarrow> string \<Rightarrow> u32 \<Rightarrow> u64 \<Rightarrow> 'a heap_state_scheme \<Rightarrow> 'a heap_state_scheme" where
  "bad_magic level prefix magic ptr s =
     (let s1 = s\<lparr>l_errorCount := l_errorCount s + 1\<rparr>;
          s2 = if magic AND 0xFFFFFF = LIBALLOC_MAGIC AND 0xFFFFFF \<or>
            magic AND 0xFFFF = LIBALLOC_MAGIC AND 0xFFFF \<or>
            magic AND 0xFF = LIBALLOC_MAGIC AND 0xFF
         then report (overrun_line level magic) (s1\<lparr>l_possibleOverruns := l_possibleOverruns s1 + 1\<rparr>)
         else s1
      in if magic = LIBALLOC_DEAD then report (double_free_line prefix ptr (return_address s)) s2
         else report (bad_free_line prefix ptr (return_address s)) s2)"

definition unlink_minor :: "u64 \<Rightarrow> mem \<Rightarrow> mem" where
  "unlink_minor min_ptr m =
     (let maj = min_block m min_ptr;
          m1 = set_maj_usage maj (ucast (ucast (maj_usage m maj) -
                 (ucast (min_size m min_ptr) + sizeof_minor) :: u64)) m;
          m2 = set_min_magic min_ptr LIBALLOC_DEAD m1;
          m3 = (if min_next m2 min_ptr \<noteq> 0
                then set_min_prev (min_next m2 min_ptr) (min_prev m2 min_ptr) m2 else m2);
          m4 = (if min_prev m3 min_ptr \<noteq> 0
                then set_min_next (min_prev m3 min_ptr) (min_next m3 min_ptr) m3 else m3)
      in if min_prev m4 min_ptr = 0 then set_maj_first maj (min_next m4 min_ptr) m4 else m4)"

definition release_major ::
  "u64 \<Rightarrow> 'a heap_state_scheme \<Rightarrow> (unit, 'a heap_state_scheme) outcome" where
  "release_major maj s =
     (let s1 = (if l_memRoot s = maj then s\<lparr>l_memRoot := maj_next (mem s) maj\<rparr> else s);
          s2 = (if l_bestBet s1 = maj then s1\<lparr>l_bestBet := 0\<rparr> else s1);
          s3 = (if maj_prev (mem s2) maj \<noteq> 0
                then upd (\<lambda>m. set_maj_next (maj_prev m maj) (maj_next m maj) m) s2 else s2);
          s4 = (if maj_next (mem s3) maj \<noteq> 0
                then upd (\<lambda>m. set_maj_prev (maj_next m maj) (maj_prev m maj) m) s3 else s3);
          s5 = s4\<lparr>l_allocated := l_allocated s4 - ucast (maj_size (mem s4) maj)\<rparr>
      in liballoc_free maj (maj_pages (mem s5) maj) s5)"

definition update_bet :: "u64 \<Rightarrow> 'a heap_state_scheme \<Rightarrow> 'a heap_state_scheme" where
  "update_bet maj s =
     (if l_bestBet s \<noteq> 0 \<and>
         sint (maj_size (mem s) (l_bestBet s) - maj_usage (mem s) (l_bestBet s))
           < sint (maj_size (mem s) maj - maj_usage (mem s) maj)
      then s\<lparr>l_bestBet := maj\<rparr> else s)"

definition kfree ::
  "u64 \<Rightarrow> 'a heap_state_scheme \<Rightarrow> (unit, 'a heap_state_scheme) outcome option" where
  "kfree ptr s =
     (if ptr = 0
      then Some (Ret ()
        (report (free_null_line (return_address s)) (s\<lparr>l_warningCount := l_warningCount s + 1\<rparr>)))
      else
        let p = UNALIGN ptr (mem s) in
        Option.bind (liballoc_lock s) (\<lambda>s1.
          let min_ptr = p - sizeof_minor in
          if min_magic (mem s1) min_ptr \<noteq> LIBALLOC_MAGIC
          then Some (Ret () (liballoc_unlock
                 (bad_magic ''WARN'' ''liballoc: '' (min_magic (mem s1) min_ptr) p s1)))
          else
            let maj = min_block (mem s1) min_ptr;
                s2 = s1\<lparr>l_inuse := l_inuse s1 - ucast (min_size (mem s1) min_ptr)\<rparr>;
                s3 = upd (unlink_minor min_ptr) s2
            in if maj_first (mem s3) maj = 0
               then (case release_major maj s3 of
                       Halt s4 \<Rightarrow> Some (Halt s4)
                     | Ret _ s4 \<Rightarrow> Some (Ret () (liballoc_unlock s4)))
               else Some (Ret () (liballoc_unlock (update_bet maj s3)))))"

section \<open>The dump of the debug build\<close>

text \<open>The lines of the two nested loops, over the headers from \<open>min\<close> and from \<open>maj\<close> on.\<close>

partial_function (option) dump_minors :: "mem \<Rightarrow> u64 \<Rightarrow> log_line list option" where
  "dump_minors m min_ptr =
     (if min_ptr = 0 then Some []
      else Option.bind (dump_minors m (min_next m min_ptr)) (\<lambda>ls.
             Some (INFO (''liballoc:    %x: %i bytes'' @ nl) [Slot min_ptr, Slot (ucast (min_size m min_ptr))] # ls)))"

partial_function (option) dump_majors :: "mem \<Rightarrow> u64 \<Rightarrow> log_line list option" where
  "dump_majors m maj =
     (if maj = 0 then Some []
      else Option.bind (dump_minors m (maj_first m maj)) (\<lambda>ls.
           Option.bind (dump_majors m (maj_next m maj)) (\<lambda>rest.
             Some (INFO (''liballoc: %x: total = %i, used = %i'' @ nl)
               [Slot maj, Slot (ucast (maj_size m maj)), Slot (ucast (maj_usage m maj))] # ls @ rest))))"

declare dump_minors.simps [code] dump_majors.simps [code]

definition dump_header :: "'a heap_state_scheme \<Rightarrow> log_line list" where
  "dump_header s =
     [INFO (''liballoc: ------ Memory data ---------------'' @ nl) [],
      INFO (''liballoc: System memory allocated: %i bytes'' @ nl) [Slot (l_allocated s)],
      INFO (''liballoc: Memory in used (malloc'ed): %i bytes'' @ nl) [Slot (l_inuse s)],
      INFO (''liballoc: Warning count: %i'' @ nl) [Slot (l_warningCount s)],
      INFO (''liballoc: Error count: %i'' @ nl) [Slot (l_errorCount s)],
      INFO (''liballoc: Possible overruns: %i'' @ nl) [Slot (l_possibleOverruns s)]]"

definition liballoc_dump_debug :: "'a heap_state_scheme \<Rightarrow> 'a heap_state_scheme option" where
  "liballoc_dump_debug s =
     map_option (\<lambda>ls. s\<lparr>klog := klog s @ dump_header s @ ls\<rparr>) (dump_majors (mem s) (l_memRoot s))"

section \<open>The other entry points\<close>

definition kcalloc ::
  "u64 \<Rightarrow> u64 \<Rightarrow> 'a heap_state_scheme \<Rightarrow> (u64 \<times> 'a heap_state_scheme) option" where
  "kcalloc nobj sz s =
     (let real_size = (ucast (nobj * sz) :: u32) in
      Option.bind (kmalloc (scast real_size) s) (\<lambda>(p, s1).
        Option.bind (liballoc_memset p 0 (scast real_size) (mem s1)) (\<lambda>m.
          Some (p, s1\<lparr>mem := m\<rparr>))))"

definition krealloc ::
  "u64 \<Rightarrow> u64 \<Rightarrow> 'a heap_state_scheme \<Rightarrow> (u64, 'a heap_state_scheme) outcome option" where
  "krealloc p sz s =
     (if sz = 0 then
        map_option (\<lambda>r. case r of Halt t \<Rightarrow> Halt t | Ret _ t \<Rightarrow> Ret 0 t) (kfree p s)
      else if p = 0 then map_option (\<lambda>(q, t). Ret q t) (kmalloc sz s)
      else
        let ptr = UNALIGN p (mem s) in
        Option.bind (liballoc_lock s) (\<lambda>s1.
          let min_ptr = ptr - sizeof_minor in
          if min_magic (mem s1) min_ptr \<noteq> LIBALLOC_MAGIC
          then Some (Ret 0 (liballoc_unlock
                 (bad_magic ''ERROR'' ''liballoc: liballoc: '' (min_magic (mem s1) min_ptr) ptr s1)))
          else
            let real_size = min_req_size (mem s1) min_ptr in
            if sz \<le> ucast real_size
            then Some (Ret p (liballoc_unlock (upd (set_min_req_size min_ptr (ucast sz)) s1)))
            else
              Option.bind (kmalloc sz (liballoc_unlock s1)) (\<lambda>(q, s2).
                let s3 = upd (liballoc_memcpy q p (ucast real_size)) s2 in
                map_option (\<lambda>r. case r of Halt t \<Rightarrow> Halt t | Ret _ t \<Rightarrow> Ret q t) (kfree p s3))))"

end
