(* ===== verification/Console.thy ===== *)
theory Console
  imports Liballoc Nanoprintf
begin

text \<open>
  The console, \<^verbatim>\<open>olive/src/lib/printf.c\<close>, with the port accesses of
  \<^verbatim>\<open>olive/src/dev/serial.c\<close> and the \<open>LOG\<close> macro of \<^verbatim>\<open>olive/include/olive.h\<close>
  in its release configuration (\<open>_DEBUG\<close> and \<open>_TRACE\<close> are \<open>0\<close>, so \<open>DEBUG\<close> and \<open>TRACE\<close> expand
  to nothing). Accesses to I/O ports and the bytes handed to the terminal library, flanterm,
  are recorded in the state; the local buffer of \<open>vfprintf\<close> is a block of byte memory at an
  address \<open>vfprintf_buffer\<close> on the kernel stack. \<open>None\<close> is a call that does not return: it
  spins on \<open>printf_lock\<close>, or its arguments do not fit its format.
\<close>

section \<open>State and ports\<close>

text \<open>
  One access to an I/O port. What a port answers to a read is the device's: a function \<open>dev\<close> of
  the accesses before it and the port.
\<close>

datatype port_access =
    In8 u16 | Out8 u16 u8
  | In16 u16 | Out16 u16 u16
  | In32 u16 | Out32 u16 u32

record con_state = heap_state +
  ft_ctx :: u64
  io_log :: "port_access list"
  term_out :: "u8 list"
  printf_lock :: spinlock_t
  vfprintf_buffer :: u64

definition inb ::
  "(port_access list \<Rightarrow> u16 \<Rightarrow> u8) \<Rightarrow> u16 \<Rightarrow> 'a con_state_scheme \<Rightarrow> u8 \<times> 'a con_state_scheme" where
  "inb dev port s = (dev (io_log s) port, s\<lparr>io_log := io_log s @ [In8 port]\<rparr>)"

definition outb :: "u16 \<Rightarrow> u8 \<Rightarrow> 'a con_state_scheme \<Rightarrow> 'a con_state_scheme" where
  "outb port v s = s\<lparr>io_log := io_log s @ [Out8 port v]\<rparr>"

definition inw ::
  "(port_access list \<Rightarrow> u16 \<Rightarrow> u16) \<Rightarrow> u16 \<Rightarrow> 'a con_state_scheme \<Rightarrow> u16 \<times> 'a con_state_scheme" where
  "inw dev port s = (dev (io_log s) port, s\<lparr>io_log := io_log s @ [In16 port]\<rparr>)"

definition outw :: "u16 \<Rightarrow> u16 \<Rightarrow> 'a con_state_scheme \<Rightarrow> 'a con_state_scheme" where
  "outw port v s = s\<lparr>io_log := io_log s @ [Out16 port v]\<rparr>"

definition inl ::
  "(port_access list \<Rightarrow> u16 \<Rightarrow> u32) \<Rightarrow> u16 \<Rightarrow> 'a con_state_scheme \<Rightarrow> u32 \<times> 'a con_state_scheme" where
  "inl dev port s = (dev (io_log s) port, s\<lparr>io_log := io_log s @ [In32 port]\<rparr>)"

definition outl :: "u16 \<Rightarrow> u32 \<Rightarrow> 'a con_state_scheme \<Rightarrow> 'a con_state_scheme" where
  "outl port v s = s\<lparr>io_log := io_log s @ [Out32 port v]\<rparr>"

definition flanterm_write :: "u8 list \<Rightarrow> 'a con_state_scheme \<Rightarrow> 'a con_state_scheme" where
  "flanterm_write bs s = s\<lparr>term_out := term_out s @ bs\<rparr>"

section \<open>Characters and strings\<close>

definition acquire_printf :: "'a con_state_scheme \<Rightarrow> 'a con_state_scheme option" where
  "acquire_printf s = map_option (\<lambda>l. s\<lparr>printf_lock := l\<rparr>) (spinlock_acquire (printf_lock s))"

definition release_printf :: "'a con_state_scheme \<Rightarrow> 'a con_state_scheme" where
  "release_printf s = s\<lparr>printf_lock := spinlock_release (printf_lock s)\<rparr>"

definition putchar :: "u8 \<Rightarrow> 'a con_state_scheme \<Rightarrow> (int \<times> 'a con_state_scheme) option" where
  "putchar ch s =
     Option.bind (acquire_printf s) (\<lambda>s1.
       let s2 = (if ft_ctx s1 \<noteq> 0 then flanterm_write [ch] (outb 0x3f8 ch s1) else s1)
       in Some (sint ch, release_printf s2))"

fun puts_loop :: "string \<Rightarrow> int \<Rightarrow> 'a con_state_scheme \<Rightarrow> (int \<times> 'a con_state_scheme) option" where
  "puts_loop [] n s = Some (n, s)"
| "puts_loop (c # cs) n s =
     Option.bind (putchar (of_char c) s) (\<lambda>(_, s'). puts_loop cs (n + 1) s')"

definition puts :: "string \<Rightarrow> 'a con_state_scheme \<Rightarrow> (int \<times> 'a con_state_scheme) option" where
  "puts str s =
     Option.bind (acquire_printf s) (\<lambda>s1.
     Option.bind (puts_loop (c_string str) 0 s1) (\<lambda>(n, s2).
     Option.bind (putchar 10 s2) (\<lambda>(_, s3).
       Some (n + 1, release_printf s3))))"

section \<open>Formatted output\<close>

text \<open>The loop \<open>for (i = 0; i < length; i++) putchar(buffer[i])\<close>, with \<open>n\<close> characters to go.\<close>

primrec put_buffer :: "nat \<Rightarrow> u64 \<Rightarrow> 'a con_state_scheme \<Rightarrow> 'a con_state_scheme option" where
  "put_buffer 0 p s = Some s"
| "put_buffer (Suc n) p s =
     Option.bind (putchar (ld8 (mem s) p) s) (\<lambda>(_, s'). put_buffer n (p + 1) s')"

definition vfprintf :: "string \<Rightarrow> va list \<Rightarrow> 'a con_state_scheme \<Rightarrow> (int \<times> 'a con_state_scheme) option" where
  "vfprintf fmt as s =
     Option.bind (npf_vsnprintf (vfprintf_buffer s) 1024 fmt as (mem s)) (\<lambda>(n, m).
       let s1 = s\<lparr>mem := m\<rparr> in
       if 0 \<le> n \<and> n < 1024
       then map_option (\<lambda>s2. (n, s2)) (put_buffer (nat n) (vfprintf_buffer s1) s1)
       else Some (n, s1))"

definition vprintf :: "string \<Rightarrow> va list \<Rightarrow> 'a con_state_scheme \<Rightarrow> (int \<times> 'a con_state_scheme) option" where
  "vprintf fmt as s = vfprintf fmt as s"

definition printf :: "string \<Rightarrow> va list \<Rightarrow> 'a con_state_scheme \<Rightarrow> (int \<times> 'a con_state_scheme) option" where
  "printf fmt as s = vprintf fmt as s"

definition fprintf :: "string \<Rightarrow> va list \<Rightarrow> 'a con_state_scheme \<Rightarrow> (int \<times> 'a con_state_scheme) option" where
  "fprintf fmt as s = vfprintf fmt as s"

definition snprintf ::
  "u64 \<Rightarrow> u64 \<Rightarrow> string \<Rightarrow> va list \<Rightarrow> 'a con_state_scheme \<Rightarrow> (int \<times> 'a con_state_scheme) option" where
  "snprintf str sz fmt as s = map_option (\<lambda>(n, m). (n, s\<lparr>mem := m\<rparr>)) (npf_vsnprintf str sz fmt as (mem s))"

section \<open>Logging\<close>

text \<open>The macro itself.\<close>

definition LOG :: "string \<Rightarrow> string \<Rightarrow> va list \<Rightarrow> 'a con_state_scheme \<Rightarrow> 'a con_state_scheme option" where
  "LOG level fmt as s =
     Option.bind (printf ''[%s]: '' [Str level] s) (\<lambda>(_, s1).
       map_option snd (printf fmt as s1))"

primrec log_lines :: "log_line list \<Rightarrow> 'a con_state_scheme \<Rightarrow> 'a con_state_scheme option" where
  "log_lines [] s = Some s"
| "log_lines (l # ls) s =
     (case l of (level, fmt, as) \<Rightarrow> Option.bind (LOG level fmt as s) (log_lines ls))"

text \<open>
  The lines that the layers below recorded, printed: where the code is at the end of a call of
  such a layer, all of its lines have gone through the macro, or the call has spun on the console's
  lock at the first of them.
\<close>

definition flush_log :: "'a con_state_scheme \<Rightarrow> 'a con_state_scheme option" where
  "flush_log s = log_lines (klog s) (s\<lparr>klog := []\<rparr>)"

end
