(* ===== verification/ConsoleProps.thy ===== *)
theory ConsoleProps
  imports Console NanoProps
begin

text \<open>
  The console as a contract: a call that prints the text \<open>t\<close> takes a state to one in which
  exactly \<open>t\<close> has been added to the serial port's and the terminal's output, the lock is as
  it was, and memory outside the local buffer of \<open>vfprintf\<close> is untouched (\<open>emitted\<close>). The
  interrupt handlers and the boot code reason about their log lines through this relation.
\<close>

section \<open>The lock\<close>

interpretation console_guard: guarded printf_lock "\<lambda>l s. s\<lparr>printf_lock := l\<rparr>"
  by unfold_locales simp_all

lemma acquire_printf_entered: "acquire_printf s = console_guard.entered s"
  by (simp add: acquire_printf_def console_guard.entered_def)

lemma release_printf_left: "release_printf s = console_guard.left s"
  by (simp add: release_printf_def console_guard.left_def)

lemmas console_lock = acquire_printf_entered release_printf_left

section \<open>What a call prints\<close>

definition shown :: "string \<Rightarrow> 'a con_state_scheme \<Rightarrow> 'a con_state_scheme" where
  "shown t s =
     (let bs = (if ft_ctx s \<noteq> 0 then map of_char t else [])
      in s\<lparr>io_log := io_log s @ map (Out8 0x3f8) bs, term_out := term_out s @ bs\<rparr>)"

definition ready :: "'a con_state_scheme \<Rightarrow> bool" where
  "ready s \<longleftrightarrow> locked (printf_lock s) = 0 \<and> vfprintf_buffer s \<noteq> 0"

definition in_buffer :: "'a con_state_scheme \<Rightarrow> u64 \<Rightarrow> bool" where
  "in_buffer s x \<longleftrightarrow> unat (x - vfprintf_buffer s) < 1024"

definition emitted :: "string \<Rightarrow> 'a con_state_scheme \<Rightarrow> 'a con_state_scheme \<Rightarrow> bool" where
  "emitted t s s' \<longleftrightarrow>
     s' = (shown t s)\<lparr>mem := mem s'\<rparr> \<and> (\<forall>x. \<not> in_buffer s x \<longrightarrow> mem s' x = mem s x)"

lemma shown_fields [simp]:
  "ft_ctx (shown t s) = ft_ctx s" "printf_lock (shown t s) = printf_lock s" "mem (shown t s) = mem s"
  "vfprintf_buffer (shown t s) = vfprintf_buffer s"
  by (simp_all add: shown_def Let_def)

lemma shown_Nil [simp]: "shown [] s = s"
  by (simp add: shown_def)

lemma shown_shown: "shown u (shown t s) = shown (t @ u) s"
  by (simp add: shown_def Let_def)

lemma emitted_fields:
  assumes "emitted t s s'"
  shows "printf_lock s' = printf_lock s" "vfprintf_buffer s' = vfprintf_buffer s"
    "ft_ctx s' = ft_ctx s" "in_buffer s' = in_buffer s" "ready s' = ready s"
proof -
  from assms have eq: "s' = (shown t s)\<lparr>mem := mem s'\<rparr>" by (simp add: emitted_def)
  have *: "printf_lock s' = printf_lock s" "vfprintf_buffer s' = vfprintf_buffer s" "ft_ctx s' = ft_ctx s"
    by (subst eq, simp)+
  then show "printf_lock s' = printf_lock s" "vfprintf_buffer s' = vfprintf_buffer s"
    "ft_ctx s' = ft_ctx s" "in_buffer s' = in_buffer s" "ready s' = ready s"
    by (simp_all add: in_buffer_def ready_def fun_eq_iff)
qed

lemma emitted_refl: "emitted [] s s"
  by (simp add: emitted_def)

lemma shown_mem: "shown t (s\<lparr>mem := m\<rparr>) = (shown t s)\<lparr>mem := m\<rparr>"
  by (simp add: shown_def Let_def)

lemma emitted_trans:
  assumes "emitted t s s1" "emitted u s1 s2"
  shows "emitted (t @ u) s s2"
proof -
  from assms have eq: "s1 = (shown t s)\<lparr>mem := mem s1\<rparr>" "s2 = (shown u s1)\<lparr>mem := mem s2\<rparr>"
    by (simp_all add: emitted_def)
  have "s2 = (shown u ((shown t s)\<lparr>mem := mem s1\<rparr>))\<lparr>mem := mem s2\<rparr>" using eq by metis
  then have "s2 = (shown (t @ u) s)\<lparr>mem := mem s2\<rparr>" by (simp add: shown_mem shown_shown)
  with assms emitted_fields(4) [OF assms(1)] show ?thesis by (simp add: emitted_def)
qed

section \<open>Characters\<close>

lemma putchar_free:
  assumes "locked (printf_lock s) = 0"
  shows "putchar (of_char c) s = Some (sint (of_char c :: u8), shown [c] s)"
proof -
  have "\<lparr>locked = 0\<rparr> = printf_lock s" using assms by (cases "printf_lock s") simp
  then show ?thesis using assms
    by (cases s) (simp add: putchar_def acquire_printf_def release_printf_def acquire_eq
        spinlock_release_def sync_lock_release_def outb_def flanterm_write_def shown_def Let_def)
qed

lemma putchar_held: "locked (printf_lock s) \<noteq> 0 \<Longrightarrow> putchar c s = None"
  by (simp add: putchar_def console_lock console_guard.entered_held)

text \<open>
  \<open>puts\<close> never returns: it takes the console's lock and then calls \<open>putchar\<close>, which
  takes it again, at the latest for the newline it appends.
\<close>

theorem puts_never_returns: "puts str s = None"
proof (cases "acquire_printf s")
  case (Some t)
  then have held: "locked (printf_lock t) \<noteq> 0"
    by (auto simp: acquire_printf_def acquire_eq split: if_splits)
  then show ?thesis
    by (cases "c_string str") (simp_all add: puts_def Some putchar_held)
qed (simp add: puts_def)

lemma put_buffer_free:
  assumes "locked (printf_lock s) = 0" "\<And>i. i < length t \<Longrightarrow> mem s (p + of_nat i) = of_char (t ! i)"
  shows "put_buffer (length t) p s = Some (shown t s)"
  using assms
proof (induction t arbitrary: p s)
  case (Cons c t)
  have "mem (shown [c] s) (p + 1 + of_nat i) = of_char (t ! i)" if "i < length t" for i
    using Cons.prems(2) [of "Suc i"] that by (simp add: add.assoc)
  then have "put_buffer (length t) (p + 1) (shown [c] s) = Some (shown t (shown [c] s))"
    using Cons.prems(1) by (intro Cons.IH) simp_all
  moreover have "ld8 (mem s) p = of_char c" using Cons.prems(2) [of 0] by (simp add: ld8_def)
  ultimately show ?case using putchar_free [OF Cons.prems(1), of c] by (simp add: shown_shown)
qed simp

lemma put_buffer_held:
  "locked (printf_lock s) \<noteq> 0 \<Longrightarrow> 0 < n \<Longrightarrow> put_buffer n p s = None"
  by (cases n) (simp_all add: putchar_held)

section \<open>Formatted output\<close>

text \<open>A text that does not fit the buffer is not printed at all.\<close>

definition cut :: "string \<Rightarrow> string" where
  "cut t = (if length t < 1024 then t else [])"

lemma printf_emits:
  assumes "ready s" "npf_text fmt as = Some t"
  shows "\<exists>s'. printf fmt as s = Some (int (length t), s') \<and> emitted (cut t) s s'"
proof -
  let ?b = "vfprintf_buffer s"
  have b: "?b \<noteq> 0" and free: "locked (printf_lock s) = 0" using assms by (simp_all add: ready_def)
  obtain m where m: "npf_vsnprintf ?b 1024 fmt as (mem s) = Some (int (length t), m)"
    "\<And>i. i < length t \<Longrightarrow> i + 1 < unat (1024 :: u64) \<Longrightarrow> m (?b + of_nat i) = of_char (t ! i)"
    "\<And>x. unat (1024 :: u64) \<le> unat (x - ?b) \<Longrightarrow> m x = mem s x"
    by (rule npf_vsnprintf_text [OF assms(2) b, of 1024 "mem s"]) (simp, blast)
  show ?thesis
  proof (cases "length t < 1024")
    case True
    have "put_buffer (length t) ?b (s\<lparr>mem := m\<rparr>) = Some (shown t (s\<lparr>mem := m\<rparr>))"
      using m(2) True free by (intro put_buffer_free) auto
    then have "printf fmt as s = Some (int (length t), (shown t s)\<lparr>mem := m\<rparr>)"
      using True by (simp add: printf_def vprintf_def vfprintf_def m(1) Let_def shown_mem)
    moreover have "emitted (cut t) s ((shown t s)\<lparr>mem := m\<rparr>)"
      using m(3) True by (simp add: emitted_def cut_def in_buffer_def not_less)
    ultimately show ?thesis by blast
  next
    case False
    then have "printf fmt as s = Some (int (length t), s\<lparr>mem := m\<rparr>)"
      by (simp add: printf_def vprintf_def vfprintf_def m(1) Let_def)
    moreover have "emitted (cut t) s (s\<lparr>mem := m\<rparr>)"
      using m(3) False by (simp add: emitted_def cut_def in_buffer_def not_less)
    ultimately show ?thesis by blast
  qed
qed

lemma printf_held:
  assumes "locked (printf_lock s) \<noteq> 0" "vfprintf_buffer s \<noteq> 0" "npf_text fmt as = Some t"
    "t \<noteq> []" "length t < 1024"
  shows "printf fmt as s = None"
proof -
  obtain m where m: "npf_vsnprintf (vfprintf_buffer s) 1024 fmt as (mem s) = Some (int (length t), m)"
    by (rule npf_vsnprintf_text [OF assms(3,2), of 1024 "mem s"]) simp
  have "put_buffer (length t) (vfprintf_buffer s) (s\<lparr>mem := m\<rparr>) = None"
    using assms by (intro put_buffer_held) simp_all
  with assms m show ?thesis by (simp add: printf_def vprintf_def vfprintf_def Let_def)
qed

text \<open>
  C27. \<open>printf\<close> on a free lock returns the length of its text and leaves the lock free. When
  the text is shorter than the local buffer it goes out, character by character, to the
  serial port and to the terminal; a text of 1024 characters or more is dropped whole.
  Memory outside the buffer is untouched, and without a terminal nothing is printed.
\<close>

theorem printf_prints:
  assumes "locked (printf_lock s) = 0" "vfprintf_buffer s \<noteq> 0" "npf_text fmt as = Some t"
  shows "\<exists>s'. printf fmt as s = Some (int (length t), s') \<and>
    io_log s' = io_log s @
      (if ft_ctx s \<noteq> 0 \<and> length t < 1024 then map (\<lambda>c. Out8 0x3f8 (of_char c)) t else []) \<and>
    term_out s' = term_out s @
      (if ft_ctx s \<noteq> 0 \<and> length t < 1024 then map of_char t else []) \<and>
    printf_lock s' = printf_lock s \<and>
    (\<forall>x. 1024 \<le> unat (x - vfprintf_buffer s) \<longrightarrow> mem s' x = mem s x)"
proof -
  from assms have "ready s" by (simp add: ready_def)
  from printf_emits [OF this assms(3)] obtain s'
    where s': "printf fmt as s = Some (int (length t), s')" "emitted (cut t) s s'" by blast
  then have eq: "s' = (shown (cut t) s)\<lparr>mem := mem s'\<rparr>" by (simp add: emitted_def)
  have out: "io_log s' = io_log (shown (cut t) s)" "term_out s' = term_out (shown (cut t) s)"
    by (subst eq, simp)+
  show ?thesis
    using s' emitted_fields(1) [OF s'(2)]
    by (intro exI [of _ s']) (auto simp: out shown_def cut_def Let_def emitted_def in_buffer_def not_less)
qed

section \<open>Log lines\<close>

text \<open>The text of a log line: the prefix with the level, and the message.\<close>

definition line_text :: "log_line \<Rightarrow> string" where
  "line_text l =
     (case l of (level, fmt, as) \<Rightarrow> cut (''['' @ c_string level @ '']: '') @ cut (the (npf_text fmt as)))"

definition line_ok :: "log_line \<Rightarrow> bool" where
  "line_ok l \<longleftrightarrow> (case l of (level, fmt, as) \<Rightarrow> fits (c_string fmt) (map is_slot as))"

lemma prefix_text: "npf_text ''[%s]: '' [Str level] = Some (''['' @ c_string level @ '']: '')"
proof -
  have "npf_parse_format_spec ''s]: '' =
      Some (empty_spec\<lparr>conv_spec := NPF_FMT_SPEC_CONV_STRING\<rparr>, '']: '')"
    by code_simp
  then show ?thesis
    by (simp add: npf_text_def c_string_def [of "''[%s]: ''"] NUL_def star_width_def star_prec_def
        empty_spec_def npf_convert_def layout_def pad_char_def opt_char_def Let_def)
qed

lemma LOG_emits:
  assumes "ready s" "line_ok (level, fmt, as)"
  shows "\<exists>s'. LOG level fmt as s = Some s' \<and> emitted (line_text (level, fmt, as)) s s'"
proof -
  obtain t where t: "npf_text fmt as = Some t"
    using assms(2) npf_text_fits [of fmt as] by (auto simp: line_ok_def)
  from printf_emits [OF assms(1) prefix_text [of level]] obtain s1
    where s1: "printf ''[%s]: '' [Str level] s = Some (int (length (''['' @ c_string level @ '']: '')), s1)"
      "emitted (cut (''['' @ c_string level @ '']: '')) s s1" by blast
  from printf_emits [OF _ t, of s1] emitted_fields(5) [OF s1(2)] assms(1) obtain s2
    where s2: "printf fmt as s1 = Some (int (length t), s2)" "emitted (cut t) s1 s2" by auto
  from emitted_trans [OF s1(2) s2(2)] s1(1) s2(1) t show ?thesis
    by (intro exI [of _ s2]) (simp add: LOG_def line_text_def)
qed

lemma LOG_held:
  assumes "locked (printf_lock s) \<noteq> 0" "vfprintf_buffer s \<noteq> 0" "length (c_string level) < 1000"
  shows "LOG level fmt as s = None"
  using printf_held [OF assms(1,2) prefix_text [of level]] assms(3) by (simp add: LOG_def)

lemma log_lines_emit:
  assumes "ready s" "list_all line_ok ls"
  shows "\<exists>s'. log_lines ls s = Some s' \<and> emitted (concat (map line_text ls)) s s'"
  using assms
proof (induction ls arbitrary: s)
  case (Cons l ls)
  obtain level fmt as where l: "l = (level, fmt, as)" by (cases l)
  from LOG_emits [OF Cons.prems(1), of level fmt as] Cons.prems(2) l obtain s1
    where s1: "LOG level fmt as s = Some s1" "emitted (line_text l) s s1" by auto
  from Cons.IH [of s1] emitted_fields(5) [OF s1(2)] Cons.prems obtain s2
    where s2: "log_lines ls s1 = Some s2" "emitted (concat (map line_text ls)) s1 s2" by auto
  from emitted_trans [OF s1(2) s2(2)] s1 s2 l show ?case by simp
qed (simp add: emitted_refl)

text \<open>The globals as the kernel image is loaded: zero, and every lock free.\<close>

definition con_zero :: con_state where
  "con_zero =
     \<lparr>mem = (\<lambda>_. 0), pm_stack = 0, pm_stack_idx = 0, pm_stack_count = 0, pm_free_pages = 0,
      pm_used_pages = 0, pm_total_pages = 0, hhdm_offset = 0, memmap = [], klog = [],
      kernel_pm = \<lparr>pml4 = 0\<rparr>, physical_address_width = 0, linear_address_width = 0,
      map_lock = SPINLOCK_INIT, cr3 = 0, tlb_flushes = 0, l_memRoot = 0, l_bestBet = 0,
      l_allocated = 0, l_inuse = 0, l_warningCount = 0, l_errorCount = 0, l_possibleOverruns = 0,
      liballoc_lock_var = SPINLOCK_INIT, return_address = 0, ft_ctx = 0, io_log = [], term_out = [],
      printf_lock = SPINLOCK_INIT, vfprintf_buffer = 0\<rparr>"

lemma printf_prints_witness:
  "\<exists>s' :: con_state. printf ''%c%d'' [Slot 72, Slot 7]
      (con_zero\<lparr>ft_ctx := 1, vfprintf_buffer := 0x8000\<rparr>) = Some (2, s') \<and>
     io_log s' = [Out8 0x3f8 72, Out8 0x3f8 55] \<and> term_out s' = [72, 55] \<and> locked (printf_lock s') = 0"
proof -
  have t: "npf_text ''%c%d'' [Slot 72, Slot 7] = Some ''H7''" by code_simp
  show ?thesis
    by (rule exE [OF printf_prints [OF _ _ t]]) (auto simp: con_zero_def SPINLOCK_INIT_def)
qed

end
