(* ===== verification/Interrupts.thy ===== *)
theory Interrupts
  imports Console
begin

text \<open>
  Descriptor tables and interrupts: \<^verbatim>\<open>olive/src/sys/gdt.c\<close>, \<^verbatim>\<open>olive/src/sys/idt.c\<close>
  and \<^verbatim>\<open>olive/src/sys/cpu.c\<close> with their headers. The interrupt stubs are in \<open>IntStubs\<close>;
  their addresses \<open>isr_table\<close> are a parameter, and what a registered handler does is the
  parameter \<open>call\<close>, from the handler's address and the frame. Log lines are printed through
  the console, so a handler that logs can spin on the console's lock. \<open>Halt\<close> is the end in
  \<open>hcf\<close>.
\<close>

section \<open>Segment descriptors\<close>

record gdt_entry_t =
  limitLow :: u16
  baseLow :: u16
  baseMid :: u8
  accessByte :: u8
  limitHighAndFlags :: u8
  baseHigh :: u8

record gdt_pointer_t =
  gdt_limit :: u16
  gdt_base :: u64

record idt_entry_t =
  offsetLow :: u16
  selector :: u16
  ist :: u8
  flags :: u8
  offsetMiddle :: u16
  offsetHigh :: u32
  idt_zero :: u32

record idt_pointer_t =
  idt_limit :: u16
  idt_base :: u64

definition IDT_ENTRY_COUNT :: nat where "IDT_ENTRY_COUNT = 256"
definition IRQ_BASE :: nat where "IRQ_BASE = 0x20"
definition IRQ_COUNT :: nat where "IRQ_COUNT = 16"

text \<open>
  The state: the two tables with their addresses, the registered handlers (\<open>0\<close> for none), the
  table registers as the last \<open>lgdt\<close> and \<open>lidt\<close> loaded them, the segment selectors and the
  interrupt flag.
\<close>

record cpu_state = con_state +
  gdt_entries :: "gdt_entry_t list"
  gdt_pointer :: gdt_pointer_t
  gdt_entries_addr :: u64
  idt_entries :: "idt_entry_t list"
  idt_pointer :: idt_pointer_t
  idt_entries_addr :: u64
  irq_handlers :: "u64 list"
  gdtr :: gdt_pointer_t
  idtr :: idt_pointer_t
  cs_selector :: u16
  data_selectors :: u16
  interrupts_on :: bool

definition sizeof_gdt_entry :: nat where "sizeof_gdt_entry = 8"
definition sizeof_idt_entry :: nat where "sizeof_idt_entry = 16"

definition gdt_flush :: "gdt_pointer_t \<Rightarrow> 'a cpu_state_scheme \<Rightarrow> 'a cpu_state_scheme" where
  "gdt_flush p s = s\<lparr>gdtr := p, cs_selector := 0x8, data_selectors := 0x10\<rparr>"

definition gdt_init :: "'a cpu_state_scheme \<Rightarrow> int \<times> 'a cpu_state_scheme" where
  "gdt_init s =
     (let mk = (\<lambda>access fl. \<lparr>limitLow = 0, baseLow = 0, baseMid = 0, accessByte = access,
                              limitHighAndFlags = fl, baseHigh = 0\<rparr>);
          entries = [mk 0 0, mk 0b10011010 0b10100000, mk 0b10010010 0b10100000,
                     mk 0b11111010 0b10100000, mk 0b11110010 0b10100000];
          p = \<lparr>gdt_limit = of_nat (length entries * sizeof_gdt_entry - 1),
               gdt_base = gdt_entries_addr s\<rparr>
      in (0, gdt_flush p (s\<lparr>gdt_entries := entries, gdt_pointer := p\<rparr>)))"

section \<open>The interrupt table\<close>

definition idt_set_gate ::
  "idt_entry_t list \<Rightarrow> nat \<Rightarrow> u64 \<Rightarrow> u16 \<Rightarrow> u8 \<Rightarrow> idt_entry_t list" where
  "idt_set_gate idt num base sel fl =
     idt[num := \<lparr>offsetLow = ucast (base AND 0xFFFF), selector = sel, ist = 0, flags = fl,
                 offsetMiddle = ucast (drop_bit 16 base AND 0xFFFF),
                 offsetHigh = ucast (drop_bit 32 base AND 0xFFFFFFFF), idt_zero = 0\<rparr>]"

text \<open>\<open>idt_load\<close> in \<^verbatim>\<open>idt.asm\<close>: \<open>lidt\<close>, then \<open>sti\<close>.\<close>

definition idt_load :: "idt_pointer_t \<Rightarrow> 'a cpu_state_scheme \<Rightarrow> 'a cpu_state_scheme" where
  "idt_load p s = s\<lparr>idtr := p, interrupts_on := True\<rparr>"

definition set_gates :: "(nat \<Rightarrow> u64) \<Rightarrow> nat list \<Rightarrow> idt_entry_t list \<Rightarrow> idt_entry_t list" where
  "set_gates isr_table is idt = fold (\<lambda>i t. idt_set_gate t i (isr_table i) 0x08 0x8E) is idt"

definition idt_init :: "(nat \<Rightarrow> u64) \<Rightarrow> 'a cpu_state_scheme \<Rightarrow> int \<times> 'a cpu_state_scheme" where
  "idt_init isr_table s =
     (let p = \<lparr>idt_limit = of_nat (sizeof_idt_entry * IDT_ENTRY_COUNT - 1),
               idt_base = idt_entries_addr s\<rparr>;
          t1 = set_gates isr_table [0..<32] (idt_entries s);
          t2 = set_gates isr_table [IRQ_BASE..<IRQ_BASE + IRQ_COUNT] t1
      in (0, idt_load p (s\<lparr>idt_pointer := p, irq_handlers := replicate IRQ_COUNT 0, idt_entries := t2\<rparr>)))"

section \<open>Interrupt frames and exceptions\<close>

record int_frame_t =
  f_ds :: u64
  f_cr2 :: u64
  f_cr3 :: u64
  r15 :: u64
  r14 :: u64
  r13 :: u64
  r12 :: u64
  r11 :: u64
  r10 :: u64
  r9 :: u64
  r8 :: u64
  rbp :: u64
  rdi :: u64
  rsi :: u64
  rdx :: u64
  rcx :: u64
  rbx :: u64
  rax :: u64
  vector :: u64
  err :: u64
  rip :: u64
  f_cs :: u64
  rflags :: u64
  rsp :: u64
  f_ss :: u64

record exception_info_t =
  message :: string
  mnemonic :: string
  fatal :: bool

definition exc :: "string \<Rightarrow> string \<Rightarrow> bool \<Rightarrow> exception_info_t" where
  "exc msg mn f = \<lparr>message = msg, mnemonic = mn, fatal = f\<rparr>"

definition exception_info :: "exception_info_t list" where
  "exception_info =
    [exc ''Division By Zero'' ''#DE'' True,
     exc ''Debug'' ''#DB'' False,
     exc ''Non-maskable Interrupt'' ''-'' True,
     exc ''Breakpoint'' ''#BP'' False,
     exc ''Overflow'' ''#OF'' True,
     exc ''Bound Range Exceeded'' ''#BR'' True,
     exc ''Invalid Opcode'' ''#UD'' True,
     exc ''Device Not Available'' ''#NM'' True,
     exc ''Double Fault'' ''#DF'' True,
     exc ''Coprocessor Segment Overrun'' ''-'' True,
     exc ''Invalid TSS'' ''#TS'' True,
     exc ''Segment Not Present'' ''#NP'' True,
     exc ''Stack Segment Fault'' ''#SS'' True,
     exc ''General Protection Fault'' ''#GP'' True,
     exc ''Page Fault'' ''#PF'' True,
     exc ''Reserved'' ''-'' False,
     exc ''x87 FPU Error'' ''#MF'' True,
     exc ''Alignment Check'' ''#AC'' True,
     exc ''Machine Check'' ''#MC'' True,
     exc ''SIMD Floating-Point Exception'' ''#XM/#XF'' False,
     exc ''Virtualization Exception'' ''#VE'' False,
     exc ''Control Protection Exception'' ''#CP'' False,
     exc ''Reserved'' ''-'' False,
     exc ''Reserved'' ''-'' False,
     exc ''Reserved'' ''-'' False,
     exc ''Reserved'' ''-'' False,
     exc ''Reserved'' ''-'' False,
     exc ''Reserved'' ''-'' False,
     exc ''Hypervisor Injection Exception'' ''#HV'' False,
     exc ''VMM Communication Exception'' ''#VC'' False,
     exc ''Security Exception'' ''#SX'' True,
     exc ''Reserved'' ''-'' False]"

definition tab :: string where "tab = [CHR 0x09]"

text \<open>The register dump of a fatal exception.\<close>

definition register_dump :: "int_frame_t \<Rightarrow> log_line list" where
  "register_dump f =
    [FATAL (''--- INTERRUPT INFORMATION ---'' @ nl) [],
     FATAL ('' - %s (%s) @ 0x%.16llx on CPU %s'' @ nl)
       [Str (mnemonic (exception_info ! unat (vector f))), Str (message (exception_info ! unat (vector f))),
        Slot (rip f), Str ''<unknown>''],
     FATAL ('' - Register Dump:'' @ nl) [],
     FATAL (tab @ ''RAX: 0x%.16llx  RBX:    0x%.16llx  RCX: 0x%.16llx'' @ nl)
       [Slot (rax f), Slot (rbx f), Slot (rcx f)],
     FATAL (tab @ ''RDX: 0x%.16llx  RSI:    0x%.16llx  RDI: 0x%.16llx'' @ nl)
       [Slot (rdx f), Slot (rsi f), Slot (rdi f)],
     FATAL (tab @ ''RBP: 0x%.16llx  RSP:    0x%.16llx  -----------------------'' @ nl)
       [Slot (rbp f), Slot (rsp f)],
     FATAL (tab @ ''R8:  0x%.16llx  R9:     0x%.16llx  R10: 0x%.16llx'' @ nl)
       [Slot (r8 f), Slot (r9 f), Slot (r10 f)],
     FATAL (tab @ ''R11: 0x%.16llx  R12:    0x%.16llx  R13: 0x%.16llx'' @ nl)
       [Slot (r11 f), Slot (r12 f), Slot (r13 f)],
     FATAL (tab @ ''R14: 0x%.16llx  R15:    0x%.16llx  -----------------------'' @ nl)
       [Slot (r14 f), Slot (r15 f)],
     FATAL (tab @ ''RIP: 0x%.16llx  RFLAGS: 0x%.16llx  -----------------------'' @ nl)
       [Slot (rip f), Slot (rflags f)],
     FATAL (tab @ ''CR2: 0x%.16llx  CR3:    0x%.16llx  -----------------------'' @ nl)
       [Slot (f_cr2 f), Slot (f_cr3 f)],
     FATAL (tab @ ''CS:  0x%.16llx  SS:     0x%.16llx  -----------------------'' @ nl)
       [Slot (f_cs f), Slot (f_ss f)],
     FATAL (tab @ ''ERR: 0x%.16llx  VECTOR: 0x%.16llx  -----------------------'' @ nl)
       [Slot (err f), Slot (vector f)]]"

text \<open>The decoding of the error code, by vector.\<close>

definition pick :: "u64 \<Rightarrow> u64 \<Rightarrow> string \<Rightarrow> string \<Rightarrow> va" where
  "pick e m x y = Str (if e AND m \<noteq> 0 then x else y)"

definition error_code_line :: "u64 \<Rightarrow> log_line" where
  "error_code_line e = FATAL (tab @ ''Error Code: 0x%.16llx'' @ nl) [Slot e]"

definition selector_details :: "string \<Rightarrow> string \<Rightarrow> u64 \<Rightarrow> log_line list" where
  "selector_details title last_end e =
    [FATAL (title @ nl) [],
     error_code_line e,
     FATAL (tab @ '' - %s'' @ nl) [pick e 1 ''External event caused error'' ''Descriptor caused error''],
     FATAL (tab @ '' - Index: 0x%.16llx'' @ nl) [Slot (drop_bit 3 e AND 0x1FFF)],
     FATAL (tab @ '' - %s'' @ last_end) [pick e 4 ''LDT segment'' ''GDT segment'']]"

definition fault_details :: "u64 \<Rightarrow> u64 \<Rightarrow> log_line list" where
  "fault_details v e =
    (if v = 8 then [FATAL ('' - Double Fault: No additional error information.'' @ nl) []]
     else if v = 10 then selector_details '' - Invalid TSS Details:'' nl e
     else if v = 11 then selector_details '' - Segment Not Present Details:'' nl e
     else if v = 12 then selector_details '' - Stack-Segment Fault Details:'' [] e
     else if v = 13 then selector_details '' - General Protection Fault Details:'' nl e
     else if v = 14 then
      [FATAL ('' - Page Fault Details:'' @ nl) [],
       error_code_line e,
       FATAL (tab @ '' - %s'' @ nl) [pick e 1 ''Protection violation'' ''Non-present page''],
       FATAL (tab @ '' - %s'' @ nl) [pick e 2 ''Write access'' ''Read access''],
       FATAL (tab @ '' - %s'' @ nl) [pick e 4 ''User mode'' ''Supervisor mode''],
       FATAL (tab @ '' - %s'' @ nl) [pick e 8 ''Reserved bit set'' ''No reserved bit violation''],
       FATAL (tab @ '' - %s'' @ nl) [pick e 16 ''Instruction fetch'' ''Data access'']]
     else if v = 17 then
      [FATAL ('' - Alignment Check Details:'' @ nl) [],
       error_code_line e,
       FATAL (tab @ '' - %s'' @ nl) [pick e 1 ''User mode'' ''Supervisor mode'']]
     else if v = 21 then
      [FATAL ('' - Control Protection Exception Details:'' @ nl) [], error_code_line e]
     else if v = 29 then
      [FATAL ('' - VMM Communication Exception Details:'' @ nl) [], error_code_line e]
     else if v = 30 then
      [FATAL ('' - Security Exception Details:'' @ nl) [], error_code_line e]
     else [FATAL ('' - No detailed information for this exception.'' @ nl) []])"

section \<open>The backtrace\<close>

text \<open>
  The chain of saved frame pointers is read from memory; a cyclic chain is followed for ever.
\<close>

partial_function (option) backtrace_loop ::
  "u64 \<Rightarrow> int \<Rightarrow> 'a con_state_scheme \<Rightarrow> 'a con_state_scheme option" where
  "backtrace_loop frame i s =
     (if frame \<noteq> 0 \<and> ld64 (mem s) frame \<noteq> 0 then
        Option.bind (LOG ''FATAL'' ('' - [%06d] %-24s @ %.16llx'' @ nl)
            [Slot (word_of_int i), Str ''<unkown>'', Slot (ld64 (mem s) (frame + 8))] s)
          (\<lambda>s'. backtrace_loop (ld64 (mem s') frame) (i + 1) s')
      else Some s)"

declare backtrace_loop.simps [code]

text \<open>\<open>frame0\<close> is the value of the register RBP.\<close>

definition backtrace :: "u64 \<Rightarrow> u64 \<Rightarrow> 'a con_state_scheme \<Rightarrow> 'a con_state_scheme option" where
  "backtrace frame0 caller s =
     Option.bind (LOG ''FATAL'' (''--- BACKTRACE START ----'' @ nl) [] s) (\<lambda>s1.
       if frame0 \<noteq> 0 \<and> ld64 (mem s1) frame0 = 0
       then LOG ''FATAL'' (''No stack trace available-'' @ nl) [] s1
       else
         Option.bind
           (if caller \<noteq> 0
            then LOG ''FATAL'' ('' - [caller] %-24s @ %.16llx'' @ nl) [Str ''<unkown>'', Slot caller] s1
            else Some s1) (\<lambda>s2.
         Option.bind (backtrace_loop frame0 0 s2) (\<lambda>s3.
           LOG ''FATAL'' (''-----------------------'' @ nl) [] s3)))"

section \<open>Dispatch\<close>

text \<open>\<open>hlt\<close> waits for ever, \<open>hcf\<close> with interrupts off (\<^verbatim>\<open>olive/src/sys/cpu.c\<close>).\<close>

definition hlt :: "'a cpu_state_scheme \<Rightarrow> (unit, 'a cpu_state_scheme) outcome" where
  "hlt s = Halt s"

definition hcf :: "'a cpu_state_scheme \<Rightarrow> (unit, 'a cpu_state_scheme) outcome" where
  "hcf s = hlt (s\<lparr>interrupts_on := False\<rparr>)"

definition idt_handler ::
  "(u64 \<Rightarrow> int_frame_t \<Rightarrow> 'a cpu_state_scheme \<Rightarrow> (int_frame_t \<times> 'a cpu_state_scheme) option) \<Rightarrow>
   u64 \<Rightarrow> int_frame_t \<Rightarrow> 'a cpu_state_scheme \<Rightarrow> (int_frame_t, 'a cpu_state_scheme) outcome option" where
  "idt_handler call frame0 f s =
     (if vector f < 32 then
        Option.bind (log_lines [FATAL nl []] s) (\<lambda>s1.
          if fatal (exception_info ! unat (vector f)) then
            Option.bind
              (log_lines (register_dump f @ fault_details (vector f) (err f) @
                 [FATAL (''-------------------------------'' @ nl) []]) s1) (\<lambda>s2.
            Option.bind (backtrace frame0 (rip f) s2) (\<lambda>s3.
              case hcf s3 of Halt s4 \<Rightarrow> Some (Halt s4) | Ret _ s4 \<Rightarrow> Some (Ret f s4)))
          else
            map_option (Ret f)
              (if vector f = 3 then log_lines [ALERT (''BREAKPOINT @ 0x%p'' @ nl) [Slot (rip f)]] s1
               else log_lines [WARN (''Non-fatal exception: %s'' @ nl)
                      [Str (message (exception_info ! unat (vector f)))]] s1))
      else if unat (vector f) \<ge> IRQ_BASE \<and> unat (vector f) < IRQ_BASE + IRQ_COUNT then
        (let irq = unat (vector f) - IRQ_BASE; h = irq_handlers s ! irq in
         if h \<noteq> 0 then map_option (\<lambda>(f', s'). Ret f' s') (call h f s)
         else map_option (Ret f)
                (log_lines [WARN (''No handler registered for IRQ %d, interrupt ignored'' @ nl)
                   [Slot (of_nat irq)]] s))
      else if vector f = 0x80 then
        map_option (Ret f) (log_lines [WARN (''Received system call interrupt, processing skipped'' @ nl) []] s)
      else
        map_option (Ret f)
          (log_lines [WARN (''Received unknown interrupt vector: %d, no action taken'' @ nl)
             [Slot (vector f)]] s))"

section \<open>Registering handlers\<close>

definition idt_irq_register ::
  "int \<Rightarrow> u64 \<Rightarrow> 'a cpu_state_scheme \<Rightarrow> 'a cpu_state_scheme option" where
  "idt_irq_register irq handler s =
     (if irq < 0 \<or> irq \<ge> int IRQ_COUNT
      then log_lines [ERROR (''Attempted to register invalid IRQ: %d'' @ nl) [Slot (word_of_int irq)]] s
      else Some (s\<lparr>irq_handlers := (irq_handlers s)[nat irq := handler]\<rparr>))"

definition idt_irq_deregister :: "int \<Rightarrow> 'a cpu_state_scheme \<Rightarrow> 'a cpu_state_scheme option" where
  "idt_irq_deregister irq s =
     (if irq < 0 \<or> irq \<ge> int IRQ_COUNT
      then log_lines [ERROR (''Attempted to deregister invalid IRQ: %d'' @ nl) [Slot (word_of_int irq)]] s
      else Some (s\<lparr>irq_handlers := (irq_handlers s)[nat irq := 0]\<rparr>))"

end
