(* ===== verification/InterruptProps.thy ===== *)
theory InterruptProps
  imports ConsoleProps Interrupts
begin

text \<open>
  Properties of the descriptor tables and of the interrupt handler: the tables that the
  initialisation builds, dispatch on every class of vector, the end of a fatal exception, and
  the deadlock of an exception that interrupts the console.
\<close>

section \<open>The interrupt table\<close>

text \<open>The address a gate points to, put together from its three parts.\<close>

definition gate_base :: "idt_entry_t \<Rightarrow> u64" where
  "gate_base g =
     ucast (offsetLow g) OR push_bit 16 (ucast (offsetMiddle g)) OR push_bit 32 (ucast (offsetHigh g))"

lemma split_base:
  "(ucast (ucast (base AND 0xFFFF) :: u16) :: u64) OR
     push_bit 16 (ucast (ucast (drop_bit 16 base AND 0xFFFF) :: u16)) OR
     push_bit 32 (ucast (ucast (drop_bit 32 base AND 0xFFFFFFFF) :: u32)) = (base :: u64)"
proof -
  have m: "(0xFFFF :: u64) = mask 16" "(0xFFFFFFFF :: u64) = mask 32"
    by (simp_all add: mask_eq_exp_minus_1)
  show ?thesis
  proof (rule bit_word_eqI)
    fix n :: nat
    assume "n < LENGTH(64)"
    then show "bit ((ucast (ucast (base AND 0xFFFF) :: u16) :: u64) OR
        push_bit 16 (ucast (ucast (drop_bit 16 base AND 0xFFFF) :: u16)) OR
        push_bit 32 (ucast (ucast (drop_bit 32 base AND 0xFFFFFFFF) :: u32))) n \<longleftrightarrow> bit base n"
      by (cases "n < 16"; cases "n < 32") (auto simp: m bit_simps not_less)
  qed
qed

text \<open>
  The address split over the three fields of a gate is the address given:
  \<open>idt_set_gate\<close> loses nothing of it, stores selector and flags, and leaves the other gates.
\<close>

lemma idt_set_gate_roundtrip:
  assumes "num < length idt"
  shows "gate_base (idt_set_gate idt num base sel fl ! num) = base \<and>
    selector (idt_set_gate idt num base sel fl ! num) = sel \<and>
    flags (idt_set_gate idt num base sel fl ! num) = fl \<and>
    length (idt_set_gate idt num base sel fl) = length idt \<and>
    (\<forall>k. k \<noteq> num \<longrightarrow> idt_set_gate idt num base sel fl ! k = idt ! k)"
  using assms by (simp add: idt_set_gate_def gate_base_def split_base)

definition blank_gate :: idt_entry_t where
  "blank_gate = \<lparr>offsetLow = 0, selector = 0, ist = 0, flags = 0, offsetMiddle = 0, offsetHigh = 0, idt_zero = 0\<rparr>"

lemma idt_set_gate_roundtrip_witness:
  "gate_base (idt_set_gate (replicate 4 blank_gate) 2 0xFFFFFFFF80012345 8 0x8E ! 2) = 0xFFFFFFFF80012345"
  using idt_set_gate_roundtrip [of 2 "replicate 4 blank_gate" "0xFFFFFFFF80012345" 8 "0x8E"] by simp

lemma length_set_gate [simp]: "length (idt_set_gate idt num base sel fl) = length idt"
  by (simp add: idt_set_gate_def)

lemma set_gates_nth:
  assumes "distinct is" "k < length idt"
  shows "length (set_gates isr is idt) = length idt"
    "set_gates isr is idt ! k = (if k \<in> set is then idt_set_gate idt k (isr k) 0x08 0x8E ! k else idt ! k)"
  using assms
  by (induction "is" arbitrary: idt) (auto simp: set_gates_def idt_set_gate_def nth_list_update)

text \<open>
  C32. \<open>idt_init\<close> points the gates of the 32 exceptions and of the 16 interrupt lines at their
  stubs, as present kernel-mode interrupt gates, and no other gate: the vectors from 48 on,
  the system call 0x80 among them, keep what the table held. It clears the registered
  handlers, loads the table with the limit of 256 entries, and enables interrupts.
\<close>

theorem idt_init_gates:
  assumes "length (idt_entries s) = IDT_ENTRY_COUNT"
  shows "\<exists>s'. idt_init isr_table s = (0, s') \<and> length (idt_entries s') = IDT_ENTRY_COUNT \<and>
    (\<forall>k < 48. gate_base (idt_entries s' ! k) = isr_table k \<and>
       selector (idt_entries s' ! k) = 0x08 \<and> flags (idt_entries s' ! k) = 0x8E) \<and>
    (\<forall>k. 48 \<le> k \<longrightarrow> k < IDT_ENTRY_COUNT \<longrightarrow> idt_entries s' ! k = idt_entries s ! k) \<and>
    irq_handlers s' = replicate IRQ_COUNT 0 \<and>
    idtr s' = \<lparr>idt_limit = 4095, idt_base = idt_entries_addr s\<rparr> \<and> interrupts_on s'"
proof -
  let ?t1 = "set_gates isr_table [0..<32] (idt_entries s)"
  let ?t2 = "set_gates isr_table [IRQ_BASE..<IRQ_BASE + IRQ_COUNT] ?t1"
  have len: "length (idt_entries s) = 256" "length ?t1 = 256"
    using assms set_gates_nth(1) [of "[0..<32]" 0 "idt_entries s"] by (simp_all add: IDT_ENTRY_COUNT_def)
  have t2: "length ?t2 = 256" "k < 256 \<Longrightarrow> ?t2 ! k =
      (if k < 48 then idt_set_gate (idt_entries s) k (isr_table k) 0x08 0x8E ! k else idt_entries s ! k)" for k
  proof -
    show "length ?t2 = 256" using set_gates_nth(1) [of _ 0 ?t1] len by simp
    show "?t2 ! k = (if k < 48 then idt_set_gate (idt_entries s) k (isr_table k) 0x08 0x8E ! k
        else idt_entries s ! k)" if "k < 256"
    proof -
      have "k \<in> set [IRQ_BASE..<IRQ_BASE + IRQ_COUNT] \<longleftrightarrow> 32 \<le> k \<and> k < 48"
        by (simp only: set_upt atLeastLessThan_iff) (simp add: IRQ_BASE_def IRQ_COUNT_def)
      moreover have "k \<in> set [0..<32] \<longleftrightarrow> k < 32" by (simp only: set_upt) simp
      ultimately show ?thesis
        using set_gates_nth(2) [of "[IRQ_BASE..<IRQ_BASE + IRQ_COUNT]" k ?t1 isr_table]
          set_gates_nth(2) [of "[0..<32]" k "idt_entries s" isr_table] len that
        by (simp add: idt_set_gate_def del: set_upt)
    qed
  qed
  have "idt_init isr_table s = (0, snd (idt_init isr_table s))"
    by (simp add: idt_init_def Let_def)
  moreover have "idt_entries (snd (idt_init isr_table s)) = ?t2"
    by (simp add: idt_init_def Let_def idt_load_def)
  moreover have "gate_base (?t2 ! k) = isr_table k" "selector (?t2 ! k) = 0x08" "flags (?t2 ! k) = 0x8E"
    if "k < 48" for k
    using that t2(2) [of k] len by (simp_all add: idt_set_gate_def gate_base_def split_base)
  ultimately show ?thesis using t2
    by (intro exI [of _ "snd (idt_init isr_table s)"])
       (simp add: idt_init_def Let_def idt_load_def IDT_ENTRY_COUNT_def sizeof_idt_entry_def)
qed

text \<open>The globals as loaded, with a table of blank gates.\<close>

definition cpu_zero :: cpu_state where
  "cpu_zero = con_state.extend con_zero
     (cpu_state.fields [] \<lparr>gdt_limit = 0, gdt_base = 0\<rparr> 0x3000 (replicate 256 blank_gate)
        \<lparr>idt_limit = 0, idt_base = 0\<rparr> 0x4000 (replicate 16 0) \<lparr>gdt_limit = 0, gdt_base = 0\<rparr>
        \<lparr>idt_limit = 0, idt_base = 0\<rparr> 0 0 False)"

lemma cpu_zero_fields:
  "idt_entries cpu_zero = replicate 256 blank_gate" "irq_handlers cpu_zero = replicate 16 0"
  "printf_lock cpu_zero = SPINLOCK_INIT" "mem cpu_zero = (\<lambda>_. 0)" "vfprintf_buffer cpu_zero = 0"
  by (simp_all add: cpu_zero_def con_zero_def con_state.extend_def cpu_state.fields_def)

lemma idt_init_gates_witness:
  "gate_base (idt_entries (snd (idt_init (\<lambda>i. 0xFFFFFFFF80000000 + 16 * of_nat i) cpu_zero)) ! 33) =
     0xFFFFFFFF80000210 \<and>
   idt_entries (snd (idt_init (\<lambda>i. 0xFFFFFFFF80000000 + 16 * of_nat i) cpu_zero)) ! 0x80 = blank_gate"
  using idt_init_gates [of cpu_zero "\<lambda>i. 0xFFFFFFFF80000000 + 16 * of_nat i"]
  by (auto simp: cpu_zero_fields IDT_ENTRY_COUNT_def)

section \<open>Log lines of the handler\<close>

lemma emitted_cpu:
  fixes s s' :: "'a cpu_state_scheme"
  assumes "emitted t s s'"
  shows "irq_handlers s' = irq_handlers s" "interrupts_on s' = interrupts_on s"
    "idt_entries s' = idt_entries s"
proof -
  from assms have eq: "s' = (shown t s)\<lparr>mem := mem s'\<rparr>" by (simp add: emitted_def)
  show "irq_handlers s' = irq_handlers s" "interrupts_on s' = interrupts_on s"
    "idt_entries s' = idt_entries s"
    by (subst eq, simp add: shown_def Let_def)+
qed

lemma register_dump_ok: "list_all line_ok (register_dump f)"
  unfolding register_dump_def by code_simp

lemma selector_details_ok:
  "list_all line_ok (selector_details '' - Invalid TSS Details:'' nl e)"
  "list_all line_ok (selector_details '' - Segment Not Present Details:'' nl e)"
  "list_all line_ok (selector_details '' - Stack-Segment Fault Details:'' [] e)"
  "list_all line_ok (selector_details '' - General Protection Fault Details:'' nl e)"
  unfolding selector_details_def by code_simp+

lemma fault_details_ok: "list_all line_ok (fault_details v e)"
proof -
  have
    "list_all line_ok [FATAL ('' - Double Fault: No additional error information.'' @ nl) []]"
    "list_all line_ok
      [FATAL ('' - Page Fault Details:'' @ nl) [],
       error_code_line e,
       FATAL (tab @ '' - %s'' @ nl) [pick e 1 ''Protection violation'' ''Non-present page''],
       FATAL (tab @ '' - %s'' @ nl) [pick e 2 ''Write access'' ''Read access''],
       FATAL (tab @ '' - %s'' @ nl) [pick e 4 ''User mode'' ''Supervisor mode''],
       FATAL (tab @ '' - %s'' @ nl) [pick e 8 ''Reserved bit set'' ''No reserved bit violation''],
       FATAL (tab @ '' - %s'' @ nl) [pick e 16 ''Instruction fetch'' ''Data access'']]"
    "list_all line_ok
      [FATAL ('' - Alignment Check Details:'' @ nl) [], error_code_line e,
       FATAL (tab @ '' - %s'' @ nl) [pick e 1 ''User mode'' ''Supervisor mode'']]"
    "list_all line_ok
      [FATAL ('' - Control Protection Exception Details:'' @ nl) [], error_code_line e]"
    "list_all line_ok
      [FATAL ('' - VMM Communication Exception Details:'' @ nl) [], error_code_line e]"
    "list_all line_ok [FATAL ('' - Security Exception Details:'' @ nl) [], error_code_line e]"
    "list_all line_ok [FATAL ('' - No detailed information for this exception.'' @ nl) []]"
    by code_simp+
  with selector_details_ok [of e] show ?thesis
    unfolding fault_details_def by (simp only: if_split simp_thms)
qed

lemma handler_lines_ok:
  "line_ok (FATAL nl [])" "line_ok (FATAL (''-------------------------------'' @ nl) [])"
  "line_ok (FATAL (''--- BACKTRACE START ----'' @ nl) [])"
  "line_ok (FATAL (''No stack trace available-'' @ nl) [])"
  "line_ok (FATAL ('' - [caller] %-24s @ %.16llx'' @ nl) [Str ''<unkown>'', Slot a])"
  "line_ok (FATAL ('' - [%06d] %-24s @ %.16llx'' @ nl) [Slot b, Str ''<unkown>'', Slot a])"
  "line_ok (FATAL (''-----------------------'' @ nl) [])"
  "line_ok (ALERT (''BREAKPOINT @ 0x%p'' @ nl) [Slot a])"
  "line_ok (WARN (''Non-fatal exception: %s'' @ nl) [Str m])"
  "line_ok (WARN (''No handler registered for IRQ %d, interrupt ignored'' @ nl) [Slot a])"
  "line_ok (WARN (''Received system call interrupt, processing skipped'' @ nl) [])"
  "line_ok (WARN (''Received unknown interrupt vector: %d, no action taken'' @ nl) [Slot a])"
  "line_ok (ERROR (''Attempted to register invalid IRQ: %d'' @ nl) [Slot a])"
  "line_ok (ERROR (''Attempted to deregister invalid IRQ: %d'' @ nl) [Slot a])"
  by code_simp+

lemma one_line:
  assumes "ready s" "line_ok l"
  shows "\<exists>s'. log_lines [l] s = Some s' \<and> emitted (line_text l) s s'"
  using log_lines_emit [OF assms(1), of "[l]"] assms(2) by simp

section \<open>The backtrace\<close>

text \<open>
  A chain of saved frame pointers that ends after at most \<open>n\<close> frames, with the frames
  outside the local buffer of \<open>vfprintf\<close>, which the backtrace overwrites as it prints.
\<close>

definition clear_frame :: "'a con_state_scheme \<Rightarrow> u64 \<Rightarrow> bool" where
  "clear_frame s p \<longleftrightarrow> (\<forall>i < 8. \<not> in_buffer s (p + of_nat i))"

primrec chain_ends :: "'a con_state_scheme \<Rightarrow> nat \<Rightarrow> u64 \<Rightarrow> bool" where
  "chain_ends s 0 p \<longleftrightarrow> p = 0 \<or> clear_frame s p \<and> ld64 (mem s) p = 0"
| "chain_ends s (Suc n) p \<longleftrightarrow>
     p = 0 \<or> clear_frame s p \<and> (ld64 (mem s) p = 0 \<or> chain_ends s n (ld64 (mem s) p))"

lemma emitted_frame:
  assumes "emitted t s s'"
  shows "clear_frame s' p = clear_frame s p" "clear_frame s p \<Longrightarrow> ld64 (mem s') p = ld64 (mem s) p"
proof -
  show "clear_frame s' p = clear_frame s p"
    by (simp add: clear_frame_def emitted_fields [OF assms])
  assume "clear_frame s p"
  then have "mem s' (p + of_nat i) = mem s (p + of_nat i)" if "i < 8" for i
    using assms that unfolding clear_frame_def emitted_def by blast
  then have "ld_bytes 8 (mem s') p = ld_bytes 8 (mem s) p" by (rule ld_bytes_cong)
  then show "ld64 (mem s') p = ld64 (mem s) p" by (simp only: ld64_def)
qed

lemma emitted_chain:
  assumes "emitted t s s'" shows "chain_ends s' n p = chain_ends s n p"
proof (induction n arbitrary: p)
  case 0
  show ?case by (cases "clear_frame s p") (simp_all add: emitted_frame [OF assms])
next
  case (Suc n)
  then show ?case by (cases "clear_frame s p") (simp_all add: emitted_frame [OF assms])
qed

lemma backtrace_loop_ends:
  assumes "ready s" "chain_ends s n p"
  shows "\<exists>s' t. backtrace_loop p i s = Some s' \<and> emitted t s s'"
  using assms
proof (induction n arbitrary: p i s)
  case 0
  then show ?case by (subst backtrace_loop.simps) (auto intro: emitted_refl)
next
  case (Suc n)
  show ?case
  proof (cases "p = 0 \<or> ld64 (mem s) p = 0")
    case True
    then show ?thesis by (subst backtrace_loop.simps) (auto intro: emitted_refl)
  next
    case False
    obtain s1 t where s1: "LOG ''FATAL'' ('' - [%06d] %-24s @ %.16llx'' @ nl)
        [Slot (word_of_int i), Str ''<unkown>'', Slot (ld64 (mem s) (p + 8))] s = Some s1" "emitted t s s1"
      using LOG_emits [OF Suc.prems(1) handler_lines_ok(6)] by blast
    have "chain_ends s1 n (ld64 (mem s1) p)" "ready s1"
      using False Suc.prems emitted_fields(5) [OF s1(2)] emitted_frame [OF s1(2)]
      by (auto simp: emitted_chain [OF s1(2)])
    from Suc.IH [OF this(2,1)] obtain s2 u
      where "backtrace_loop (ld64 (mem s1) p) (i + 1) s1 = Some s2" "emitted u s1 s2" by blast
    then have "backtrace_loop p i s = Some s2"
      by (subst backtrace_loop.simps) (simp only: s1(1) eqTrueI [OF False [unfolded de_Morgan_disj]] if_True Option.bind.simps)
    with emitted_trans [OF s1(2) \<open>emitted u s1 s2\<close>] show ?thesis by blast
  qed
qed

lemma backtrace_ends:
  assumes "ready s" "chain_ends s n p"
  shows "\<exists>s' t. backtrace p caller s = Some s' \<and> emitted t s s'"
proof -
  obtain s1 t1 where s1: "LOG ''FATAL'' (''--- BACKTRACE START ----'' @ nl) [] s = Some s1" "emitted t1 s s1"
    using LOG_emits [OF assms(1) handler_lines_ok(3)] by blast
  have r1: "ready s1" using assms emitted_fields(5) [OF s1(2)] by simp
  show ?thesis
  proof (cases "p \<noteq> 0 \<and> ld64 (mem s1) p = 0")
    case True
    from LOG_emits [OF r1 handler_lines_ok(4)] obtain s2 t2
      where s2: "LOG ''FATAL'' (''No stack trace available-'' @ nl) [] s1 = Some s2" "emitted t2 s1 s2" by blast
    have "backtrace p caller s = Some s2"
      by (simp only: backtrace_def s1(1) s2(1) eqTrueI [OF True] if_True Option.bind.simps)
    with emitted_trans [OF s1(2) s2(2)] show ?thesis by blast
  next
    case False
    have "\<exists>s2 t2. (if caller \<noteq> 0
        then LOG ''FATAL'' ('' - [caller] %-24s @ %.16llx'' @ nl) [Str ''<unkown>'', Slot caller] s1
        else Some s1) = Some s2 \<and> emitted t2 s1 s2"
      using LOG_emits [OF r1 handler_lines_ok(5)] emitted_refl [of s1] by auto
    then obtain s2 t2 where s2: "(if caller \<noteq> 0
        then LOG ''FATAL'' ('' - [caller] %-24s @ %.16llx'' @ nl) [Str ''<unkown>'', Slot caller] s1
        else Some s1) = Some s2" "emitted t2 s1 s2" by blast
    have r2: "ready s2" "chain_ends s2 n p"
      using r1 assms emitted_fields(5) [OF s2(2)] by (simp_all add: emitted_chain [OF s2(2)] emitted_chain [OF s1(2)])
    from backtrace_loop_ends [OF this] obtain s3 t3
      where s3: "backtrace_loop p 0 s2 = Some s3" "emitted t3 s2 s3" by blast
    have "ready s3" using r2 emitted_fields(5) [OF s3(2)] by simp
    from LOG_emits [OF this handler_lines_ok(7)] obtain s4 t4
      where s4: "LOG ''FATAL'' (''-----------------------'' @ nl) [] s3 = Some s4" "emitted t4 s3 s4" by blast
    have "backtrace p caller s = Some s4"
      by (simp only: backtrace_def s1(1) s2(1) s3(1) s4(1) False if_False Option.bind.simps)
    with emitted_trans [OF emitted_trans [OF emitted_trans [OF s1(2) s2(2)] s3(2)] s4(2)]
    show ?thesis by blast
  qed
qed

section \<open>Dispatch\<close>

lemma log_append:
  "log_lines (ls @ ks) s = Option.bind (log_lines ls s) (log_lines ks)"
  by (induction ls arbitrary: s) (auto split: prod.splits bind_splits)


text \<open>The report of a resumable exception.\<close>

lemma message_short:
  "\<forall>i < 32. length (c_string (message (exception_info ! i))) \<le> 40"
proof -
  have "list_all (\<lambda>e. length (c_string (message e)) \<le> 40) exception_info \<and> length exception_info = 32"
    by code_simp
  then show ?thesis by (simp add: list_all_length)
qed

lemma nonfatal_text:
  "npf_text (''Non-fatal exception: %s'' @ nl) [Str m] = Some (''Non-fatal exception: '' @ c_string m @ nl)"
proof -
  have c: "c_string (''Non-fatal exception: %s'' @ nl) = ''Non-fatal exception: %s'' @ nl" by code_simp
  have "npf_parse_format_spec (''s'' @ nl) = Some (empty_spec\<lparr>conv_spec := NPF_FMT_SPEC_CONV_STRING\<rparr>, nl)"
    by code_simp
  then show ?thesis
    unfolding npf_text_def c
    by (simp add: star_width_def star_prec_def empty_spec_def npf_convert_def layout_def pad_char_def
        opt_char_def Let_def nl_def)
qed

lemma breakpoint_text:
  "\<exists>t. npf_text (''BREAKPOINT @ 0x%p'' @ nl) [Slot w] = Some (''BREAKPOINT @ 0x0x'' @ t @ nl) \<and> length t \<le> 22"
proof -
  have c: "c_string (''BREAKPOINT @ 0x%p'' @ nl) = ''BREAKPOINT @ 0x%p'' @ nl" by code_simp
  have p: "npf_parse_format_spec (''p'' @ nl) = Some (empty_spec\<lparr>conv_spec := NPF_FMT_SPEC_CONV_POINTER\<rparr>, nl)"
    by code_simp
  obtain ds where "npf_utoa_rev w 16 32 = Some ds" "length ds \<le> 22"
    by (rule utoa_some [of 16 w 32]) auto
  then show ?thesis
    unfolding npf_text_def c using p
    by (intro exI [of _ "rev ds"])
       (simp add: star_width_def star_prec_def empty_spec_def npf_convert_def layout_def pad_char_def
        prec_pad_def opt_char_def Let_def nl_def NUL_def)
qed

text \<open>
  Every other exception is reported on one line and the interrupted code resumes with its
  frame unchanged: a breakpoint with its address, which is printed with the prefix \<open>0x\<close>
  twice, the rest with the name of the exception. That holds for the vectors 21 and 29 too,
  whose decoding of the error code is therefore never reached.
\<close>

lemma idt_handler_nonfatal_resumes:
  assumes "locked (printf_lock s) = 0" "vfprintf_buffer s \<noteq> 0" "vector f < 32"
    "\<not> fatal (exception_info ! unat (vector f))"
  shows "\<exists>s' t. idt_handler call frame0 f s = Some (Ret f s') \<and> emitted (''[FATAL]: '' @ nl @ t @ nl) s s' \<and>
    (vector f = 3 \<longrightarrow> (\<exists>d. t = ''[ALERT]: BREAKPOINT @ 0x0x'' @ d)) \<and>
    (vector f \<noteq> 3 \<longrightarrow>
       t = ''[WARN]: Non-fatal exception: '' @ c_string (message (exception_info ! unat (vector f))))"
proof -
  have ready: "ready s" using assms by (simp add: ready_def)
  have nl_text: "line_text (FATAL nl []) = ''[FATAL]: '' @ nl" by code_simp
  from one_line [OF ready handler_lines_ok(1)] obtain s1
    where s1: "log_lines [FATAL nl []] s = Some s1" "emitted (''[FATAL]: '' @ nl) s s1"
    unfolding nl_text by blast
  have r1: "ready s1" using ready emitted_fields(5) [OF s1(2)] by simp
  show ?thesis
  proof (cases "vector f = 3")
    case True
    obtain d where d: "npf_text (''BREAKPOINT @ 0x%p'' @ nl) [Slot (rip f)] =
        Some (''BREAKPOINT @ 0x0x'' @ d @ nl)" "length d \<le> 22"
      using breakpoint_text by blast
    have "c_string ''ALERT'' = ''ALERT''" by code_simp
    with d have lt: "line_text (ALERT (''BREAKPOINT @ 0x%p'' @ nl) [Slot (rip f)]) =
        ''[ALERT]: BREAKPOINT @ 0x0x'' @ d @ nl"
      by (simp add: line_text_def cut_def nl_def)
    from one_line [OF r1 handler_lines_ok(8)] obtain s2
      where s2: "log_lines [ALERT (''BREAKPOINT @ 0x%p'' @ nl) [Slot (rip f)]] s1 = Some s2"
        "emitted (''[ALERT]: BREAKPOINT @ 0x0x'' @ d @ nl) s1 s2"
      unfolding lt [symmetric] by blast
    have "idt_handler call frame0 f s = Some (Ret f s2)"
      by (simp only: idt_handler_def assms(3,4) if_True if_False s1(1) s2(1) Option.bind.simps eqTrueI [OF True]
          option.map)
    with emitted_trans [OF s1(2) s2(2)] True show ?thesis
      by (intro exI [of _ s2] exI [of _ "''[ALERT]: BREAKPOINT @ 0x0x'' @ d"]) simp
  next
    case False
    let ?m = "message (exception_info ! unat (vector f))"
    have "unat (vector f) < 32" using assms(3) by (simp add: word_less_nat_alt)
    then have "length (c_string ?m) \<le> 40" using message_short by simp
    moreover have "c_string ''WARN'' = ''WARN''" by code_simp
    ultimately have lt: "line_text (WARN (''Non-fatal exception: %s'' @ nl) [Str ?m]) =
        ''[WARN]: Non-fatal exception: '' @ c_string ?m @ nl"
      unfolding line_text_def using nonfatal_text [of ?m] by (simp add: cut_def nl_def)
    from one_line [OF r1 handler_lines_ok(9)] obtain s2
      where s2: "log_lines [WARN (''Non-fatal exception: %s'' @ nl) [Str ?m]] s1 = Some s2"
        "emitted (''[WARN]: Non-fatal exception: '' @ c_string ?m @ nl) s1 s2"
      unfolding lt [symmetric] by blast
    have "idt_handler call frame0 f s = Some (Ret f s2)"
      by (simp only: idt_handler_def assms(3,4) if_True if_False s1(1) s2(1) Option.bind.simps False
          option.map)
    with emitted_trans [OF s1(2) s2(2)] False show ?thesis
      by (intro exI [of _ s2] exI [of _ "''[WARN]: Non-fatal exception: '' @ c_string ?m"]) simp
  qed
qed

lemma irq_vector: "irq < IRQ_COUNT \<Longrightarrow> unat (of_nat (IRQ_BASE + irq) :: u64) = 32 + irq"
  by (subst unat_of_nat_small) (auto simp: IRQ_BASE_def IRQ_COUNT_def)

definition frame_for :: "u64 \<Rightarrow> int_frame_t" where
  "frame_for v =
     \<lparr>f_ds = 0, f_cr2 = 0, f_cr3 = 0, r15 = 0, r14 = 0, r13 = 0, r12 = 0, r11 = 0, r10 = 0, r9 = 0,
      r8 = 0, rbp = 0, rdi = 0, rsi = 0, rdx = 0, rcx = 0, rbx = 0, rax = 0, vector = v, err = 0,
      rip = 0x1234, f_cs = 8, rflags = 2, rsp = 0, f_ss = 16\<rparr>"

lemma frame_for_vector [simp]: "vector (frame_for v) = v"
  by (simp add: frame_for_def)

lemma exception_kinds:
  "fatal (exception_info ! 13)" "\<not> fatal (exception_info ! 3)" "\<not> fatal (exception_info ! 21)"
  "\<not> fatal (exception_info ! 29)"
  by code_simp+


lemma idt_handler_nonfatal_resumes_witness:
  "\<exists>s' t. idt_handler (\<lambda>_ f s. Some (f, s)) 0 (frame_for 21) (cpu_zero\<lparr>vfprintf_buffer := 0x8000\<rparr>) =
     Some (Ret (frame_for 21) s') \<and> emitted t (cpu_zero\<lparr>vfprintf_buffer := 0x8000\<rparr>) s'"
  using idt_handler_nonfatal_resumes [of "cpu_zero\<lparr>vfprintf_buffer := 0x8000\<rparr>" "frame_for 21"
      "\<lambda>_ f s. Some (f, s)" 0] exception_kinds(3)
  by (simp add: cpu_zero_fields SPINLOCK_INIT_def) blast

text \<open>
  C37. An exception, or an interrupt nobody handles, that arrives while the interrupted code
  holds the console's lock never returns: its report spins on the lock. Only a line with a
  registered handler is dispatched without touching the console.
\<close>

theorem idt_handler_console_deadlock:
  assumes "locked (printf_lock s) \<noteq> 0" "vfprintf_buffer s \<noteq> 0"
    "\<And>irq. vector f = of_nat (IRQ_BASE + irq) \<Longrightarrow> irq < IRQ_COUNT \<Longrightarrow> irq_handlers s ! irq = 0"
  shows "idt_handler call frame0 f s = None"
proof -
  have held: "LOG level fmt as s = None" if "length (c_string level) < 1000" for level fmt as
    using LOG_held [OF assms(1,2) that] .
  have levels: "length (c_string ''FATAL'') < 1000" "length (c_string ''WARN'') < 1000"
    by code_simp+
  consider "vector f < 32"
    | "\<not> vector f < 32" "unat (vector f) \<ge> IRQ_BASE \<and> unat (vector f) < IRQ_BASE + IRQ_COUNT"
    | "\<not> vector f < 32" "\<not> (unat (vector f) \<ge> IRQ_BASE \<and> unat (vector f) < IRQ_BASE + IRQ_COUNT)"
    by blast
  then show ?thesis
  proof cases
    case 1
    then show ?thesis using held [OF levels(1)] by (simp add: idt_handler_def)
  next
    case 2
    let ?irq = "unat (vector f) - IRQ_BASE"
    have "vector f = of_nat (IRQ_BASE + ?irq)" "?irq < IRQ_COUNT" using 2 by auto
    from assms(3) [OF this] have "irq_handlers s ! ?irq = 0" .
    then show ?thesis using 2 held [OF levels(2)] by (simp only: idt_handler_def Let_def) simp
  next
    case 3
    then show ?thesis using held [OF levels(2)] by (simp only: idt_handler_def if_False) simp
  qed
qed

lemma idt_handler_console_deadlock_witness:
  "idt_handler (\<lambda>_ f s. Some (f, s)) 0 (frame_for 14)
     (cpu_zero\<lparr>vfprintf_buffer := 0x8000, printf_lock := SPINLOCK_INIT\<lparr>locked := 1\<rparr>\<rparr>) = None"
proof (rule idt_handler_console_deadlock)
  fix irq
  assume "vector (frame_for 14) = of_nat (IRQ_BASE + irq)" "irq < IRQ_COUNT"
  then have "unat (14 :: u64) = 32 + irq"
    by (metis frame_for_vector irq_vector)
  then show "irq_handlers (cpu_zero\<lparr>vfprintf_buffer := 0x8000, printf_lock := SPINLOCK_INIT\<lparr>locked := 1\<rparr>\<rparr>) ! irq = 0"
    by simp
qed simp_all

section \<open>Registered handlers\<close>

text \<open>The two operations on a table of sixteen entries, for every line number.\<close>

lemma idt_irq_register_cases:
  assumes "ready s"
  shows "\<exists>s'. idt_irq_register irq h s = Some s' \<and> ready s' \<and>
    irq_handlers s' = (if 0 \<le> irq \<and> irq < 16 then (irq_handlers s)[nat irq := h] else irq_handlers s) \<and>
    (0 \<le> irq \<and> irq < 16 \<longrightarrow> printf_lock s' = printf_lock s)"
proof (cases "irq < 0 \<or> irq \<ge> int IRQ_COUNT")
  case True
  from one_line [OF assms handler_lines_ok(13)] obtain s'
    where s': "log_lines [ERROR (''Attempted to register invalid IRQ: %d'' @ nl) [Slot (word_of_int irq)]] s = Some s'"
      "emitted (line_text (ERROR (''Attempted to register invalid IRQ: %d'' @ nl) [Slot (word_of_int irq)])) s s'"
    by blast
  then have "idt_irq_register irq h s = Some s'" using True by (simp only: idt_irq_register_def if_True)
  with True assms emitted_cpu(1) [OF s'(2)] emitted_fields(5) [OF s'(2)] show ?thesis
    by (intro exI [of _ s']) (auto simp: IRQ_COUNT_def)
next
  case False
  then show ?thesis using assms by (auto simp: idt_irq_register_def ready_def IRQ_COUNT_def)
qed

lemma idt_irq_deregister_cases:
  assumes "ready s"
  shows "\<exists>s'. idt_irq_deregister irq s = Some s' \<and> ready s' \<and>
    irq_handlers s' = (if 0 \<le> irq \<and> irq < 16 then (irq_handlers s)[nat irq := 0] else irq_handlers s)"
proof (cases "irq < 0 \<or> irq \<ge> int IRQ_COUNT")
  case True
  from one_line [OF assms handler_lines_ok(14)] obtain s'
    where s': "log_lines [ERROR (''Attempted to deregister invalid IRQ: %d'' @ nl) [Slot (word_of_int irq)]] s = Some s'"
      "emitted (line_text (ERROR (''Attempted to deregister invalid IRQ: %d'' @ nl) [Slot (word_of_int irq)])) s s'"
    by blast
  then have "idt_irq_deregister irq s = Some s'" using True by (simp only: idt_irq_deregister_def if_True)
  with True assms emitted_cpu(1) [OF s'(2)] emitted_fields(5) [OF s'(2)] show ?thesis
    by (intro exI [of _ s']) (auto simp: IRQ_COUNT_def)
next
  case False
  then show ?thesis using assms by (auto simp: idt_irq_deregister_def ready_def IRQ_COUNT_def)
qed

text \<open>States reached from \<open>idt_init\<close> by registering handlers from \<open>H\<close> and removing them.\<close>

inductive irq_reachable :: "(nat \<Rightarrow> u64) \<Rightarrow> u64 set \<Rightarrow> 'a cpu_state_scheme \<Rightarrow> bool"
  for isr :: "nat \<Rightarrow> u64" and H :: "u64 set" where
  init: "ready s \<Longrightarrow> idt_init isr s = (r, s') \<Longrightarrow> irq_reachable isr H s'"
| register: "irq_reachable isr H s \<Longrightarrow> h \<in> H \<Longrightarrow> idt_irq_register irq h s = Some s' \<Longrightarrow>
     irq_reachable isr H s'"
| deregister: "irq_reachable isr H s \<Longrightarrow> idt_irq_deregister irq s = Some s' \<Longrightarrow>
     irq_reachable isr H s'"

lemma irq_reachable_inv:
  "irq_reachable isr H s \<Longrightarrow> ready s \<and> length (irq_handlers s) = 16 \<and> set (irq_handlers s) \<subseteq> insert 0 H"
proof (induction rule: irq_reachable.induct)
  case (init s r s')
  then show ?case by (auto simp: idt_init_def idt_load_def Let_def ready_def IRQ_COUNT_def)
next
  case (register s h irq s')
  then have sub: "set ((irq_handlers s)[nat irq := h]) \<subseteq> insert 0 H"
    using set_update_subset_insert [of "irq_handlers s" "nat irq" h] by blast
  from idt_irq_register_cases [of s irq h] register sub show ?case by auto
next
  case (deregister s irq s')
  then have sub: "set ((irq_handlers s)[nat irq := 0]) \<subseteq> insert 0 H"
    using set_update_subset_insert [of "irq_handlers s" "nat irq" 0] by blast
  from idt_irq_deregister_cases [of s irq] deregister sub show ?case by auto
qed



lemma idt_handler_registered:
  assumes "vector f = of_nat (IRQ_BASE + irq)" "irq < IRQ_COUNT" "irq_handlers s ! irq \<noteq> 0"
  shows "idt_handler call frame0 f s = map_option (\<lambda>(f', t). Ret f' t) (call (irq_handlers s ! irq) f s)"
proof -
  have v: "unat (vector f) = 32 + irq" "\<not> vector f < 32"
    using irq_vector [OF assms(2)] assms(1) by (simp_all only: word_less_nat_alt) simp
  have range: "(unat (vector f) \<ge> IRQ_BASE \<and> unat (vector f) < IRQ_BASE + IRQ_COUNT) = True"
    and irq: "unat (vector f) - IRQ_BASE = irq"
    using v assms(2) by (simp_all add: IRQ_BASE_def)
  show ?thesis
    by (simp only: idt_handler_def v(2) if_False range if_True Let_def irq assms(3) not_False_eq_True)
qed

text \<open>
  A handler registered for a line is what an interrupt on that line runs, once, on the
  frame, and its result is the frame the stub restores; the other lines keep theirs. After
  the handler is removed the interrupt is only reported.
\<close>

lemma registered_handler_runs:
  assumes "ready s" "length (irq_handlers s) = IRQ_COUNT" "irq < IRQ_COUNT" "h \<noteq> 0"
    "vector f = of_nat (IRQ_BASE + irq)"
  shows "\<exists>s1 s2. idt_irq_register (int irq) h s = Some s1 \<and>
    idt_handler call frame0 f s1 = map_option (\<lambda>(f', t). Ret f' t) (call h f s1) \<and>
    (\<forall>k. k \<noteq> irq \<longrightarrow> irq_handlers s1 ! k = irq_handlers s ! k) \<and>
    idt_irq_deregister (int irq) s1 = Some s2 \<and>
    (\<exists>s3 t. idt_handler call frame0 f s2 = Some (Ret f s3) \<and> emitted t s2 s3)"
proof -
  let ?s1 = "s\<lparr>irq_handlers := (irq_handlers s)[irq := h]\<rparr>"
  let ?s2 = "s\<lparr>irq_handlers := (irq_handlers s)[irq := 0]\<rparr>"
  have v: "unat (vector f) = 32 + irq" "\<not> vector f < 32"
    using irq_vector [OF assms(3)] assms(5) by (simp_all only: word_less_nat_alt) simp
  have range: "(unat (vector f) \<ge> IRQ_BASE \<and> unat (vector f) < IRQ_BASE + IRQ_COUNT) = True"
    and irq: "unat (vector f) - IRQ_BASE = irq"
    using v assms(3) by (simp_all add: IRQ_BASE_def)
  have reg: "idt_irq_register (int irq) h s = Some ?s1" "idt_irq_deregister (int irq) ?s1 = Some ?s2"
    using assms(3) by (simp_all add: idt_irq_register_def idt_irq_deregister_def)
  have h: "(irq_handlers ?s2 ! irq \<noteq> 0) = False" using assms(2,3) by simp
  have run: "idt_handler call frame0 f ?s1 = map_option (\<lambda>(f', t). Ret f' t) (call h f ?s1)"
    using idt_handler_registered [where irq = irq and s = ?s1 and f = f] assms by simp
  have "ready ?s2" using assms(1) by (simp add: ready_def)
  from one_line [OF this handler_lines_ok(10)] obtain s3
    where s3: "log_lines [WARN (''No handler registered for IRQ %d, interrupt ignored'' @ nl)
        [Slot (of_nat irq)]] ?s2 = Some s3"
      "emitted (line_text (WARN (''No handler registered for IRQ %d, interrupt ignored'' @ nl)
        [Slot (of_nat irq)])) ?s2 s3" by blast
  have "idt_handler call frame0 f ?s2 = Some (Ret f s3)"
    by (simp only: idt_handler_def v(2) if_False range if_True Let_def irq h s3(1) option.map)
  with reg run s3(2) show ?thesis
    by (intro exI [of _ ?s1] exI [of _ ?s2]) auto
qed

lemma registered_handler_runs_witness:
  "\<exists>s1. idt_irq_register 1 0x5000 (cpu_zero\<lparr>vfprintf_buffer := 0x8000\<rparr>) = Some s1 \<and>
     idt_handler (\<lambda>h f s. if h = 0x5000 then Some (f\<lparr>rax := 7\<rparr>, s) else None) 0 (frame_for 33) s1 =
       Some (Ret ((frame_for 33)\<lparr>rax := 7\<rparr>) s1)"
  using registered_handler_runs [of "cpu_zero\<lparr>vfprintf_buffer := 0x8000\<rparr>" 1 "0x5000" "frame_for 33"
      "\<lambda>h f s. if h = 0x5000 then Some (f\<lparr>rax := 7\<rparr>, s) else None" 0]
  by (auto simp: ready_def cpu_zero_fields SPINLOCK_INIT_def IRQ_COUNT_def IRQ_BASE_def)

end
