(* ===== verification/HeapFields.thy ===== *)
theory HeapFields
  imports Liballoc
begin

text \<open>
  The headers of the heap as records in memory: reading a field after writing the same or
  another field of the same header, or a field of a header elsewhere, and the two alignment
  macros. These rules (the collection \<open>hdr_simps\<close>) let the proofs about the allocator treat
  byte memory as a store of headers.
\<close>

named_theorems hdr_simps \<open>fields of heap headers after an update\<close>

section \<open>Ranges inside ranges\<close>

lemma disj_shift:
  assumes "disj p N q K" "unat u + n \<le> N" "unat v + k \<le> K" "0 < n" "0 < k"
  shows "disj (p + u) n (q + v) k"
proof -
  define d where "d = q - p"
  have nz: "d \<noteq> 0" using assms(1,2,4) by (auto simp: disj_def d_def)
  have pq: "N \<le> unat d" "K \<le> 2 ^ 64 - unat d"
  proof -
    have "unat (0 - d) = (if unat d = 0 then 0 else 2 ^ 64 - unat d)"
      by (simp only: unat_sub_if') simp
    then have "unat (p - q) = 2 ^ 64 - unat d"
      using nz by (simp add: d_def unat_eq_zero)
    with assms(1) show "N \<le> unat d" "K \<le> 2 ^ 64 - unat d" by (simp_all add: disj_def d_def)
  qed
  have lt: "unat d < 2 ^ 64" by (rule u64_bound)
  have 1: "(q + v) - (p + u) = of_nat (unat d + unat v - unat u)"
    using pq assms(2) by (simp add: d_def of_nat_diff)
  have 2: "(p + u) - (q + v) = of_nat (2 ^ 64 - (unat d + unat v - unat u))"
  proof -
    have "(of_nat (2 ^ 64 - (unat d + unat v - unat u)) :: u64) = - of_nat (unat d + unat v - unat u)"
      using pq assms lt by (subst of_nat_diff) auto
    then show ?thesis unfolding 1 [symmetric] by simp
  qed
  have "unat d + unat v - unat u < 2 ^ 64" "2 ^ 64 - (unat d + unat v - unat u) < 2 ^ 64"
    using pq assms lt nz by linarith+
  from this [THEN unat_of_nat_small] show ?thesis
    unfolding disj_def 1 2 using pq assms lt by linarith
qed

lemma disj_shift0:
  assumes "disj p N q K"
  shows "n \<le> N \<Longrightarrow> unat v + k \<le> K \<Longrightarrow> 0 < n \<Longrightarrow> 0 < k \<Longrightarrow> disj p n (q + v) k"
    "unat u + n \<le> N \<Longrightarrow> k \<le> K \<Longrightarrow> 0 < n \<Longrightarrow> 0 < k \<Longrightarrow> disj (p + u) n q k"
    "n \<le> N \<Longrightarrow> k \<le> K \<Longrightarrow> 0 < n \<Longrightarrow> 0 < k \<Longrightarrow> disj p n q k"
  using disj_shift [OF assms, of 0 n v k] disj_shift [OF assms, of u n 0 k] disj_shift [OF assms, of 0 n 0 k]
  by simp_all

lemma disj_same: "disj (p + u) n (p + v) k \<longleftrightarrow> n \<le> unat (v - u) \<and> k \<le> unat (u - v)"
  "disj p n (p + v) k \<longleftrightarrow> n \<le> unat v \<and> k \<le> unat (- v)"
  "disj (p + u) n p k \<longleftrightarrow> n \<le> unat (- u) \<and> k \<le> unat u"
  by (simp_all add: disj_def)

section \<open>Minor headers\<close>

lemma minor_same [hdr_simps]:
  "min_prev (set_min_prev p a m) p = a" "min_prev (set_min_next p a m) p = min_prev m p"
  "min_prev (set_min_block p a m) p = min_prev m p" "min_prev (set_min_magic p w m) p = min_prev m p"
  "min_prev (set_min_size p w m) p = min_prev m p" "min_prev (set_min_req_size p w m) p = min_prev m p"
  "min_next (set_min_prev p a m) p = min_next m p" "min_next (set_min_next p a m) p = a"
  "min_next (set_min_block p a m) p = min_next m p" "min_next (set_min_magic p w m) p = min_next m p"
  "min_next (set_min_size p w m) p = min_next m p" "min_next (set_min_req_size p w m) p = min_next m p"
  "min_block (set_min_prev p a m) p = min_block m p" "min_block (set_min_next p a m) p = min_block m p"
  "min_block (set_min_block p a m) p = a" "min_block (set_min_magic p w m) p = min_block m p"
  "min_block (set_min_size p w m) p = min_block m p" "min_block (set_min_req_size p w m) p = min_block m p"
  "min_magic (set_min_prev p a m) p = min_magic m p" "min_magic (set_min_next p a m) p = min_magic m p"
  "min_magic (set_min_block p a m) p = min_magic m p" "min_magic (set_min_magic p w m) p = w"
  "min_magic (set_min_size p w m) p = min_magic m p" "min_magic (set_min_req_size p w m) p = min_magic m p"
  "min_size (set_min_prev p a m) p = min_size m p" "min_size (set_min_next p a m) p = min_size m p"
  "min_size (set_min_block p a m) p = min_size m p" "min_size (set_min_magic p w m) p = min_size m p"
  "min_size (set_min_size p w m) p = w" "min_size (set_min_req_size p w m) p = min_size m p"
  by (simp_all add: minor_fields mem_frame disj_same)

lemma minor_far [hdr_simps]:
  assumes "disj p 40 q 40"
  shows "min_prev (set_min_prev q a m) p = min_prev m p" "min_prev (set_min_next q a m) p = min_prev m p"
  "min_prev (set_min_block q a m) p = min_prev m p" "min_prev (set_min_magic q w m) p = min_prev m p"
  "min_prev (set_min_size q w m) p = min_prev m p" "min_prev (set_min_req_size q w m) p = min_prev m p"
  "min_next (set_min_prev q a m) p = min_next m p" "min_next (set_min_next q a m) p = min_next m p"
  "min_next (set_min_block q a m) p = min_next m p" "min_next (set_min_magic q w m) p = min_next m p"
  "min_next (set_min_size q w m) p = min_next m p" "min_next (set_min_req_size q w m) p = min_next m p"
  "min_block (set_min_prev q a m) p = min_block m p" "min_block (set_min_next q a m) p = min_block m p"
  "min_block (set_min_block q a m) p = min_block m p" "min_block (set_min_magic q w m) p = min_block m p"
  "min_block (set_min_size q w m) p = min_block m p" "min_block (set_min_req_size q w m) p = min_block m p"
  "min_magic (set_min_prev q a m) p = min_magic m p" "min_magic (set_min_next q a m) p = min_magic m p"
  "min_magic (set_min_block q a m) p = min_magic m p" "min_magic (set_min_magic q w m) p = min_magic m p"
  "min_magic (set_min_size q w m) p = min_magic m p" "min_magic (set_min_req_size q w m) p = min_magic m p"
  "min_size (set_min_prev q a m) p = min_size m p" "min_size (set_min_next q a m) p = min_size m p"
  "min_size (set_min_block q a m) p = min_size m p" "min_size (set_min_magic q w m) p = min_size m p"
  "min_size (set_min_size q w m) p = min_size m p" "min_size (set_min_req_size q w m) p = min_size m p"
  by (simp_all add: minor_fields mem_frame disj_shift [OF assms] disj_shift0 [OF assms])

section \<open>Major headers\<close>

lemma major_same [hdr_simps]:
  "maj_prev (set_maj_prev p a m) p = a" "maj_prev (set_maj_next p a m) p = maj_prev m p"
    "maj_prev (set_maj_pages p w m) p = maj_prev m p" "maj_prev (set_maj_size p w m) p = maj_prev m p"
    "maj_prev (set_maj_usage p w m) p = maj_prev m p" "maj_prev (set_maj_first p a m) p = maj_prev m p"
    "maj_next (set_maj_prev p a m) p = maj_next m p" "maj_next (set_maj_next p a m) p = a"
    "maj_next (set_maj_pages p w m) p = maj_next m p" "maj_next (set_maj_size p w m) p = maj_next m p"
    "maj_next (set_maj_usage p w m) p = maj_next m p" "maj_next (set_maj_first p a m) p = maj_next m p"
    "maj_pages (set_maj_prev p a m) p = maj_pages m p" "maj_pages (set_maj_next p a m) p = maj_pages m p"
    "maj_pages (set_maj_pages p w m) p = w" "maj_pages (set_maj_size p w m) p = maj_pages m p"
    "maj_pages (set_maj_usage p w m) p = maj_pages m p" "maj_pages (set_maj_first p a m) p = maj_pages m p"
    "maj_size (set_maj_prev p a m) p = maj_size m p" "maj_size (set_maj_next p a m) p = maj_size m p"
    "maj_size (set_maj_pages p w m) p = maj_size m p" "maj_size (set_maj_size p w m) p = w"
    "maj_size (set_maj_usage p w m) p = maj_size m p" "maj_size (set_maj_first p a m) p = maj_size m p"
    "maj_usage (set_maj_prev p a m) p = maj_usage m p" "maj_usage (set_maj_next p a m) p = maj_usage m p"
    "maj_usage (set_maj_pages p w m) p = maj_usage m p" "maj_usage (set_maj_size p w m) p = maj_usage m p"
    "maj_usage (set_maj_usage p w m) p = w" "maj_usage (set_maj_first p a m) p = maj_usage m p"
    "maj_first (set_maj_prev p a m) p = maj_first m p" "maj_first (set_maj_next p a m) p = maj_first m p"
    "maj_first (set_maj_pages p w m) p = maj_first m p" "maj_first (set_maj_size p w m) p = maj_first m p"
    "maj_first (set_maj_usage p w m) p = maj_first m p" "maj_first (set_maj_first p a m) p = a"
  by (simp_all add: major_fields mem_frame disj_same)

lemma major_far [hdr_simps]:
  assumes "disj p 40 q 40"
  shows "maj_prev (set_min_prev q a m) p = maj_prev m p" "maj_prev (set_min_next q a m) p = maj_prev m p"
    "maj_prev (set_min_block q a m) p = maj_prev m p" "maj_prev (set_min_magic q w m) p = maj_prev m p"
    "maj_prev (set_min_size q w m) p = maj_prev m p" "maj_prev (set_min_req_size q w m) p = maj_prev m p"
    "maj_next (set_min_prev q a m) p = maj_next m p" "maj_next (set_min_next q a m) p = maj_next m p"
    "maj_next (set_min_block q a m) p = maj_next m p" "maj_next (set_min_magic q w m) p = maj_next m p"
    "maj_next (set_min_size q w m) p = maj_next m p" "maj_next (set_min_req_size q w m) p = maj_next m p"
    "maj_pages (set_min_prev q a m) p = maj_pages m p" "maj_pages (set_min_next q a m) p = maj_pages m p"
    "maj_pages (set_min_block q a m) p = maj_pages m p" "maj_pages (set_min_magic q w m) p = maj_pages m p"
    "maj_pages (set_min_size q w m) p = maj_pages m p" "maj_pages (set_min_req_size q w m) p = maj_pages m p"
    "maj_size (set_min_prev q a m) p = maj_size m p" "maj_size (set_min_next q a m) p = maj_size m p"
    "maj_size (set_min_block q a m) p = maj_size m p" "maj_size (set_min_magic q w m) p = maj_size m p"
    "maj_size (set_min_size q w m) p = maj_size m p" "maj_size (set_min_req_size q w m) p = maj_size m p"
    "maj_usage (set_min_prev q a m) p = maj_usage m p" "maj_usage (set_min_next q a m) p = maj_usage m p"
    "maj_usage (set_min_block q a m) p = maj_usage m p" "maj_usage (set_min_magic q w m) p = maj_usage m p"
    "maj_usage (set_min_size q w m) p = maj_usage m p" "maj_usage (set_min_req_size q w m) p = maj_usage m p"
    "maj_first (set_min_prev q a m) p = maj_first m p" "maj_first (set_min_next q a m) p = maj_first m p"
    "maj_first (set_min_block q a m) p = maj_first m p" "maj_first (set_min_magic q w m) p = maj_first m p"
    "maj_first (set_min_size q w m) p = maj_first m p" "maj_first (set_min_req_size q w m) p = maj_first m p"
  by (simp_all add: major_fields minor_fields mem_frame disj_shift [OF assms] disj_shift0 [OF assms])

lemma minor_major_far [hdr_simps]:
  assumes "disj p 40 q 40"
  shows "min_prev (set_maj_prev q a m) p = min_prev m p" "min_prev (set_maj_next q a m) p = min_prev m p"
    "min_prev (set_maj_pages q w m) p = min_prev m p" "min_prev (set_maj_size q w m) p = min_prev m p"
    "min_prev (set_maj_usage q w m) p = min_prev m p" "min_prev (set_maj_first q a m) p = min_prev m p"
    "min_next (set_maj_prev q a m) p = min_next m p" "min_next (set_maj_next q a m) p = min_next m p"
    "min_next (set_maj_pages q w m) p = min_next m p" "min_next (set_maj_size q w m) p = min_next m p"
    "min_next (set_maj_usage q w m) p = min_next m p" "min_next (set_maj_first q a m) p = min_next m p"
    "min_block (set_maj_prev q a m) p = min_block m p" "min_block (set_maj_next q a m) p = min_block m p"
    "min_block (set_maj_pages q w m) p = min_block m p" "min_block (set_maj_size q w m) p = min_block m p"
    "min_block (set_maj_usage q w m) p = min_block m p" "min_block (set_maj_first q a m) p = min_block m p"
    "min_magic (set_maj_prev q a m) p = min_magic m p" "min_magic (set_maj_next q a m) p = min_magic m p"
    "min_magic (set_maj_pages q w m) p = min_magic m p" "min_magic (set_maj_size q w m) p = min_magic m p"
    "min_magic (set_maj_usage q w m) p = min_magic m p" "min_magic (set_maj_first q a m) p = min_magic m p"
    "min_size (set_maj_prev q a m) p = min_size m p" "min_size (set_maj_next q a m) p = min_size m p"
    "min_size (set_maj_pages q w m) p = min_size m p" "min_size (set_maj_size q w m) p = min_size m p"
    "min_size (set_maj_usage q w m) p = min_size m p" "min_size (set_maj_first q a m) p = min_size m p"
  by (simp_all add: major_fields minor_fields mem_frame disj_shift [OF assms] disj_shift0 [OF assms])

section \<open>Bytes outside the headers\<close>

lemma header_st8 [hdr_simps]:
  assumes "disj p 40 q 1"
  shows "maj_prev (st8 q b m) p = maj_prev m p" "maj_next (st8 q b m) p = maj_next m p"
    "maj_pages (st8 q b m) p = maj_pages m p" "maj_size (st8 q b m) p = maj_size m p"
    "maj_usage (st8 q b m) p = maj_usage m p" "maj_first (st8 q b m) p = maj_first m p"
    "min_prev (st8 q b m) p = min_prev m p" "min_next (st8 q b m) p = min_next m p"
    "min_block (st8 q b m) p = min_block m p" "min_magic (st8 q b m) p = min_magic m p"
    "min_size (st8 q b m) p = min_size m p" "min_req_size (st8 q b m) p = min_req_size m p"
  by (simp_all add: major_fields minor_fields mem_frame disj_shift [OF assms] disj_shift0 [OF assms])

text \<open>A header update changes no byte outside its forty bytes.\<close>

definition outside :: "u64 \<Rightarrow> u64 \<Rightarrow> bool" where
  "outside p x \<longleftrightarrow> 40 \<le> unat (x - p)"

lemma st_bytes_outside:
  assumes "outside p x" "unat u + n \<le> 40"
  shows "st_bytes n (p + u) v m x = m x"
proof (rule st_bytes_other)
  fix j assume "j < n"
  then have "unat (u + of_nat j) < 40"
    using assms(2) by (simp add: unat_add_small unat_of_nat_small)
  then show "x \<noteq> p + u + of_nat j"
    using assms(1) by (auto simp: outside_def add.assoc)
qed

lemma header_outside [hdr_simps]:
  assumes "outside p x"
  shows "set_min_prev p a m x = m x" "set_min_next p a m x = m x"
    "set_min_block p a m x = m x" "set_min_magic p w m x = m x"
    "set_min_size p w m x = m x" "set_min_req_size p w m x = m x"
    "set_maj_prev p a m x = m x" "set_maj_next p a m x = m x"
    "set_maj_pages p w m x = m x" "set_maj_size p w m x = m x"
    "set_maj_usage p w m x = m x" "set_maj_first p a m x = m x"
  using st_bytes_outside [OF assms, of 0] by (simp_all only: minor_fields major_fields st64_def st32_def)
    (simp_all add: st_bytes_outside [OF assms])

section \<open>Alignment\<close>

text \<open>
  \<open>ALIGN\<close> moves a pointer up by sixteen to thirty-one bytes, to a multiple of sixteen, and
  leaves the distance in the byte sixteen below; \<open>UNALIGN\<close> reads it back.
\<close>

lemma small_char:
  assumes "16 \<le> k" "k \<le> 31"
  shows "(scast (of_nat k :: u8) :: u64) = of_nat k" "(ucast (of_nat k :: u64) :: u8) = of_nat k"
proof -
  have "k \<in> set [16..<32]" using assms by (simp only: set_upt atLeastLessThan_iff) simp
  then show "(scast (of_nat k :: u8) :: u64) = of_nat k" "(ucast (of_nat k :: u64) :: u8) = of_nat k"
    by (auto simp: upt_rec_numeral)
qed

lemma and_15: "x AND 15 = (0 :: u64) \<longleftrightarrow> unat x mod 16 = 0" "unat (x AND 15) = unat x mod 16"
proof -
  have "x AND 15 = take_bit 4 x" by (simp add: take_bit_eq_mask mask_eq_exp_minus_1)
  then have "unat (x AND 15) = take_bit 4 (unat x)" by (simp only: unsigned_take_bit_eq)
  then show "unat (x AND 15) = unat x mod 16" by (simp add: take_bit_eq_mod)
  then show "x AND 15 = 0 \<longleftrightarrow> unat x mod 16 = 0" by (metis unat_eq_zero)
qed

lemma unat_add_mod_16: "unat (x + y :: u64) mod 16 = (unat x mod 16 + unat y) mod 16"
proof -
  have "unat (x + y) mod 16 = (unat x + unat y) mod 2 ^ 64 mod 16" by (simp add: unat_word_ariths)
  also have "\<dots> = (unat x + unat y) mod 16" by (rule mod_mod_cancel) simp
  finally show ?thesis by (simp add: mod_simps)
qed

lemma ALIGN_spec:
  obtains k where "16 \<le> k" "k \<le> 31"
    "\<And>s :: 'a pmm_state_scheme. ALIGN ptr s = (ptr + of_nat k, upd (st8 (ptr + of_nat (k - 16)) (of_nat k)) s)"
    "(ptr + of_nat k) AND 15 = 0"
    "\<And>m. m (ptr + of_nat (k - 16)) = of_nat k \<Longrightarrow> UNALIGN (ptr + of_nat k) m = ptr"
proof -
  define d where "d = (ptr + 16) AND 15"
  define e where "e = (if d \<noteq> 0 then 16 - d else 0)"
  define k where "k = 16 + unat e"
  have d: "unat d = unat (ptr + 16) mod 16" by (simp add: d_def and_15)
  then have "unat d < 16" by simp
  then have e: "unat e = (16 - unat d) mod 16"
    by (cases "d = 0") (simp_all add: e_def unat_sub word_le_nat_alt unat_gt_0)
  have kw: "(of_nat k :: u64) = 16 + e" "(of_nat (k - 16) :: u64) = e" by (simp_all add: k_def)
  have k: "16 \<le> k" "k \<le> 31" by (simp_all add: k_def e)
  show thesis
  proof
    show "16 \<le> k" "k \<le> 31" by fact+
    have w: "ucast (e + 16) = (of_nat k :: u8)"
      using small_char(2) [OF k] by (simp add: kw add.commute)
    have eq: "16 + (ptr - x) = ptr + (16 - x)" for x :: u64 by (simp add: algebra_simps)
    fix s :: "'a pmm_state_scheme"
    have "ALIGN ptr s = (ptr + 16 + e, upd (st8 (ptr + 16 + e - 16) (ucast (e + 16))) s)"
      unfolding ALIGN_def ALIGN_INFO_def ALIGNMENT_def Let_def e_def d_def by (simp add: eq)
    then show "ALIGN ptr s = (ptr + of_nat k, upd (st8 (ptr + of_nat (k - 16)) (of_nat k)) s)"
      by (simp only: w kw) (simp add: add.assoc)
    have "unat (ptr + 16 + e) mod 16 = (unat d + (16 - unat d) mod 16) mod 16"
      by (simp add: unat_add_mod_16 [of "ptr + 16"] e flip: d)
    also have "\<dots> = 0" using \<open>unat d < 16\<close> by (simp add: mod_simps)
    finally show "(ptr + of_nat k) AND 15 = 0" by (simp add: and_15 kw add.assoc)
    show "UNALIGN (ptr + of_nat k) m = ptr" if m: "m (ptr + of_nat (k - 16)) = of_nat k" for m
    proof -
      have below: "ptr + of_nat k - 16 = ptr + of_nat (k - 16)" by (simp add: kw)
      have lt: "(of_nat k :: u64) < 16 + 16"
        using k by (simp add: word_less_nat_alt unat_of_nat_small)
      show ?thesis
        unfolding UNALIGN_def ALIGN_INFO_def ALIGNMENT_def ld8_def Let_def below m small_char(1) [OF k]
        using lt by simp
    qed
  qed
qed

end
