(* ===== verification/HeapSpec.thy ===== *)
theory HeapSpec
  imports HeapFields
begin

text \<open>
  What a major block of the heap is, abstractly: a list of allocations \<open>(off, sz)\<close>, each a
  forty-byte header at offset \<open>off\<close> followed by \<open>sz\<close> bytes, in the order of their addresses
  and without overlap (\<open>spaced\<close>), threaded through memory as a doubly linked list
  (\<open>linked\<close>), with the used size in the block's header their sum (\<open>block\<close>). The lemmas say how
  linking in and taking out one header changes the list.
\<close>

section \<open>Layout\<close>

type_synonym alloc = "nat \<times> nat"

primrec spaced :: "nat \<Rightarrow> alloc list \<Rightarrow> nat \<Rightarrow> bool" where
  "spaced lo [] hi \<longleftrightarrow> lo \<le> hi"
| "spaced lo (b # bs) hi \<longleftrightarrow> lo \<le> fst b \<and> spaced (fst b + 40 + snd b) bs hi"

definition ends :: "nat \<Rightarrow> alloc list \<Rightarrow> nat" where
  "ends lo bs = (if bs = [] then lo else fst (last bs) + 40 + snd (last bs))"

definition starts :: "alloc list \<Rightarrow> nat \<Rightarrow> nat" where
  "starts bs hi = (if bs = [] then hi else fst (hd bs))"

definition used :: "alloc list \<Rightarrow> nat" where
  "used bs = 40 + sum_list (map (\<lambda>b. 40 + snd b) bs)"

lemma ends_Cons: "ends lo (b # bs) = ends (fst b + 40 + snd b) bs"
  by (simp add: ends_def)

lemma spaced_append:
  "spaced lo (as @ bs) hi \<longleftrightarrow> spaced lo as (ends lo as) \<and> spaced (ends lo as) bs hi"
proof (induction as arbitrary: lo)
  case (Cons a as)
  then show ?case by (simp add: ends_Cons)
qed (simp add: ends_def)

lemma spaced_ends: "spaced lo as hi \<longleftrightarrow> spaced lo as (ends lo as) \<and> ends lo as \<le> hi"
  using spaced_append [of lo as "[]" hi] by simp

lemma spaced_le: "spaced lo bs hi \<Longrightarrow> lo \<le> hi"
  by (induction bs arbitrary: lo) force+

lemma spaced_bounds: "spaced lo bs hi \<Longrightarrow> b \<in> set bs \<Longrightarrow> lo \<le> fst b \<and> fst b + 40 + snd b \<le> hi"
proof (induction bs arbitrary: lo)
  case (Cons c bs)
  from Cons.prems(1) spaced_le have "fst c + 40 + snd c \<le> hi" by auto
  with Cons show ?case by fastforce
qed simp

lemma spaced_before:
  "spaced lo (as @ cs) hi \<Longrightarrow> a \<in> set as \<Longrightarrow> c \<in> set cs \<Longrightarrow> fst a + 40 + snd a \<le> fst c"
  using spaced_bounds [of lo as "ends lo as" a] spaced_bounds [of "ends lo as" cs hi c]
  by (auto simp: spaced_append)

lemma spaced_start: "spaced lo cs hi \<Longrightarrow> lo \<le> starts cs hi"
  by (cases cs) (simp_all add: starts_def)

lemma spaced_insert:
  assumes "spaced lo (as @ cs) hi" "ends lo as \<le> off" "off + 40 + sz \<le> starts cs hi"
  shows "spaced lo (as @ (off, sz) # cs) hi"
  using assms spaced_ends [of lo as hi] by (cases cs) (simp_all add: spaced_append starts_def)

lemma spaced_remove: "spaced lo (as @ x # cs) hi \<Longrightarrow> spaced lo (as @ cs) hi"
  using spaced_ends [of lo as hi] by (cases cs) (auto simp: spaced_append)

lemma used_le: "spaced lo bs hi \<Longrightarrow> lo + sum_list (map (\<lambda>b. 40 + snd b) bs) \<le> hi"
  by (induction bs arbitrary: lo) force+

lemma used_insert: "used (as @ x # cs) = used (as @ cs) + 40 + snd x"
  by (simp add: used_def)

section \<open>The list in memory\<close>

definition bptr :: "u64 \<Rightarrow> alloc \<Rightarrow> u64" where
  "bptr maj b = maj + of_nat (fst b)"

definition first_ptr :: "u64 \<Rightarrow> alloc list \<Rightarrow> u64 \<Rightarrow> u64" where
  "first_ptr maj bs nx = (if bs = [] then nx else bptr maj (hd bs))"

definition last_ptr :: "u64 \<Rightarrow> u64 \<Rightarrow> alloc list \<Rightarrow> u64" where
  "last_ptr maj pv bs = (if bs = [] then pv else bptr maj (last bs))"

definition header :: "mem \<Rightarrow> u64 \<Rightarrow> u64 \<Rightarrow> alloc \<Rightarrow> u64 \<Rightarrow> bool" where
  "header m maj pv b nx \<longleftrightarrow>
     min_prev m (bptr maj b) = pv \<and> min_next m (bptr maj b) = nx \<and> min_block m (bptr maj b) = maj \<and>
     min_magic m (bptr maj b) = LIBALLOC_MAGIC \<and> unat (min_size m (bptr maj b)) = snd b"

primrec linked :: "mem \<Rightarrow> u64 \<Rightarrow> u64 \<Rightarrow> alloc list \<Rightarrow> u64 \<Rightarrow> bool" where
  "linked m maj pv [] nx \<longleftrightarrow> True"
| "linked m maj pv (b # bs) nx \<longleftrightarrow>
     header m maj pv b (first_ptr maj bs nx) \<and> linked m maj (bptr maj b) bs nx"

definition block :: "mem \<Rightarrow> u64 \<Rightarrow> nat \<Rightarrow> alloc list \<Rightarrow> bool" where
  "block m maj hi bs \<longleftrightarrow>
     maj \<noteq> 0 \<and> unat maj + hi < 2 ^ 64 \<and> hi < 2 ^ 32 \<and> unat (maj_size m maj) = hi \<and>
     maj_first m maj = first_ptr maj bs 0 \<and> unat (maj_usage m maj) = used bs \<and>
     linked m maj 0 bs 0 \<and> spaced 40 bs hi"

lemma linked_append:
  "linked m maj pv (as @ bs) nx \<longleftrightarrow>
     linked m maj pv as (first_ptr maj bs nx) \<and> linked m maj (last_ptr maj pv as) bs nx"
proof (induction as arbitrary: pv)
  case (Cons a as)
  then show ?case by (cases as) (simp_all add: first_ptr_def last_ptr_def)
qed (simp add: last_ptr_def)

text \<open>Two memories agree on a header except for its links.\<close>

definition same_body :: "mem \<Rightarrow> mem \<Rightarrow> u64 \<Rightarrow> bool" where
  "same_body m m' p \<longleftrightarrow>
     min_block m' p = min_block m p \<and> min_magic m' p = min_magic m p \<and> min_size m' p = min_size m p"

text \<open>Relinking the two ends of a stretch of the list.\<close>

lemma linked_relink_next:
  assumes "linked m maj pv as nx" "\<And>b. b \<in> set as \<Longrightarrow> same_body m m' (bptr maj b)"
    "\<And>b. b \<in> set as \<Longrightarrow> min_prev m' (bptr maj b) = min_prev m (bptr maj b)"
    "\<And>b. b \<in> set (butlast as) \<Longrightarrow> min_next m' (bptr maj b) = min_next m (bptr maj b)"
    "as \<noteq> [] \<Longrightarrow> min_next m' (bptr maj (last as)) = nx'"
  shows "linked m' maj pv as nx'"
  using assms
proof (induction as arbitrary: pv)
  case (Cons a as)
  show ?case
  proof (cases as)
    case Nil
    then show ?thesis using Cons.prems by (simp add: header_def same_body_def first_ptr_def)
  next
    case (Cons b bs)
    have "linked m' maj (bptr maj a) as nx'"
      using Cons.prems Cons by (intro Cons.IH) auto
    with Cons.prems Cons show ?thesis by (auto simp: header_def same_body_def first_ptr_def)
  qed
qed simp

lemma linked_same:
  assumes "linked m maj pv cs nx" "\<And>b. b \<in> set cs \<Longrightarrow> same_body m m' (bptr maj b)"
    "\<And>b. b \<in> set cs \<Longrightarrow> min_prev m' (bptr maj b) = min_prev m (bptr maj b)"
    "\<And>b. b \<in> set cs \<Longrightarrow> min_next m' (bptr maj b) = min_next m (bptr maj b)"
  shows "linked m' maj pv cs nx"
  using assms by (induction cs arbitrary: pv) (auto simp: header_def same_body_def)

lemma linked_relink_prev:
  assumes "linked m maj pv cs nx" "\<And>b. b \<in> set cs \<Longrightarrow> same_body m m' (bptr maj b)"
    "\<And>b. b \<in> set cs \<Longrightarrow> min_next m' (bptr maj b) = min_next m (bptr maj b)"
    "\<And>b. b \<in> set (tl cs) \<Longrightarrow> min_prev m' (bptr maj b) = min_prev m (bptr maj b)"
    "cs \<noteq> [] \<Longrightarrow> min_prev m' (bptr maj (hd cs)) = pv'"
  shows "linked m' maj pv' cs nx"
proof (cases cs)
  case (Cons c ds)
  with assms have "linked m' maj (bptr maj c) ds nx"
    by (intro linked_same [of m maj _ ds nx m']) auto
  with assms Cons show ?thesis by (auto simp: header_def same_body_def)
qed simp

section \<open>Headers do not overlap\<close>

lemma at_disj:
  assumes "a + n \<le> b" "b + k \<le> 2 ^ 63" "0 < n" "0 < k"
  shows "disj (maj + of_nat a) n (maj + of_nat b) k" "disj (maj + of_nat b) k (maj + of_nat a) n"
proof -
  have 1: "maj + of_nat b - (maj + of_nat a) = (of_nat (b - a) :: u64)"
    using assms(1) by (simp add: of_nat_diff)
  have "maj + of_nat a - (maj + of_nat b) = - (of_nat (b - a) :: u64)"
    using assms(1) by (simp add: of_nat_diff)
  also have "\<dots> = of_nat (2 ^ 64 - (b - a))"
    using assms by (subst of_nat_diff) simp_all
  finally have 2: "maj + of_nat a - (maj + of_nat b) = (of_nat (2 ^ 64 - (b - a)) :: u64)" .
  have "b - a < 2 ^ 64" "2 ^ 64 - (b - a) < 2 ^ 64" using assms by auto
  from this [THEN unat_of_nat_small]
  have "unat (of_nat (b - a) :: u64) = b - a" "unat (of_nat (2 ^ 64 - (b - a)) :: u64) = 2 ^ 64 - (b - a)" .
  then show "disj (maj + of_nat a) n (maj + of_nat b) k" "disj (maj + of_nat b) k (maj + of_nat a) n"
    unfolding disj_def 1 2 using assms by auto
qed

lemma spaced_disj:
  assumes "spaced 40 (us @ ws) hi" "hi < 2 ^ 32" "u \<in> set us" "w \<in> set ws"
  shows "disj (bptr maj u) 40 (bptr maj w) 40" "disj (bptr maj w) 40 (bptr maj u) 40"
proof -
  have "fst u + 40 \<le> fst w" "fst w + 40 \<le> 2 ^ 63"
    using spaced_before [OF assms(1,3,4)] spaced_bounds [OF assms(1), of w] assms(2,4) by auto
  then show "disj (bptr maj u) 40 (bptr maj w) 40" "disj (bptr maj w) 40 (bptr maj u) 40"
    unfolding bptr_def by (intro at_disj; simp)+
qed

lemma spaced_disj_maj:
  assumes "spaced 40 bs hi" "hi < 2 ^ 32" "b \<in> set bs"
  shows "disj maj 40 (bptr maj b) 40" "disj (bptr maj b) 40 maj 40"
proof -
  have "0 + 40 \<le> fst b" "fst b + 40 \<le> 2 ^ 63"
    using spaced_bounds [OF assms(1,3)] assms(2) by auto
  from at_disj [OF this, of maj]
  show "disj maj 40 (bptr maj b) 40" "disj (bptr maj b) 40 maj 40" by (simp_all add: bptr_def)
qed

text \<open>A byte of an allocation is in no header.\<close>

lemma spaced_disj_byte:
  assumes sp: "spaced 40 (as @ x # cs) hi" and hi: "hi < 2 ^ 32" and j: "j < snd x"
  shows "disj maj 40 (bptr maj x + 40 + of_nat j) 1"
    "b \<in> set (as @ x # cs) \<Longrightarrow> disj (bptr maj b) 40 (bptr maj x + 40 + of_nat j) 1"
proof -
  have q: "bptr maj x + 40 + of_nat j = maj + of_nat (fst x + 40 + j)" by (simp add: bptr_def)
  have x: "40 \<le> fst x" "fst x + 40 + snd x \<le> hi" using spaced_bounds [OF sp, of x] by auto
  show "disj maj 40 (bptr maj x + 40 + of_nat j) 1"
    using at_disj(1) [of 0 40 "fst x + 40 + j" 1 maj] x hi j unfolding q by simp
  assume "b \<in> set (as @ x # cs)"
  then consider "b \<in> set as" | "b = x" | "b \<in> set cs" by auto
  then show "disj (bptr maj b) 40 (bptr maj x + 40 + of_nat j) 1"
  proof cases
    case 1
    then have "fst b + 40 \<le> fst x + 40 + j" using spaced_before [OF sp, of b x] by simp
    then show ?thesis using x hi j unfolding q unfolding bptr_def by (intro at_disj(1)) auto
  next
    case 2
    then show ?thesis using x hi j unfolding q unfolding bptr_def by (intro at_disj(1)) auto
  next
    case 3
    then have "fst x + 40 + snd x \<le> fst b" "fst b + 40 \<le> hi"
      using spaced_before [of 40 "as @ [x]" cs hi x b] spaced_bounds [OF sp, of b] sp by auto
    then show ?thesis using hi j unfolding q unfolding bptr_def by (intro at_disj(2)) auto
  qed
qed

section \<open>Linking in and taking out\<close>

lemma block_insert:
  assumes blk: "block m maj hi (as @ cs)"
    and gap: "ends 40 as \<le> off" "off + 40 + sz \<le> starts cs hi"
    and maj: "maj_size m' maj = maj_size m maj"
      "maj_first m' maj = first_ptr maj (as @ (off, sz) # cs) 0"
      "unat (maj_usage m' maj) = unat (maj_usage m maj) + 40 + sz"
    and new: "header m' maj (last_ptr maj 0 as) (off, sz) (first_ptr maj cs 0)"
    and body: "\<And>b. b \<in> set (as @ cs) \<Longrightarrow> same_body m m' (bptr maj b)"
    and before: "\<And>b. b \<in> set as \<Longrightarrow> min_prev m' (bptr maj b) = min_prev m (bptr maj b)"
      "\<And>b. b \<in> set (butlast as) \<Longrightarrow> min_next m' (bptr maj b) = min_next m (bptr maj b)"
      "as \<noteq> [] \<Longrightarrow> min_next m' (bptr maj (last as)) = bptr maj (off, sz)"
    and after: "\<And>b. b \<in> set cs \<Longrightarrow> min_next m' (bptr maj b) = min_next m (bptr maj b)"
      "\<And>b. b \<in> set (tl cs) \<Longrightarrow> min_prev m' (bptr maj b) = min_prev m (bptr maj b)"
      "cs \<noteq> [] \<Longrightarrow> min_prev m' (bptr maj (hd cs)) = bptr maj (off, sz)"
  shows "block m' maj hi (as @ (off, sz) # cs)"
proof -
  have l: "linked m maj 0 as (first_ptr maj cs 0)" "linked m maj (last_ptr maj 0 as) cs 0"
    using blk by (simp_all add: block_def linked_append)
  have "linked m' maj 0 as (bptr maj (off, sz))"
    using l(1) body before by (intro linked_relink_next [OF l(1)]) auto
  moreover have "linked m' maj (bptr maj (off, sz)) cs 0"
    using l(2) body after by (intro linked_relink_prev [OF l(2)]) auto
  ultimately have "linked m' maj 0 (as @ (off, sz) # cs) 0"
    using new by (simp add: linked_append first_ptr_def)
  then show ?thesis
    using blk maj gap spaced_insert [of 40 as cs hi off sz]
    by (simp add: block_def used_insert)
qed

lemma block_remove:
  assumes blk: "block m maj hi (as @ x # cs)"
    and maj: "maj_size m' maj = maj_size m maj" "maj_first m' maj = first_ptr maj (as @ cs) 0"
      "unat (maj_usage m' maj) = unat (maj_usage m maj) - (40 + snd x)"
    and body: "\<And>b. b \<in> set (as @ cs) \<Longrightarrow> same_body m m' (bptr maj b)"
    and before: "\<And>b. b \<in> set as \<Longrightarrow> min_prev m' (bptr maj b) = min_prev m (bptr maj b)"
      "\<And>b. b \<in> set (butlast as) \<Longrightarrow> min_next m' (bptr maj b) = min_next m (bptr maj b)"
      "as \<noteq> [] \<Longrightarrow> min_next m' (bptr maj (last as)) = first_ptr maj cs 0"
    and after: "\<And>b. b \<in> set cs \<Longrightarrow> min_next m' (bptr maj b) = min_next m (bptr maj b)"
      "\<And>b. b \<in> set (tl cs) \<Longrightarrow> min_prev m' (bptr maj b) = min_prev m (bptr maj b)"
      "cs \<noteq> [] \<Longrightarrow> min_prev m' (bptr maj (hd cs)) = last_ptr maj 0 as"
  shows "block m' maj hi (as @ cs)"
proof -
  have l: "linked m maj 0 as (bptr maj x)" "linked m maj (bptr maj x) cs 0"
    using blk by (simp_all add: block_def linked_append first_ptr_def)
  have "linked m' maj 0 as (first_ptr maj cs 0)"
    using l(1) body before by (intro linked_relink_next [OF l(1)]) auto
  moreover have "linked m' maj (last_ptr maj 0 as) cs 0"
    using l(2) body after by (intro linked_relink_prev [OF l(2)]) auto
  ultimately have "linked m' maj 0 (as @ cs) 0" by (simp add: linked_append)
  then show ?thesis
    using blk maj spaced_remove [of 40 as x cs hi]
    by (simp add: block_def used_insert)
qed

end
