(* ===== verification/HeapAlloc.thy ===== *)
theory HeapAlloc
  imports HeapSpec
begin

text \<open>
  Each of the allocator's four ways to place an allocation in a block keeps the block
  well-formed, adds exactly one allocation to its list, and returns a pointer whose bytes lie
  inside it.
\<close>

section \<open>Pointers handed out\<close>

text \<open>
  The pointer \<open>p\<close> serves a request of \<open>n\<close> bytes from the allocation \<open>x\<close>: it is aligned to
  sixteen, its \<open>n\<close> bytes lie inside the allocation, and \<open>UNALIGN\<close> finds the allocation back.
\<close>

definition serves :: "mem \<Rightarrow> u64 \<Rightarrow> alloc \<Rightarrow> nat \<Rightarrow> u64 \<Rightarrow> bool" where
  "serves m maj x n p \<longleftrightarrow>
     (\<exists>k. 16 \<le> k \<and> k \<le> 31 \<and> p = bptr maj x + 40 + of_nat k \<and> k + n \<le> snd x) \<and>
     p AND 15 = 0 \<and> UNALIGN p m = bptr maj x + 40"

text \<open>
  The bytes of the other allocations and of the rest of memory are untouched, and the block
  stays where it is among the blocks.
\<close>

definition kept :: "mem \<Rightarrow> mem \<Rightarrow> u64 \<Rightarrow> nat \<Rightarrow> alloc list \<Rightarrow> bool" where
  "kept m m' maj hi bs \<longleftrightarrow>
     (\<forall>b \<in> set bs. \<forall>j < snd b. m' (bptr maj b + 40 + of_nat j) = m (bptr maj b + 40 + of_nat j)) \<and>
     (\<forall>x. hi \<le> unat (x - maj) \<longrightarrow> m' x = m x) \<and>
     maj_next m' maj = maj_next m maj \<and> maj_prev m' maj = maj_prev m maj \<and>
     maj_pages m' maj = maj_pages m maj"

lemma outside_disj: "disj p 40 x 1 \<Longrightarrow> outside p x"
  by (simp add: outside_def disj_def)

lemma outside_block:
  assumes "spaced 40 bs hi" "hi < 2 ^ 32" "b \<in> set bs" "hi \<le> unat (x - maj)"
  shows "outside (bptr maj b) x"
proof -
  have b: "fst b + 40 \<le> hi" using spaced_bounds [OF assms(1,3)] by simp
  define d where "d = x - maj"
  have "x - bptr maj b = d - of_nat (fst b)" by (simp add: bptr_def d_def)
  moreover have "unat (d - of_nat (fst b)) = unat d - fst b"
    using b assms(2,4) by (subst unat_sub) (simp_all add: word_le_nat_alt unat_of_nat_small d_def)
  ultimately have "unat (x - bptr maj b) = unat (x - maj) - fst b" by (simp only: d_def)
  then show ?thesis using b assms(4) by (simp only: outside_def)
qed

lemma payload_byte:
  assumes sp: "spaced 40 bs hi" and hi: "hi < 2 ^ 32" and b: "b \<in> set bs" and j: "j < snd b"
  shows "outside maj (bptr maj b + 40 + of_nat j)"
    "c \<in> set bs \<Longrightarrow> outside (bptr maj c) (bptr maj b + 40 + of_nat j)"
    "unat (bptr maj b + 40 + of_nat j - maj) = fst b + 40 + j"
proof -
  obtain us ws where bs: "bs = us @ b # ws" using split_list [OF b] by blast
  show "outside maj (bptr maj b + 40 + of_nat j)"
    by (rule outside_disj, rule spaced_disj_byte(1) [OF sp [unfolded bs] hi j])
  show "outside (bptr maj c) (bptr maj b + 40 + of_nat j)" if "c \<in> set bs"
    by (rule outside_disj, rule spaced_disj_byte(2) [OF sp [unfolded bs] hi j that [unfolded bs]])
  have "bptr maj b + 40 + of_nat j - maj = of_nat (fst b + 40 + j)" by (simp add: bptr_def)
  moreover have "fst b + 40 + j < 2 ^ 64" using spaced_bounds [OF sp b] hi j by simp
  ultimately show "unat (bptr maj b + 40 + of_nat j - maj) = fst b + 40 + j"
    by (simp only: unat_of_nat_small)
qed

lemma kept_insert:
  assumes sp: "spaced 40 (as @ x # cs) hi" and hi: "hi < 2 ^ 32" and j: "j < snd x"
    and same: "\<And>y. \<lbrakk>outside maj y; \<forall>b \<in> set (as @ x # cs). outside (bptr maj b) y;
       y \<noteq> bptr maj x + 40 + of_nat j\<rbrakk> \<Longrightarrow> m' y = m y"
    and links: "maj_next m' maj = maj_next m maj" "maj_prev m' maj = maj_prev m maj"
      "maj_pages m' maj = maj_pages m maj"
  shows "kept m m' maj hi (as @ cs)"
proof -
  have q: "unat (bptr maj x + 40 + of_nat j - maj) = fst x + 40 + j"
    using payload_byte(3) [OF sp hi _ j] by simp
  have "m' (bptr maj b + 40 + of_nat i) = m (bptr maj b + 40 + of_nat i)"
    if b: "b \<in> set (as @ cs)" "i < snd b" for b i
  proof (rule same)
    have b': "b \<in> set (as @ x # cs)" using b by auto
    show "outside maj (bptr maj b + 40 + of_nat i)"
      "\<forall>c \<in> set (as @ x # cs). outside (bptr maj c) (bptr maj b + 40 + of_nat i)"
      using payload_byte(1,2) [OF sp hi b' b(2)] by blast+
    have "fst b + 40 + i \<noteq> fst x + 40 + j"
    proof (cases "b \<in> set as")
      case True
      with spaced_before [OF sp True, of x] b(2) show ?thesis by simp
    next
      case False
      then have "fst x + 40 + snd x \<le> fst b"
        using spaced_before [of 40 "as @ [x]" cs hi x b] sp b(1) by simp
      with j show ?thesis by simp
    qed
    then show "bptr maj b + 40 + of_nat i \<noteq> bptr maj x + 40 + of_nat j"
      using q payload_byte(3) [OF sp hi b' b(2), of maj] by metis
  qed
  moreover have "m' y = m y" if y: "hi \<le> unat (y - maj)" for y
  proof (rule same)
    show "outside maj y" using spaced_le [OF sp] y by (simp add: outside_def)
    show "\<forall>b \<in> set (as @ x # cs). outside (bptr maj b) y" using outside_block [OF sp hi _ y] by blast
    have "fst x + 40 + snd x \<le> hi" using spaced_bounds [OF sp, of x] by simp
    then have "fst x + 40 + j < hi" using j by simp
    then show "y \<noteq> bptr maj x + 40 + of_nat j" using q y by auto
  qed
  ultimately show ?thesis unfolding kept_def using links by blast
qed

text \<open>What the edits of one placement leave: the pieces every case of the allocator shows.\<close>

lemma claim_spec:
  "\<exists>k. 16 \<le> k \<and> k \<le> 31 \<and> (X + 40 + of_nat k) AND 15 = 0 \<and>
     (\<forall>s :: 'a heap_state_scheme. claim X sz s = (X + 40 + of_nat k,
        s\<lparr>mem := st8 (X + 40 + of_nat (k - 16)) (of_nat k) (mem s), l_inuse := l_inuse s + sz\<rparr>)) \<and>
     (\<forall>m. m (X + 40 + of_nat (k - 16)) = of_nat k \<longrightarrow> UNALIGN (X + 40 + of_nat k) m = X + 40)"
proof -
  obtain k where k: "16 \<le> k" "k \<le> 31"
    "\<And>s :: 'a heap_state_scheme. ALIGN (X + 40) s =
       (X + 40 + of_nat k, upd (st8 (X + 40 + of_nat (k - 16)) (of_nat k)) s)"
    "(X + 40 + of_nat k) AND 15 = 0"
    "\<And>m. m (X + 40 + of_nat (k - 16)) = of_nat k \<Longrightarrow> UNALIGN (X + 40 + of_nat k) m = X + 40"
    by (rule ALIGN_spec [of "X + 40"]) blast
  have "claim X sz s = (X + 40 + of_nat k,
      s\<lparr>mem := st8 (X + 40 + of_nat (k - 16)) (of_nat k) (mem s), l_inuse := l_inuse s + sz\<rparr>)"
    for s :: "'a heap_state_scheme"
    unfolding claim_def sizeof_minor_def k(3) by simp
  with k show ?thesis by blast
qed

lemma add_usage_fields [hdr_simps]:
  "maj_size (add_usage p sz m) p = maj_size m p" "maj_first (add_usage p sz m) p = maj_first m p"
  "maj_next (add_usage p sz m) p = maj_next m p" "maj_prev (add_usage p sz m) p = maj_prev m p"
  "maj_pages (add_usage p sz m) p = maj_pages m p"
  "maj_usage (add_usage p sz m) p = ucast (ucast (maj_usage m p) + (sz + 40) :: u64)"
  by (simp_all add: add_usage_def hdr_simps sizeof_minor_def)

lemma add_usage_far [hdr_simps]:
  assumes "disj q 40 p 40"
  shows "min_prev (add_usage p sz m) q = min_prev m q" "min_next (add_usage p sz m) q = min_next m q"
    "min_block (add_usage p sz m) q = min_block m q" "min_magic (add_usage p sz m) q = min_magic m q"
    "min_size (add_usage p sz m) q = min_size m q"
  using assms by (simp_all add: add_usage_def hdr_simps)

lemma add_usage_outside [hdr_simps]: "outside p x \<Longrightarrow> add_usage p sz m x = m x"
  by (simp add: add_usage_def hdr_simps)

lemma ucast_small: "unat w < 2 ^ 32 \<Longrightarrow> unat (ucast (w :: u64) :: u32) = unat w"
  by (simp add: unsigned_ucast_eq take_bit_nat_eq_self)

lemma usage_sum:
  assumes "unat u + (unat sz + 40) < 2 ^ 32"
  shows "unat (ucast (ucast (u :: u32) + (sz + 40) :: u64) :: u32) = unat u + unat sz + 40"
proof -
  have "unat (sz + 40) = unat sz + 40" using assms by (simp add: unat_word_ariths)
  moreover have "unat (ucast u :: u64) = unat u"
    using assms by (simp add: unsigned_ucast_eq take_bit_nat_eq_self)
  ultimately have "unat (ucast u + (sz + 40) :: u64) = unat u + (unat sz + 40)"
    using assms by (subst unat_add_small) simp_all
  then show ?thesis using assms by (subst ucast_small) simp_all
qed

section \<open>Placing one allocation\<close>

lemma block_st8:
  assumes "block m maj hi bs" "x \<in> set bs" "j < snd x"
  shows "block (st8 (bptr maj x + 40 + of_nat j) v m) maj hi bs"
proof -
  let ?q = "bptr maj x + 40 + of_nat j"
  have sp: "spaced 40 bs hi" and hi: "hi < 2 ^ 32" using assms(1) by (simp_all add: block_def)
  obtain us ws where bs: "bs = us @ x # ws" using split_list [OF assms(2)] by blast
  have Q: "disj maj 40 ?q (Suc 0)" "\<And>b. b \<in> set bs \<Longrightarrow> disj (bptr maj b) 40 ?q (Suc 0)"
    using spaced_disj_byte [where as = us and x = x and cs = ws and maj = maj] sp hi assms(3)
    by (simp_all add: bs)
  have "linked (st8 ?q v m) maj 0 bs 0"
    using assms(1) by (intro linked_same [of m maj 0 bs 0 "st8 ?q v m"])
      (simp_all add: block_def same_body_def hdr_simps Q)
  then show ?thesis using assms(1) by (simp add: block_def hdr_simps Q)
qed

text \<open>
  The edit \<open>M\<close> links the header \<open>x\<close> in between \<open>as\<close> and \<open>cs\<close> and adds to the used size; then
  \<open>claim\<close> hands out a pointer into \<open>x\<close>.
\<close>

lemma place:
  fixes s :: "'a heap_state_scheme"
  assumes x_def: "x = (off, unat sz)" and blk: "block (mem s) maj hi (as @ cs)"
    and gap: "ends 40 as \<le> off" "off + 40 + unat sz \<le> starts cs hi" and sz: "32 \<le> unat sz"
    and maj: "maj_size (M (mem s)) maj = maj_size (mem s) maj"
      "maj_first (M (mem s)) maj = first_ptr maj (as @ x # cs) 0"
      "maj_usage (M (mem s)) maj = ucast (ucast (maj_usage (mem s) maj) + (sz + 40) :: u64)"
      "maj_next (M (mem s)) maj = maj_next (mem s) maj" "maj_prev (M (mem s)) maj = maj_prev (mem s) maj"
      "maj_pages (M (mem s)) maj = maj_pages (mem s) maj"
    and new: "min_prev (M (mem s)) (bptr maj x) = last_ptr maj 0 as"
      "min_next (M (mem s)) (bptr maj x) = first_ptr maj cs 0" "min_block (M (mem s)) (bptr maj x) = maj"
      "min_magic (M (mem s)) (bptr maj x) = LIBALLOC_MAGIC" "min_size (M (mem s)) (bptr maj x) = ucast sz"
    and body: "\<And>b. b \<in> set (as @ cs) \<Longrightarrow> same_body (mem s) (M (mem s)) (bptr maj b)"
    and before: "\<And>b. b \<in> set as \<Longrightarrow> min_prev (M (mem s)) (bptr maj b) = min_prev (mem s) (bptr maj b)"
      "\<And>b. b \<in> set (butlast as) \<Longrightarrow> min_next (M (mem s)) (bptr maj b) = min_next (mem s) (bptr maj b)"
      "as \<noteq> [] \<Longrightarrow> min_next (M (mem s)) (bptr maj (last as)) = bptr maj x"
    and after: "\<And>b. b \<in> set cs \<Longrightarrow> min_next (M (mem s)) (bptr maj b) = min_next (mem s) (bptr maj b)"
      "\<And>b. b \<in> set (tl cs) \<Longrightarrow> min_prev (M (mem s)) (bptr maj b) = min_prev (mem s) (bptr maj b)"
      "cs \<noteq> [] \<Longrightarrow> min_prev (M (mem s)) (bptr maj (hd cs)) = bptr maj x"
    and frame: "\<And>y. outside maj y \<Longrightarrow> \<forall>b \<in> set (as @ x # cs). outside (bptr maj b) y \<Longrightarrow> M (mem s) y = mem s y"
  shows "\<exists>p s'. claim (bptr maj x) sz (upd M s) = (p, s') \<and> block (mem s') maj hi (as @ x # cs) \<and>
    serves (mem s') maj x (unat sz - 32) p \<and> kept (mem s) (mem s') maj hi (as @ cs) \<and>
    s' = s\<lparr>mem := mem s', l_inuse := l_inuse s + sz\<rparr>"
proof -
  let ?X = "bptr maj x" and ?m = "M (mem s)"
  have hi: "hi < 2 ^ 32" and sp0: "spaced 40 (as @ cs) hi" using blk by (simp_all add: block_def)
  have sp: "spaced 40 (as @ x # cs) hi"
    unfolding x_def using sp0 gap by (rule spaced_insert)
  have "unat sz < 2 ^ 32" using spaced_bounds [OF sp, of x] hi by (simp add: x_def)
  then have szx: "unat (ucast sz :: u32) = snd x" by (simp add: x_def ucast_small)
  have "unat (maj_usage (mem s) maj) + (unat sz + 40) < 2 ^ 32"
    using used_le [OF sp] blk hi by (simp add: block_def used_def x_def)
  note usage = usage_sum [OF this]
  have b1: "block ?m maj hi (as @ x # cs)"
    unfolding x_def
  proof (rule block_insert [OF blk gap])
    show "header ?m maj (last_ptr maj 0 as) (off, unat sz) (first_ptr maj cs 0)"
      unfolding x_def [symmetric] header_def using new szx by simp
  qed (use maj usage body before after in \<open>simp_all add: x_def\<close>)
  obtain k where k: "16 \<le> k" "k \<le> 31" "(?X + 40 + of_nat k) AND 15 = 0"
    "\<And>s :: 'a heap_state_scheme. claim ?X sz s = (?X + 40 + of_nat k,
        s\<lparr>mem := st8 (?X + 40 + of_nat (k - 16)) (of_nat k) (mem s), l_inuse := l_inuse s + sz\<rparr>)"
    "\<And>m. m (?X + 40 + of_nat (k - 16)) = of_nat k \<Longrightarrow> UNALIGN (?X + 40 + of_nat k) m = ?X + 40"
    using claim_spec [of ?X sz] by blast
  let ?m' = "st8 (?X + 40 + of_nat (k - 16)) (of_nat k) ?m"
  have j: "k - 16 < snd x" using k(1,2) sz by (simp add: x_def)
  have "block ?m' maj hi (as @ x # cs)" using b1 j by (intro block_st8) auto
  moreover have "serves ?m' maj x (unat sz - 32) (?X + 40 + of_nat k)"
    using k(1-3) k(5) [of ?m'] sz
    by (auto simp: serves_def st8_apply x_def intro!: exI [of _ k])
  moreover have "kept (mem s) ?m' maj hi (as @ cs)"
  proof (rule kept_insert [OF sp hi j])
    have "disj maj 40 (?X + 40 + of_nat (k - 16)) (Suc 0)"
      using spaced_disj_byte(1) [OF sp hi j, of maj] by simp
    then show "maj_next ?m' maj = maj_next (mem s) maj" "maj_prev ?m' maj = maj_prev (mem s) maj"
      "maj_pages ?m' maj = maj_pages (mem s) maj"
      using maj(4-6) by (simp_all add: hdr_simps)
  qed (simp add: st8_apply frame)
  ultimately show ?thesis by (simp add: k(4))
qed

text \<open>Headers in a block with a new one: all pairwise apart, and apart from the block's own.\<close>

lemma apart:
  assumes "spaced 40 bs hi" "hi < 2 ^ 32"
  shows "b \<in> set bs \<Longrightarrow> disj maj 40 (bptr maj b) 40" "b \<in> set bs \<Longrightarrow> disj (bptr maj b) 40 maj 40"
    "b \<in> set bs \<Longrightarrow> c \<in> set bs \<Longrightarrow> b \<noteq> c \<Longrightarrow> disj (bptr maj b) 40 (bptr maj c) 40"
proof -
  show "b \<in> set bs \<Longrightarrow> disj maj 40 (bptr maj b) 40" "b \<in> set bs \<Longrightarrow> disj (bptr maj b) 40 maj 40"
    using spaced_disj_maj [OF assms] by blast+
  assume bc: "b \<in> set bs" "c \<in> set bs" "b \<noteq> c"
  obtain us ws where bs: "bs = us @ b # ws" using split_list [OF bc(1)] by blast
  then have "c \<in> set us \<or> c \<in> set ws" using bc by auto
  then show "disj (bptr maj b) 40 (bptr maj c) 40"
    using spaced_disj [of us "b # ws" hi c b maj] spaced_disj [of "us @ [b]" ws hi b c maj] assms
    by (auto simp: bs)
qed

lemma spaced_distinct: "spaced lo bs hi \<Longrightarrow> distinct bs"
proof (induction bs arbitrary: lo)
  case (Cons b bs)
  then show ?case using spaced_bounds [of "fst b + 40 + snd b" bs hi b] by auto
qed simp

section \<open>The four cases\<close>

lemma case42_block:
  assumes blk: "block (mem s) maj hi (as @ a # c # cs)"
    and gap: "fst a + 40 + snd a + 40 + unat sz \<le> fst c" and sz: "32 \<le> unat sz"
  shows "\<exists>p s'. case42 sz req maj (bptr maj a) s = (p, s') \<and>
    block (mem s') maj hi ((as @ [a]) @ (fst a + 40 + snd a, unat sz) # c # cs) \<and>
    serves (mem s') maj (fst a + 40 + snd a, unat sz) (unat sz - 32) p \<and>
    kept (mem s) (mem s') maj hi ((as @ [a]) @ c # cs) \<and>
    s' = s\<lparr>mem := mem s', l_inuse := l_inuse s + sz\<rparr>"
proof -
  define x where "x = (fst a + 40 + snd a, unat sz)"
  let ?A = "bptr maj a" and ?X = "bptr maj x" and ?C = "bptr maj c"
  note blk' = blk [unfolded block_def]
  have hi: "hi < 2 ^ 32" and sp0: "spaced 40 ((as @ [a]) @ c # cs) hi" using blk' by auto
  have gaps: "ends 40 (as @ [a]) \<le> fst a + 40 + snd a" "fst a + 40 + snd a + 40 + unat sz \<le> starts (c # cs) hi"
    using gap by (simp_all add: ends_def starts_def)
  have sp: "spaced 40 (as @ a # x # c # cs) hi"
    using spaced_insert [OF sp0 gaps] by (simp add: x_def)
  have links: "min_next (mem s) ?A = ?C" "(ucast (min_size (mem s) ?A) :: u64) = of_nat (snd a)"
    using blk' by (auto simp: linked_append header_def first_ptr_def) (metis of_nat_unat)
  then have new: "?A + 40 + ucast (min_size (mem s) ?A) = ?X" by (simp add: x_def bptr_def)
  note D = apart [OF sp hi, where maj = maj] and N = spaced_distinct [OF sp]
  have neq: "b \<noteq> x \<and> b \<noteq> a \<and> b \<noteq> c" if "b \<in> set as \<or> b \<in> set cs" for b
    using that N by auto
  have neq': "a \<noteq> x" "x \<noteq> a" "c \<noteq> x" "x \<noteq> c" "a \<noteq> c" "c \<noteq> a" using N by auto
  let ?M = "add_usage maj sz \<circ> set_min_next ?A ?X \<circ> set_min_prev ?C ?X \<circ> set_min_block ?X maj \<circ>
    set_min_req_size ?X (ucast req) \<circ> set_min_size ?X (ucast sz) \<circ> set_min_prev ?X ?A \<circ>
    set_min_next ?X ?C \<circ> set_min_magic ?X LIBALLOC_MAGIC"
  have body: "same_body (mem s) (?M (mem s)) (bptr maj b)" if "b \<in> set ((as @ [a]) @ c # cs)" for b
  proof -
    have "b \<in> set as \<or> b \<in> set cs \<or> b = a \<or> b = c" using that by auto
    then show ?thesis by (elim disjE) (simp_all add: same_body_def hdr_simps D neq neq')
  qed
  have "case42 sz req maj ?A s = claim ?X sz (upd ?M s)"
    by (simp add: case42_def Let_def sizeof_minor_def new links(1))
  moreover have "\<exists>p s'. claim ?X sz (upd ?M s) = (p, s') \<and> block (mem s') maj hi ((as @ [a]) @ x # c # cs) \<and>
    serves (mem s') maj x (unat sz - 32) p \<and> kept (mem s) (mem s') maj hi ((as @ [a]) @ c # cs) \<and>
    s' = s\<lparr>mem := mem s', l_inuse := l_inuse s + sz\<rparr>"
  proof (rule place [OF x_def _ gaps sz])
    show "block (mem s) maj hi ((as @ [a]) @ c # cs)" using blk by simp
    show "maj_first (?M (mem s)) maj = first_ptr maj ((as @ [a]) @ x # c # cs) 0"
      using blk' by (cases as) (simp_all add: hdr_simps D first_ptr_def)
    show "min_prev (?M (mem s)) (bptr maj b) = min_prev (mem s) (bptr maj b)" if "b \<in> set (as @ [a])" for b
      using that by (cases "b = a") (simp_all add: hdr_simps D neq neq')
    show "min_next (?M (mem s)) (bptr maj b) = min_next (mem s) (bptr maj b)" if "b \<in> set (c # cs)" for b
      using that by (cases "b = c") (simp_all add: hdr_simps D neq neq')
    show "min_next (?M (mem s)) (bptr maj b) = min_next (mem s) (bptr maj b)" if "b \<in> set (butlast (as @ [a]))" for b
      using that by (simp add: hdr_simps D neq neq')
    show "min_prev (?M (mem s)) (bptr maj b) = min_prev (mem s) (bptr maj b)" if "b \<in> set (tl (c # cs))" for b
      using that by (simp add: hdr_simps D neq neq')
  qed (use body in \<open>simp_all add: hdr_simps D neq neq' last_ptr_def first_ptr_def\<close>)
  ultimately show ?thesis by (simp add: x_def)
qed

lemma case41_block:
  assumes blk: "block (mem s) maj hi (as @ [a])"
    and gap: "fst a + 40 + snd a + 40 + unat sz \<le> hi" and sz: "32 \<le> unat sz"
  shows "\<exists>p s'. case41 sz req maj (bptr maj a) s = (p, s') \<and>
    block (mem s') maj hi ((as @ [a]) @ (fst a + 40 + snd a, unat sz) # []) \<and>
    serves (mem s') maj (fst a + 40 + snd a, unat sz) (unat sz - 32) p \<and>
    kept (mem s) (mem s') maj hi ((as @ [a]) @ []) \<and>
    s' = s\<lparr>mem := mem s', l_inuse := l_inuse s + sz\<rparr>"
proof -
  define x where "x = (fst a + 40 + snd a, unat sz)"
  let ?A = "bptr maj a" and ?X = "bptr maj x"
  note blk' = blk [unfolded block_def]
  have hi: "hi < 2 ^ 32" and sp0: "spaced 40 ((as @ [a]) @ []) hi" using blk' by auto
  have gaps: "ends 40 (as @ [a]) \<le> fst a + 40 + snd a" "fst a + 40 + snd a + 40 + unat sz \<le> starts [] hi"
    using gap by (simp_all add: ends_def starts_def)
  have sp: "spaced 40 (as @ a # x # []) hi"
    using spaced_insert [OF sp0 gaps] by (simp add: x_def)
  have "(ucast (min_size (mem s) ?A) :: u64) = of_nat (snd a)"
    using blk' by (auto simp: linked_append header_def first_ptr_def) (metis of_nat_unat)
  then have new: "?A + 40 + ucast (min_size (mem s) ?A) = ?X" by (simp add: x_def bptr_def)
  note D = apart [OF sp hi, where maj = maj] and N = spaced_distinct [OF sp]
  have neq: "b \<noteq> x \<and> b \<noteq> a" if "b \<in> set as" for b
    using that N by auto
  have neq': "a \<noteq> x" "x \<noteq> a" using N by auto
  let ?M = "add_usage maj sz \<circ> set_min_req_size ?X (ucast req) \<circ> set_min_size ?X (ucast sz) \<circ>
    set_min_block ?X maj \<circ> set_min_magic ?X LIBALLOC_MAGIC \<circ> set_min_next ?X 0 \<circ>
    set_min_prev ?X ?A \<circ> set_min_next ?A ?X"
  have body: "same_body (mem s) (?M (mem s)) (bptr maj b)" if "b \<in> set ((as @ [a]) @ [])" for b
  proof -
    have "b \<in> set as \<or> b = a" using that by auto
    then show ?thesis by (elim disjE) (simp_all add: same_body_def hdr_simps D neq neq')
  qed
  have "case41 sz req maj ?A s = claim ?X sz (upd ?M s)"
    by (simp add: case41_def Let_def sizeof_minor_def new)
  moreover have "\<exists>p s'. claim ?X sz (upd ?M s) = (p, s') \<and> block (mem s') maj hi ((as @ [a]) @ x # []) \<and>
    serves (mem s') maj x (unat sz - 32) p \<and> kept (mem s) (mem s') maj hi ((as @ [a]) @ []) \<and>
    s' = s\<lparr>mem := mem s', l_inuse := l_inuse s + sz\<rparr>"
  proof (rule place [OF x_def _ gaps sz])
    show "block (mem s) maj hi ((as @ [a]) @ [])" using blk by simp
    show "maj_first (?M (mem s)) maj = first_ptr maj ((as @ [a]) @ x # []) 0"
      using blk' by (cases as) (simp_all add: hdr_simps D first_ptr_def)
    show "min_prev (?M (mem s)) (bptr maj b) = min_prev (mem s) (bptr maj b)" if "b \<in> set (as @ [a])" for b
      using that by (cases "b = a") (simp_all add: hdr_simps D neq neq')
    show "min_next (?M (mem s)) (bptr maj b) = min_next (mem s) (bptr maj b)" if "b \<in> set (butlast (as @ [a]))" for b
      using that by (simp add: hdr_simps D neq neq')
  qed (use body in \<open>simp_all add: hdr_simps D neq neq' last_ptr_def first_ptr_def\<close>)
  ultimately show ?thesis by (simp add: x_def)
qed

lemma case3_block:
  assumes blk: "block (mem s) maj hi (c # cs)"
    and gap: "80 + unat sz \<le> fst c" and sz: "32 \<le> unat sz"
  shows "\<exists>p s'. case3 sz req maj s = (p, s') \<and>
    block (mem s') maj hi ([] @ (40, unat sz) # c # cs) \<and>
    serves (mem s') maj (40, unat sz) (unat sz - 32) p \<and>
    kept (mem s) (mem s') maj hi ([] @ c # cs) \<and>
    s' = s\<lparr>mem := mem s', l_inuse := l_inuse s + sz\<rparr>"
proof -
  define x where "x = (40 :: nat, unat sz)"
  let ?X = "bptr maj x" and ?C = "bptr maj c"
  note blk' = blk [unfolded block_def]
  have hi: "hi < 2 ^ 32" and sp0: "spaced 40 ([] @ c # cs) hi" using blk' by auto
  have gaps: "ends 40 [] \<le> 40" "40 + 40 + unat sz \<le> starts (c # cs) hi"
    using gap by (simp_all add: ends_def starts_def)
  have sp: "spaced 40 (x # c # cs) hi"
    using spaced_insert [OF sp0 gaps] by (simp add: x_def)
  have old: "maj_first (mem s) maj = ?C" using blk' by (simp add: first_ptr_def)
  have new: "maj + 40 = ?X" by (simp add: x_def bptr_def)
  note D = apart [OF sp hi, where maj = maj] and N = spaced_distinct [OF sp]
  have neq: "b \<noteq> x \<and> b \<noteq> c" if "b \<in> set cs" for b
    using that N by auto
  have neq': "c \<noteq> x" "x \<noteq> c" using N by auto
  let ?M = "add_usage maj sz \<circ> set_min_req_size ?X (ucast req) \<circ> set_min_size ?X (ucast sz) \<circ>
    set_min_block ?X maj \<circ> set_min_prev ?X 0 \<circ> set_min_magic ?X LIBALLOC_MAGIC \<circ>
    set_maj_first maj ?X \<circ> set_min_next ?X ?C \<circ> set_min_prev ?C ?X"
  have body: "same_body (mem s) (?M (mem s)) (bptr maj b)" if "b \<in> set ([] @ c # cs)" for b
  proof -
    have "b \<in> set cs \<or> b = c" using that by auto
    then show ?thesis by (elim disjE) (simp_all add: same_body_def hdr_simps D neq neq')
  qed
  have "case3 sz req maj s = claim ?X sz (upd ?M s)"
    by (simp add: case3_def Let_def sizeof_major_def new old)
  moreover have "\<exists>p s'. claim ?X sz (upd ?M s) = (p, s') \<and> block (mem s') maj hi ([] @ x # c # cs) \<and>
    serves (mem s') maj x (unat sz - 32) p \<and> kept (mem s) (mem s') maj hi ([] @ c # cs) \<and>
    s' = s\<lparr>mem := mem s', l_inuse := l_inuse s + sz\<rparr>"
  proof (rule place [OF x_def _ gaps sz])
    show "block (mem s) maj hi ([] @ c # cs)" using blk by simp
    show "min_next (?M (mem s)) (bptr maj b) = min_next (mem s) (bptr maj b)" if "b \<in> set (c # cs)" for b
      using that by (cases "b = c") (simp_all add: hdr_simps D neq neq')
    show "min_prev (?M (mem s)) (bptr maj b) = min_prev (mem s) (bptr maj b)" if "b \<in> set (tl (c # cs))" for b
      using that by (simp add: hdr_simps D neq neq')
  qed (use body in \<open>simp_all add: hdr_simps D neq neq' last_ptr_def first_ptr_def\<close>)
  ultimately show ?thesis by (simp add: x_def)
qed

lemma case2_block:
  assumes blk: "block (mem s) maj hi []" and gap: "80 + unat sz \<le> hi" and sz: "32 \<le> unat sz"
  shows "\<exists>p s'. case2 sz req maj s = (p, s') \<and>
    block (mem s') maj hi ([] @ (40, unat sz) # []) \<and>
    serves (mem s') maj (40, unat sz) (unat sz - 32) p \<and>
    kept (mem s) (mem s') maj hi ([] @ []) \<and>
    s' = s\<lparr>mem := mem s', l_inuse := l_inuse s + sz\<rparr>"
proof -
  define x where "x = (40 :: nat, unat sz)"
  let ?X = "bptr maj x"
  note blk' = blk [unfolded block_def]
  have hi: "hi < 2 ^ 32" and sp0: "spaced 40 ([] @ []) hi" using blk' by auto
  have gaps: "ends 40 [] \<le> 40" "40 + 40 + unat sz \<le> starts [] hi"
    using gap by (simp_all add: ends_def starts_def)
  have sp: "spaced 40 [x] hi"
    using spaced_insert [OF sp0 gaps] by (simp add: x_def)
  have new: "maj + 40 = ?X" by (simp add: x_def bptr_def)
  note D = apart [OF sp hi, where maj = maj]
  let ?M = "add_usage maj sz \<circ> set_min_req_size ?X (ucast req) \<circ> set_min_size ?X (ucast sz) \<circ>
    set_min_block ?X maj \<circ> set_min_next ?X 0 \<circ> set_min_prev ?X 0 \<circ>
    set_min_magic ?X LIBALLOC_MAGIC \<circ> set_maj_first maj ?X"
  have "case2 sz req maj s = claim ?X sz (upd ?M s)"
    by (simp add: case2_def Let_def sizeof_major_def new)
  moreover have "\<exists>p s'. claim ?X sz (upd ?M s) = (p, s') \<and> block (mem s') maj hi ([] @ x # []) \<and>
    serves (mem s') maj x (unat sz - 32) p \<and> kept (mem s) (mem s') maj hi ([] @ []) \<and>
    s' = s\<lparr>mem := mem s', l_inuse := l_inuse s + sz\<rparr>"
  proof (rule place [OF x_def _ gaps sz])
    show "block (mem s) maj hi ([] @ [])" using blk by simp
  qed (simp_all add: hdr_simps D last_ptr_def first_ptr_def)
  ultimately show ?thesis by (simp add: x_def)
qed

section \<open>Searching a block\<close>

text \<open>There are \<open>n\<close> free bytes in a row before, between or after the allocations.\<close>

primrec has_gap :: "nat \<Rightarrow> alloc list \<Rightarrow> nat \<Rightarrow> nat \<Rightarrow> bool" where
  "has_gap lo [] hi n \<longleftrightarrow> lo + n \<le> hi"
| "has_gap lo (b # bs) hi n \<longleftrightarrow> lo + n \<le> fst b \<or> has_gap (fst b + 40 + snd b) bs hi n"

text \<open>
  The result \<open>p\<close> and the state \<open>s'\<close> of an allocation of \<open>sz\<close> bytes in a block: one allocation
  is added at some place in the list, the pointer serves it, all else is as before.
\<close>

definition allocated ::
  "'a heap_state_scheme \<Rightarrow> u64 \<Rightarrow> nat \<Rightarrow> alloc list \<Rightarrow> u64 \<Rightarrow> u64 \<Rightarrow> 'a heap_state_scheme \<Rightarrow> bool" where
  "allocated s maj hi bs sz p s' \<longleftrightarrow>
     (\<exists>as cs off. bs = as @ cs \<and> block (mem s') maj hi (as @ (off, unat sz) # cs) \<and>
        serves (mem s') maj (off, unat sz) (unat sz - 32) p) \<and>
     kept (mem s) (mem s') maj hi bs \<and> s' = s\<lparr>mem := mem s', l_inuse := l_inuse s + sz\<rparr>"

lemma allocatedI:
  assumes "block (mem s') maj hi (as @ (off, unat sz) # cs) \<and>
    serves (mem s') maj (off, unat sz) (unat sz - 32) p \<and>
    kept (mem s) (mem s') maj hi (as @ cs) \<and> s' = s\<lparr>mem := mem s', l_inuse := l_inuse s + sz\<rparr>"
    "bs = as @ cs"
  shows "allocated s maj hi bs sz p s'"
  using assms unfolding allocated_def by blast

lemma room_eq:
  assumes "unat (size' :: u32) = snd b" "fst b + 40 + snd b \<le> h" "h < 2 ^ 32"
  shows "unat (maj + of_nat h - bptr maj b - 40 - ucast size') = h - (fst b + 40 + snd b)"
proof -
  have "(ucast size' :: u64) = of_nat (snd b)" using assms(1) by (metis of_nat_unat)
  then have "maj + of_nat h - bptr maj b - 40 - ucast size' = of_nat h - of_nat (fst b + 40 + snd b)"
    by (simp add: bptr_def algebra_simps)
  also have "\<dots> = of_nat (h - (fst b + 40 + snd b))" using assms(2) by (simp only: of_nat_diff)
  finally show ?thesis using assms(3) unat_of_nat_small [of "h - (fst b + 40 + snd b)"] by simp
qed

lemma enough:
  assumes "unat (sz :: u64) + 40 < 2 ^ 64"
  shows "sz + sizeof_minor \<le> r \<longleftrightarrow> unat sz + 40 \<le> unat r"
  using assms by (simp add: word_le_nat_alt sizeof_minor_def unat_add_small)

lemma scan_minors_spec:
  assumes "block (mem s) maj hi (as @ b # cs)" "32 \<le> unat sz" "unat sz + 40 < 2 ^ 64"
  shows "if has_gap (fst b + 40 + snd b) cs hi (40 + unat sz)
    then \<exists>p s'. scan_minors sz req maj (bptr maj b) s = Some (Some p, s') \<and>
      allocated s maj hi (as @ b # cs) sz p s'
    else scan_minors sz req maj (bptr maj b) s = Some (None, s)"
  using assms(1)
proof (induction cs arbitrary: as b)
  case Nil
  note blk = Nil [unfolded block_def]
  have b: "fst b + 40 + snd b \<le> hi" "unat (min_size (mem s) (bptr maj b)) = snd b"
    "min_next (mem s) (bptr maj b) = 0" "bptr maj b \<noteq> 0"
  proof -
    have sp: "spaced 40 (as @ [b]) hi" and hi: "unat maj + hi < 2 ^ 64" using blk by auto
    show b1: "fst b + 40 + snd b \<le> hi" using spaced_bounds [OF sp, of b] by simp
    have "unat (bptr maj b) = unat maj + fst b"
      using b1 hi by (simp add: bptr_def unat_add_small unat_of_nat_small)
    moreover have "40 \<le> fst b" using spaced_bounds [OF sp, of b] by simp
    ultimately show "bptr maj b \<noteq> 0" by (metis unat_0 add_is_0 not_numeral_le_zero)
  qed (use blk in \<open>simp_all add: linked_append header_def first_ptr_def\<close>)
  have "ucast (maj_size (mem s) maj) = (of_nat hi :: u64)" using blk by (metis of_nat_unat)
  then have room: "sz + sizeof_minor \<le> room_after (mem s) (bptr maj b) (maj + ucast (maj_size (mem s) maj))
      \<longleftrightarrow> fst b + 40 + snd b + 40 + unat sz \<le> hi"
    using room_eq [OF b(2,1), of maj] blk b(1) enough [OF assms(3)]
    by (simp add: room_after_def sizeof_minor_def) linarith
  show ?case
  proof (cases "fst b + 40 + snd b + 40 + unat sz \<le> hi")
    case True
    from case41_block [OF Nil True assms(2), of req] obtain p s' where r:
      "case41 sz req maj (bptr maj b) s = (p, s')"
      "block (mem s') maj hi ((as @ [b]) @ (fst b + 40 + snd b, unat sz) # []) \<and>
       serves (mem s') maj (fst b + 40 + snd b, unat sz) (unat sz - 32) p \<and>
       kept (mem s) (mem s') maj hi ((as @ [b]) @ []) \<and> s' = s\<lparr>mem := mem s', l_inuse := l_inuse s + sz\<rparr>"
      by blast
    have "scan_minors sz req maj (bptr maj b) s = Some (Some p, s')"
      using True room b(3,4) r(1) by (subst scan_minors.simps) (simp add: apfst_def)
    with allocatedI [OF r(2), of "as @ [b]"] True show ?thesis by auto
  next
    case False
    then have "scan_minors sz req maj (bptr maj b) s = Some (None, s)"
      using room b(3,4) by (subst scan_minors.simps) (simp, subst scan_minors.simps, simp)
    with False show ?thesis by simp
  qed
next
  case (Cons c cs)
  note blk = Cons.prems [unfolded block_def]
  have b: "fst b + 40 + snd b \<le> fst c" "fst c < 2 ^ 32" "unat (min_size (mem s) (bptr maj b)) = snd b"
    "min_next (mem s) (bptr maj b) = bptr maj c" "bptr maj b \<noteq> 0" "bptr maj c \<noteq> 0"
  proof -
    have sp: "spaced 40 (as @ b # c # cs) hi" and hi: "unat maj + hi < 2 ^ 64" "hi < 2 ^ 32"
      using blk by auto
    have bs: "40 \<le> fst b" "fst b + 40 + snd b \<le> hi" "40 \<le> fst c" "fst c + 40 + snd c \<le> hi"
      using spaced_bounds [OF sp, of b] spaced_bounds [OF sp, of c] by simp_all
    then have "unat (bptr maj b) = unat maj + fst b" "unat (bptr maj c) = unat maj + fst c"
      using hi by (simp_all add: bptr_def unat_add_small unat_of_nat_small)
    with bs show "bptr maj b \<noteq> 0" "bptr maj c \<noteq> 0"
      by (metis unat_0 add_is_0 not_numeral_le_zero)+
    show "fst b + 40 + snd b \<le> fst c" using sp by (simp add: spaced_append)
    show "fst c < 2 ^ 32" using bs hi by simp
  qed (use blk in \<open>simp_all add: linked_append header_def first_ptr_def\<close>)
  have room: "sz + sizeof_minor \<le> room_after (mem s) (bptr maj b) (bptr maj c)
      \<longleftrightarrow> fst b + 40 + snd b + 40 + unat sz \<le> fst c"
    using room_eq [OF b(3,1,2), of maj] b(1) enough [OF assms(3)]
    by (simp add: room_after_def sizeof_minor_def bptr_def [of maj c]) linarith
  show ?case
  proof (cases "fst b + 40 + snd b + 40 + unat sz \<le> fst c")
    case True
    from case42_block [OF Cons.prems True assms(2), of req] obtain p s' where r:
      "case42 sz req maj (bptr maj b) s = (p, s')"
      "block (mem s') maj hi ((as @ [b]) @ (fst b + 40 + snd b, unat sz) # c # cs) \<and>
       serves (mem s') maj (fst b + 40 + snd b, unat sz) (unat sz - 32) p \<and>
       kept (mem s) (mem s') maj hi ((as @ [b]) @ c # cs) \<and> s' = s\<lparr>mem := mem s', l_inuse := l_inuse s + sz\<rparr>"
      by blast
    have "scan_minors sz req maj (bptr maj b) s = Some (Some p, s')"
      using True room b(4-6) r(1) by (subst scan_minors.simps) (simp add: apfst_def)
    with allocatedI [OF r(2), of "as @ b # c # cs"] True show ?thesis by auto
  next
    case False
    then have "scan_minors sz req maj (bptr maj b) s = scan_minors sz req maj (bptr maj c) s"
      using room b(4-6) by (subst scan_minors.simps) simp
    with Cons.IH [of "as @ [b]" c] Cons.prems False show ?thesis by (auto split: if_splits)
  qed
qed

lemma try_block_spec:
  assumes blk: "block (mem s) maj hi bs" and sz: "32 \<le> unat sz" "unat sz + 40 < 2 ^ 64"
  shows "has_gap 40 bs hi (40 + unat sz) \<Longrightarrow>
      \<exists>p s'. try_block sz req maj s = Some (Some p, s') \<and> allocated s maj hi bs sz p s'"
    and "\<not> has_gap 40 bs hi (40 + unat sz) \<Longrightarrow> bs \<noteq> [] \<Longrightarrow> try_block sz req maj s = Some (None, s)"
proof -
  note blk' = blk [unfolded block_def]
  have first: "sz + sizeof_minor \<le> maj_first (mem s) maj - maj - sizeof_major \<longleftrightarrow> 80 + unat sz \<le> fst c"
    "maj_first (mem s) maj = bptr maj c" "bptr maj c \<noteq> 0" if bs: "bs = c # cs" for c cs
  proof -
    have c: "40 \<le> fst c" "fst c < hi"
      using spaced_bounds [of 40 bs hi c] blk' bs by auto
    show f: "maj_first (mem s) maj = bptr maj c" using blk' bs by (simp add: first_ptr_def)
    have "unat (bptr maj c) = unat maj + fst c"
      using c blk' by (simp add: bptr_def unat_add_small unat_of_nat_small)
    with c show "bptr maj c \<noteq> 0" by (metis unat_0 add_is_0 not_numeral_le_zero)
    have "maj_first (mem s) maj - maj - sizeof_major = of_nat (fst c - 40)"
      using c by (simp add: f bptr_def sizeof_major_def of_nat_diff)
    moreover have "unat (of_nat (fst c - 40) :: u64) = fst c - 40"
      using c blk' by (intro unat_of_nat_small) auto
    ultimately show "sz + sizeof_minor \<le> maj_first (mem s) maj - maj - sizeof_major \<longleftrightarrow> 80 + unat sz \<le> fst c"
      using c by (simp add: enough [OF sz(2)]) linarith
  qed
  show "\<exists>p s'. try_block sz req maj s = Some (Some p, s') \<and> allocated s maj hi bs sz p s'"
    if gap: "has_gap 40 bs hi (40 + unat sz)"
  proof (cases bs)
    case Nil
    from case2_block [of s maj hi sz req] blk sz(1) gap Nil obtain p s' where r:
      "case2 sz req maj s = (p, s')"
      "block (mem s') maj hi ([] @ (40, unat sz) # []) \<and> serves (mem s') maj (40, unat sz) (unat sz - 32) p \<and>
       kept (mem s) (mem s') maj hi ([] @ []) \<and> s' = s\<lparr>mem := mem s', l_inuse := l_inuse s + sz\<rparr>"
      by auto
    have "maj_first (mem s) maj = 0" using blk' Nil by (simp add: first_ptr_def)
    with r(1) allocatedI [OF r(2), of bs] Nil show ?thesis
      by (auto simp: try_block_def apfst_def)
  next
    case (Cons c cs)
    show ?thesis
    proof (cases "80 + unat sz \<le> fst c")
      case True
      from case3_block [of s maj hi c cs sz req] blk sz(1) True Cons obtain p s' where r:
        "case3 sz req maj s = (p, s')"
        "block (mem s') maj hi ([] @ (40, unat sz) # c # cs) \<and>
         serves (mem s') maj (40, unat sz) (unat sz - 32) p \<and>
         kept (mem s) (mem s') maj hi ([] @ c # cs) \<and> s' = s\<lparr>mem := mem s', l_inuse := l_inuse s + sz\<rparr>"
        by auto
      with first [OF Cons] True allocatedI [OF r(2), of bs] Cons show ?thesis
        by (auto simp: try_block_def apfst_def)
    next
      case False
      with gap Cons have "has_gap (fst c + 40 + snd c) cs hi (40 + unat sz)" by simp
      with scan_minors_spec [of s maj hi "[]" c cs sz req] blk sz Cons first [OF Cons] False show ?thesis
        by (simp add: try_block_def)
    qed
  qed
  show "try_block sz req maj s = Some (None, s)"
    if gap: "\<not> has_gap 40 bs hi (40 + unat sz)" "bs \<noteq> []"
  proof -
    obtain c cs where Cons: "bs = c # cs" using gap(2) by (cases bs) auto
    with gap have "\<not> 80 + unat sz \<le> fst c" "\<not> has_gap (fst c + 40 + snd c) cs hi (40 + unat sz)" by auto
    with scan_minors_spec [of s maj hi "[]" c cs sz req] blk sz Cons first [OF Cons] show ?thesis
      by (simp add: try_block_def)
  qed
qed

end
