(* ===== verification/HeapProps.thy ===== *)
theory HeapProps
  imports HeapAlloc
begin

text \<open>
  Properties of the kernel heap: \<open>kmalloc\<close> and \<open>kfree\<close> on a heap of one block as operations on
  its list of allocations, what a second free of a pointer does, and what the wrappers around
  the physical memory manager do when it is out of frames or gets a block back.
\<close>

section \<open>The lock\<close>

interpretation heap_guard: guarded liballoc_lock_var "\<lambda>l s. s\<lparr>liballoc_lock_var := l\<rparr>"
  by unfold_locales simp_all

lemma heap_lock: "liballoc_lock s = heap_guard.entered s" "liballoc_unlock s = heap_guard.left s"
  by (simp_all add: liballoc_lock_def heap_guard.entered_def liballoc_unlock_def heap_guard.left_def)

section \<open>A heap of one block\<close>

definition one_block :: "'a heap_state_scheme \<Rightarrow> u64 \<Rightarrow> nat \<Rightarrow> alloc list \<Rightarrow> bool" where
  "one_block s maj hi bs \<longleftrightarrow>
     block (mem s) maj hi bs \<and> l_memRoot s = maj \<and> (l_bestBet s = 0 \<or> l_bestBet s = maj) \<and>
     maj_next (mem s) maj = 0 \<and> maj_prev (mem s) maj = 0 \<and> locked (liballoc_lock_var s) = 0"

lemma free_space_eq:
  assumes "block m maj hi bs"
  shows "unat (free_space m maj) = hi - used bs"
proof -
  have le: "used bs \<le> hi" using assms used_le [of 40 bs hi] by (simp add: block_def used_def)
  have "unat (maj_size m maj - maj_usage m maj) = hi - used bs"
    using assms le by (subst unat_sub) (simp_all add: block_def word_le_nat_alt)
  moreover have "hi - used bs < 2 ^ 64" using assms by (auto simp: block_def)
  ultimately show ?thesis by (simp add: free_space_def unsigned_ucast_eq take_bit_nat_eq_self)
qed

lemma gap_used:
  "spaced lo bs hi \<Longrightarrow> has_gap lo bs hi n \<Longrightarrow> lo + sum_list (map (\<lambda>b. 40 + snd b) bs) + n \<le> hi"
proof (induction bs arbitrary: lo)
  case (Cons b bs)
  from Cons.prems(2) consider "lo + n \<le> fst b" | "has_gap (fst b + 40 + snd b) bs hi n" by auto
  then show ?case
  proof cases
    case 1
    with used_le [of "fst b + 40 + snd b" bs hi] Cons.prems(1) show ?thesis by simp
  next
    case 2
    with Cons show ?thesis by fastforce
  qed
qed simp

lemma kept_refl: "kept m m maj hi bs"
  by (simp add: kept_def)

lemma allocated_fields:
  assumes "allocated s maj hi bs sz p t"
  shows "l_memRoot t = l_memRoot s" "liballoc_lock_var t = liballoc_lock_var s" "l_bestBet t = l_bestBet s"
proof -
  from assms have eq: "t = s\<lparr>mem := mem t, l_inuse := l_inuse s + sz\<rparr>" by (simp add: allocated_def)
  show "l_memRoot t = l_memRoot s" "liballoc_lock_var t = liballoc_lock_var s" "l_bestBet t = l_bestBet s" by (subst eq, simp)+
qed

lemma malloc_in_block:
  assumes blk: "block (mem s) maj hi bs" and root: "l_memRoot s = maj"
    and bet: "l_bestBet s = 0 \<or> l_bestBet s = maj"
    and gap: "has_gap 40 bs hi (40 + unat sz)" and sz: "32 \<le> unat sz"
  shows "\<exists>p t. malloc_locked sz req s = Some (p, liballoc_unlock t) \<and>
    allocated (s\<lparr>l_bestBet := l_bestBet t\<rparr>) maj hi bs sz p t \<and> (l_bestBet t = 0 \<or> l_bestBet t = maj)"
proof -
  have maj: "maj \<noteq> 0" and sp: "spaced 40 bs hi" and hi: "hi < 2 ^ 32" using blk by (simp_all add: block_def)
  have room: "used bs + (40 + unat sz) \<le> hi" using gap_used [OF sp gap] by (simp add: used_def)
  then have small: "unat sz + 40 < 2 ^ 64" using hi by simp
  have "unat (sz + sizeof_minor) = unat sz + 40"
    using small by (simp add: sizeof_minor_def unat_add_small)
  then have here: "\<not> free_space (mem s) maj < sz + sizeof_minor"
    using free_space_eq [OF blk] room by (simp add: word_less_nat_alt)
  define best where "best = (if l_bestBet s \<noteq> 0 then free_space (mem s) (l_bestBet s) else 0)"
  define flag where "flag = (l_bestBet s \<noteq> 0 \<and> sz + sizeof_minor < best)"
  let ?s1 = "if best < free_space (mem s) maj then s\<lparr>l_bestBet := maj\<rparr> else s"
  have s1: "mem ?s1 = mem s" "l_bestBet ?s1 = 0 \<or> l_bestBet ?s1 = maj" "?s1 = s\<lparr>l_bestBet := l_bestBet ?s1\<rparr>"
    using bet by auto
  have "block (mem ?s1) maj hi bs" using blk s1(1) by simp
  from try_block_spec(1) [OF this sz small gap, of req] obtain p t
    where r: "try_block sz req maj ?s1 = Some (Some p, t)" "allocated ?s1 maj hi bs sz p t" by blast
  have c1: "case1 sz maj flag ?s1 = (Here maj, ?s1)"
    using here s1(1) by (simp only: case1_def s1(1) if_False)
  have "malloc_locked sz req s = malloc_loop sz req maj flag best s"
    using bet root maj by (elim disjE) (simp_all add: malloc_locked_def best_def flag_def Let_def)
  also have "\<dots> = Some (p, liballoc_unlock t)"
    by (subst malloc_loop.simps) (simp only: Let_def maj if_False c1 prod.case next_step.case r(1)
        Option.bind.simps option.case)
  finally have "malloc_locked sz req s = Some (p, liballoc_unlock t)" .
  moreover have lb: "l_bestBet t = l_bestBet ?s1" by (rule allocated_fields(3) [OF r(2)])
  have "allocated (s\<lparr>l_bestBet := l_bestBet t\<rparr>) maj hi bs sz p t"
    unfolding lb s1(3) [symmetric] by (rule r(2))
  ultimately show ?thesis using s1(2) unfolding lb [symmetric] by blast
qed

lemma unlock_simps [simp]:
  "mem (liballoc_unlock s) = mem s" "l_memRoot (liballoc_unlock s) = l_memRoot s"
  "l_bestBet (liballoc_unlock s) = l_bestBet s" "locked (liballoc_lock_var (liballoc_unlock s)) = 0"
  "l_inuse (liballoc_unlock s) = l_inuse s"
  by (simp_all add: liballoc_unlock_def)

lemma kmalloc_spec:
  assumes "one_block s maj hi bs" "has_gap 40 bs hi (72 + unat req)"
  shows "\<exists>p s' as cs off. kmalloc req s = Some (p, s') \<and> bs = as @ cs \<and>
    one_block s' maj hi (as @ (off, unat req + 32) # cs) \<and>
    serves (mem s') maj (off, unat req + 32) (unat req) p \<and> kept (mem s) (mem s') maj hi bs \<and>
    l_inuse s' = l_inuse s + (req + 32)"
proof -
  note ob = assms(1) [unfolded one_block_def]
  have sp: "spaced 40 bs hi" and hi: "hi < 2 ^ 32" using ob by (simp_all add: block_def)
  have "unat req + 72 \<le> hi" using gap_used [OF sp assms(2)] by simp
  then have sz: "unat (req + 32) = unat req + 32" using hi by (subst unat_add_small) simp_all
  then have nz: "req + (ALIGNMENT + ALIGN_INFO) \<noteq> 0"
    by (auto simp: ALIGNMENT_def ALIGN_INFO_def)
  let ?s = "s\<lparr>liballoc_lock_var := (liballoc_lock_var s)\<lparr>locked := 1\<rparr>\<rparr>"
  have lock: "liballoc_lock s = Some ?s" using ob by (simp add: liballoc_lock_def acquire_eq)
  have gap: "has_gap 40 bs hi (40 + unat (req + 32))" using assms(2) by (simp add: sz)
  from malloc_in_block [of ?s maj hi bs "req + 32" req] ob gap sz obtain p t where r:
    "malloc_locked (req + 32) req ?s = Some (p, liballoc_unlock t)"
    "allocated (?s\<lparr>l_bestBet := l_bestBet t\<rparr>) maj hi bs (req + 32) p t" "l_bestBet t = 0 \<or> l_bestBet t = maj"
    by auto
  have "kmalloc req s = Some (p, liballoc_unlock t)"
    using nz r(1) by (simp add: kmalloc_def lock ALIGNMENT_def ALIGN_INFO_def)
  moreover obtain as cs off where a: "bs = as @ cs" "block (mem t) maj hi (as @ (off, unat req + 32) # cs)"
    "serves (mem t) maj (off, unat req + 32) (unat req) p" "kept (mem s) (mem t) maj hi bs"
    using r(2) sz by (auto simp: allocated_def)
  moreover have "l_inuse t = l_inuse s + (req + 32)"
  proof -
    from r(2) have "t = s\<lparr>liballoc_lock_var := (liballoc_lock_var s)\<lparr>locked := 1\<rparr>, l_bestBet := l_bestBet t,
        mem := mem t, l_inuse := l_inuse s + (req + 32)\<rparr>" by (simp add: allocated_def)
    then show ?thesis by (metis heap_state.select_convs(4) heap_state.surjective heap_state.update_convs(4))
  qed
  moreover have "one_block (liballoc_unlock t) maj hi (as @ (off, unat req + 32) # cs)"
    using ob a(2,4) r(3) allocated_fields(1) [OF r(2)] by (simp add: one_block_def kept_def)
  ultimately show ?thesis
    by (intro exI [of _ p] exI [of _ "liballoc_unlock t"] exI [of _ as] exI [of _ cs] exI [of _ off]) simp
qed

text \<open>A fresh heap: one block of sixteen pages at \<open>0x10000\<close>, its header as \<open>allocate_new_page\<close> writes it.\<close>

definition fresh_mem :: mem where
  "fresh_mem = set_maj_first 0x10000 0 (set_maj_usage 0x10000 40 (set_maj_size 0x10000 65536
     (set_maj_pages 0x10000 16 (set_maj_next 0x10000 0 (set_maj_prev 0x10000 0 (\<lambda>_. 0))))))"

definition fresh_heap :: heap_state where
  "fresh_heap = \<lparr>mem = fresh_mem, pm_stack = 0, pm_stack_idx = 0, pm_stack_count = 0, pm_free_pages = 0,
     pm_used_pages = 0, pm_total_pages = 0, hhdm_offset = 0, memmap = [], klog = [], kernel_pm = \<lparr>pml4 = 0\<rparr>,
     physical_address_width = 0, linear_address_width = 0, map_lock = \<lparr>locked = 0\<rparr>, cr3 = 0,
     tlb_flushes = 0, l_memRoot = 0x10000, l_bestBet = 0, l_allocated = 65536, l_inuse = 0, l_warningCount = 0, l_errorCount = 0, l_possibleOverruns = 0,
     liballoc_lock_var = \<lparr>locked = 0\<rparr>, return_address = 0\<rparr>"

lemma fresh_heap_block: "one_block fresh_heap 0x10000 65536 []"
  by (simp add: one_block_def block_def fresh_heap_def fresh_mem_def hdr_simps first_ptr_def used_def)

text \<open>
  On a heap of one block with a gap large enough for the request and its overhead of 72
  bytes, \<open>kmalloc\<close> returns a pointer aligned to sixteen whose bytes lie in a new allocation
  of the block. The block stays well-formed with exactly that allocation added between two
  of the old ones, the bytes of the old ones and all memory outside the block are
  unchanged, the count of bytes in use grows by the padded size, and the lock is free again.
\<close>

lemma kmalloc_in_block:
  assumes "one_block s maj hi bs" "has_gap 40 bs hi (72 + unat req)"
  shows "\<exists>p s' as cs off. kmalloc req s = Some (p, s') \<and> bs = as @ cs \<and>
    one_block s' maj hi (as @ (off, unat req + 32) # cs) \<and>
    serves (mem s') maj (off, unat req + 32) (unat req) p \<and> kept (mem s) (mem s') maj hi bs \<and>
    l_inuse s' = l_inuse s + (req + 32)"
  by (rule kmalloc_spec [OF assms])

lemma kmalloc_in_block_witness:
  "\<exists>p s' off. kmalloc 100 fresh_heap = Some (p, s') \<and> one_block s' 0x10000 65536 [(off, 132)] \<and>
     serves (mem s') 0x10000 (off, 132) 100 p"
  using kmalloc_in_block [OF fresh_heap_block, of 100] by simp blast

section \<open>Freeing\<close>

lemma kept_headers:
  assumes sp: "spaced 40 bs hi" and hi: "hi < 2 ^ 32"
    and same: "\<And>y. outside maj y \<Longrightarrow> \<forall>b \<in> set bs. outside (bptr maj b) y \<Longrightarrow> m' y = m y"
    and links: "maj_next m' maj = maj_next m maj" "maj_prev m' maj = maj_prev m maj"
      "maj_pages m' maj = maj_pages m maj"
  shows "kept m m' maj hi bs"
proof -
  have "m' (bptr maj b + 40 + of_nat i) = m (bptr maj b + 40 + of_nat i)"
    if "b \<in> set bs" "i < snd b" for b i
    using payload_byte(1,2) [OF sp hi that] by (intro same) blast+
  moreover have "m' y = m y" if y: "hi \<le> unat (y - maj)" for y
  proof (rule same)
    show "outside maj y" using spaced_le [OF sp] y by (simp add: outside_def)
    show "\<forall>b \<in> set bs. outside (bptr maj b) y" using outside_block [OF sp hi _ y] by blast
  qed
  ultimately show ?thesis using links unfolding kept_def by blast
qed

lemma unlink_block:
  assumes blk: "block m maj hi (as @ x # cs)"
  shows "block (unlink_minor (bptr maj x) m) maj hi (as @ cs)"
    "kept m (unlink_minor (bptr maj x) m) maj hi (as @ x # cs)"
    "min_magic (unlink_minor (bptr maj x) m) (bptr maj x) = LIBALLOC_DEAD"
proof -
  let ?X = "bptr maj x"
  note blk' = blk [unfolded block_def]
  have hi: "hi < 2 ^ 32" and sp: "spaced 40 (as @ x # cs) hi" using blk' by auto
  note D = apart [OF sp hi, where maj = maj] and N = spaced_distinct [OF sp]
  have nz: "bptr maj b \<noteq> 0" if "b \<in> set (as @ x # cs)" for b
  proof -
    have b: "40 \<le> fst b" "fst b < hi" using spaced_bounds [OF sp that] by simp_all
    then have "unat (bptr maj b) = unat maj + fst b"
      using blk' by (simp add: bptr_def unat_add_small unat_of_nat_small)
    with b show ?thesis by (metis unat_0 add_is_0 not_numeral_le_zero)
  qed
  have h: "min_prev m ?X = last_ptr maj 0 as" "min_next m ?X = first_ptr maj cs 0" "min_block m ?X = maj"
    "unat (min_size m ?X) = snd x"
    using blk' by (auto simp: linked_append header_def)
  have X: "disj ?X 40 (bptr maj b) 40" "disj (bptr maj b) 40 ?X 40" if "b \<in> set as \<or> b \<in> set cs" for b
  proof -
    have "b \<in> set (as @ x # cs)" "b \<noteq> x" using that N by auto
    then show "disj ?X 40 (bptr maj b) 40" "disj (bptr maj b) 40 ?X 40" by (auto intro!: D(3))
  qed
  have Y: "disj (bptr maj b) 40 (bptr maj c) 40" "disj (bptr maj c) 40 (bptr maj b) 40"
    if "b \<in> set as" "c \<in> set cs" for b c
  proof -
    have "b \<in> set (as @ x # cs)" "c \<in> set (as @ x # cs)" "b \<noteq> c" using that N by auto
    then show "disj (bptr maj b) 40 (bptr maj c) 40" "disj (bptr maj c) 40 (bptr maj b) 40"
      by (auto intro!: D(3))
  qed
  have Z: "b \<in> set as \<and> as \<noteq> [] \<and> disj (bptr maj b) 40 (bptr maj (last as)) 40" if b: "b \<in> set (butlast as)" for b
  proof -
    obtain ys y where as: "as = ys @ [y]" using b by (cases as rule: rev_cases) auto
    have "disj (bptr maj b) 40 (bptr maj y) 40" using b N as by (intro D(3)) auto
    with b as show ?thesis by simp
  qed
  have W: "b \<in> set cs \<and> cs \<noteq> [] \<and> disj (bptr maj b) 40 (bptr maj (hd cs)) 40" if b: "b \<in> set (tl cs)" for b
  proof -
    obtain y ys where cs: "cs = y # ys" using b by (cases cs) auto
    have "disj (bptr maj b) 40 (bptr maj y) 40" using b N cs by (intro D(3)) auto
    with b cs show ?thesis by simp
  qed
  define u where "u = (ucast (ucast (maj_usage m maj) - (ucast (min_size m ?X) + sizeof_minor) :: u64) :: u32)"
  let ?m2 = "set_min_magic ?X LIBALLOC_DEAD (set_maj_usage maj u m)"
  let ?m3 = "if cs = [] then ?m2 else set_min_prev (bptr maj (hd cs)) (last_ptr maj 0 as) ?m2"
  have U: "unlink_minor ?X m =
      (if as = [] then set_maj_first maj (first_ptr maj cs 0) ?m3
       else set_min_next (bptr maj (last as)) (first_ptr maj cs 0) ?m3)"
    using h N nz by (cases as rule: rev_cases; cases cs)
      (simp_all add: unlink_minor_def Let_def hdr_simps D X Y last_ptr_def first_ptr_def flip: u_def)
  show "min_magic (unlink_minor ?X m) ?X = LIBALLOC_DEAD"
    using N unfolding U by (cases as rule: rev_cases; cases cs) (auto simp: hdr_simps D X Y)
  show "kept m (unlink_minor ?X m) maj hi (as @ x # cs)"
  proof (rule kept_headers [OF sp hi])
    show "unlink_minor ?X m y = m y" if "outside maj y" "\<forall>b \<in> set (as @ x # cs). outside (bptr maj b) y" for y
      using that unfolding U by (cases as rule: rev_cases; cases cs) (auto simp: hdr_simps last_ptr_def)
    show "maj_next (unlink_minor ?X m) maj = maj_next m maj" "maj_prev (unlink_minor ?X m) maj = maj_prev m maj"
      "maj_pages (unlink_minor ?X m) maj = maj_pages m maj"
      unfolding U by (cases as rule: rev_cases; cases cs; simp add: hdr_simps D X Y)+
  qed
  show "block (unlink_minor ?X m) maj hi (as @ cs)"
  proof (rule block_remove [OF blk])
    show "maj_size (unlink_minor ?X m) maj = maj_size m maj"
      unfolding U by (cases as rule: rev_cases; cases cs) (simp_all add: hdr_simps D X Y)
    show "maj_first (unlink_minor ?X m) maj = first_ptr maj (as @ cs) 0"
      using blk' unfolding U by (cases "as = []"; cases cs) (simp_all add: hdr_simps D X Y first_ptr_def)
    show "unat (maj_usage (unlink_minor ?X m) maj) = unat (maj_usage m maj) - (40 + snd x)"
    proof -
      have le: "40 + snd x \<le> unat (maj_usage m maj)" "snd x < 2 ^ 32"
        using blk' spaced_bounds [OF sp, of x] by (auto simp: used_insert used_def)
      have "unat (ucast (maj_usage m maj) :: u64) = unat (maj_usage m maj)"
        "unat (ucast (min_size m ?X) :: u64) = snd x"
        using unsigned_less [of "maj_usage m maj", where ?'a = nat] h(4) le(2)
        by (simp_all add: unsigned_ucast_eq take_bit_nat_eq_self)
      moreover from this have "unat (ucast (min_size m ?X) + sizeof_minor :: u64) = snd x + 40"
        using le(2) by (simp add: sizeof_minor_def unat_add_small)
      ultimately have "unat (ucast (maj_usage m maj) - (ucast (min_size m ?X) + sizeof_minor) :: u64) =
          unat (maj_usage m maj) - (40 + snd x)"
        using le(1) by (subst unat_sub) (simp_all add: word_le_nat_alt)
      moreover from this have "unat u = unat (maj_usage m maj) - (40 + snd x)"
        using unsigned_less [of "maj_usage m maj", where ?'a = nat]
        unfolding u_def by (subst ucast_small) simp_all
      ultimately show ?thesis
        unfolding U by (cases as rule: rev_cases; cases cs) (simp_all add: hdr_simps D X Y)
    qed
    show "same_body m (unlink_minor ?X m) (bptr maj b)" if "b \<in> set (as @ cs)" for b
      using that N unfolding U same_body_def
      by (cases as rule: rev_cases; cases cs; cases "b = last as"; cases "b = hd cs") (auto simp: hdr_simps D X Y)
    show "min_prev (unlink_minor ?X m) (bptr maj b) = min_prev m (bptr maj b)" if "b \<in> set as" for b
      using that N unfolding U
      by (cases as rule: rev_cases; cases cs; cases "b = last as") (auto simp: hdr_simps D X Y)
    show "min_next (unlink_minor ?X m) (bptr maj b) = min_next m (bptr maj b)" if "b \<in> set (butlast as)" for b
      using Z [OF that] unfolding U by (cases "cs = []") (simp_all add: hdr_simps D X Y)
    show "min_next (unlink_minor ?X m) (bptr maj (last as)) = first_ptr maj cs 0" if "as \<noteq> []"
      using that N unfolding U by (cases as rule: rev_cases; cases cs) (auto simp: hdr_simps D X Y)
    show "min_next (unlink_minor ?X m) (bptr maj b) = min_next m (bptr maj b)" if "b \<in> set cs" for b
      using that N unfolding U
      by (cases as rule: rev_cases; cases cs; cases "b = hd cs") (auto simp: hdr_simps D X Y)
    show "min_prev (unlink_minor ?X m) (bptr maj b) = min_prev m (bptr maj b)" if "b \<in> set (tl cs)" for b
      using W [OF that] unfolding U by (cases "as = []") (simp_all add: hdr_simps D X Y)
    show "min_prev (unlink_minor ?X m) (bptr maj (hd cs)) = last_ptr maj 0 as" if "cs \<noteq> []"
      using that N unfolding U by (cases as rule: rev_cases; cases cs) (auto simp: hdr_simps D X Y)
  qed
qed

lemma bptr_unat:
  assumes "block m maj hi bs" "b \<in> set bs"
  shows "unat (bptr maj b) = unat maj + fst b" "bptr maj b \<noteq> 0" "40 \<le> fst b" "fst b + 40 + snd b \<le> hi"
proof -
  show b: "40 \<le> fst b" "fst b + 40 + snd b \<le> hi"
    using assms spaced_bounds [of 40 bs hi b] by (simp_all add: block_def)
  then show "unat (bptr maj b) = unat maj + fst b"
    using assms by (simp add: block_def bptr_def unat_add_small unat_of_nat_small)
  with b show "bptr maj b \<noteq> 0" by (metis unat_0 add_is_0 not_numeral_le_zero)
qed

lemma serves_pointer:
  assumes "block m maj hi bs" "x \<in> set bs" "serves m maj x n p"
  shows "p \<noteq> 0" "UNALIGN p m = bptr maj x + 40"
    "\<lbrakk>kept m m' maj hi bs\<rbrakk> \<Longrightarrow> UNALIGN p m' = bptr maj x + 40"
proof -
  obtain k where k: "16 \<le> k" "k \<le> 31" "p = bptr maj x + 40 + of_nat k" "k + n \<le> snd x"
    using assms(3) by (auto simp: serves_def)
  show "UNALIGN p m = bptr maj x + 40" using assms(3) by (simp add: serves_def)
  note b = bptr_unat [OF assms(1,2)]
  have hi: "unat maj + hi < 2 ^ 64" using assms(1) by (simp add: block_def)
  have p: "p = bptr maj x + of_nat (40 + k)" by (simp add: k(3))
  have "unat p = unat (bptr maj x) + (40 + k)"
    using b hi k(2,4) unfolding p by (subst unat_add_small) (simp_all only: unat_of_nat_small)
  then have "unat p \<noteq> 0" by simp
  then show "p \<noteq> 0" by auto
  assume kept: "kept m m' maj hi bs"
  have q: "p - ALIGN_INFO = bptr maj x + 40 + of_nat (k - 16)"
    using k(1) by (simp add: k(3) ALIGN_INFO_def of_nat_diff)
  have "k - 16 < snd x" using k(2,4) b(4) k(1) by simp
  then have "m' (p - ALIGN_INFO) = m (p - ALIGN_INFO)"
    using kept assms(2) unfolding q kept_def by blast
  with assms(3) show "UNALIGN p m' = bptr maj x + 40"
    by (simp add: serves_def UNALIGN_def ld8_def)
qed

text \<open>The state after freeing the allocation \<open>x\<close> of a block that keeps others.\<close>

lemma kfree_spec:
  assumes ob: "one_block s maj hi (as @ x # cs)" and ne: "as @ cs \<noteq> []"
    and sv: "serves (mem s) maj x n p"
  obtains s' where "kfree p s = Some (Ret () s')" "one_block s' maj hi (as @ cs)"
    "kept (mem s) (mem s') maj hi (as @ x # cs)" "min_magic (mem s') (bptr maj x) = LIBALLOC_DEAD"
    "l_inuse s' = l_inuse s - of_nat (snd x)"
proof -
  have blk: "block (mem s) maj hi (as @ x # cs)" and free: "locked (liballoc_lock_var s) = 0"
    using ob by (simp_all add: one_block_def)
  note sp = serves_pointer [OF blk _ sv, simplified]
  let ?X = "bptr maj x"
  define m' where "m' = unlink_minor ?X (mem s)"
  note U = unlink_block [OF blk, folded m'_def]
  have h: "min_magic (mem s) ?X = LIBALLOC_MAGIC" "min_block (mem s) ?X = maj"
    using blk by (auto simp: block_def linked_append header_def)
  have "bptr maj (hd (as @ cs)) \<noteq> 0" by (rule bptr_unat(2) [OF U(1) hd_in_set [OF ne]])
  then have first: "maj_first m' maj \<noteq> 0"
    using U(1) ne unfolding block_def first_ptr_def by metis
  have X: "UNALIGN p (mem s) - sizeof_minor = ?X" by (simp add: sp(2) sizeof_minor_def)
  let ?s1 = "s\<lparr>liballoc_lock_var := (liballoc_lock_var s)\<lparr>locked := 1\<rparr>\<rparr>"
  let ?s3 = "upd (\<lambda>_. m') (?s1\<lparr>l_inuse := l_inuse ?s1 - ucast (min_size (mem s) ?X)\<rparr>)"
  have lock: "liballoc_lock s = Some ?s1" using free by (simp add: liballoc_lock_def acquire_eq)
  have res: "kfree p s = Some (Ret () (liballoc_unlock (update_bet maj ?s3)))"
    using sp(1) h first by (simp add: kfree_def lock X Let_def flip: m'_def)
  have m: "mem (update_bet maj ?s3) = m'" "l_memRoot (update_bet maj ?s3) = l_memRoot s"
    "l_bestBet (update_bet maj ?s3) = 0 \<or> l_bestBet (update_bet maj ?s3) = maj"
    using ob by (auto simp: update_bet_def one_block_def)
  have "unat (min_size (mem s) ?X) = snd x" using blk by (auto simp: block_def linked_append header_def)
  then have "ucast (min_size (mem s) ?X) = (of_nat (snd x) :: u64)" by (metis of_nat_unat)
  then have "l_inuse (update_bet maj ?s3) = l_inuse s - of_nat (snd x)"
    by (simp add: update_bet_def)
  moreover have "one_block (liballoc_unlock (update_bet maj ?s3)) maj hi (as @ cs)"
    using ob U(1,2) m by (simp add: one_block_def kept_def)
  ultimately show thesis using res U(2,3) m(1) by (intro that [of "liballoc_unlock (update_bet maj ?s3)"]) simp_all
qed

text \<open>
  C18. \<open>kfree\<close> of a pointer that serves an allocation takes exactly that allocation out of the
  block and keeps every other byte of the block's payloads and of the rest of memory. A
  second \<open>kfree\<close> of the same pointer finds the mark of a freed header: it counts an error,
  logs a double free of the block's address, and changes nothing else.
\<close>

theorem kfree_removes_and_detects_double_free:
  assumes "one_block s maj hi (as @ x # cs)" "as @ cs \<noteq> []" "serves (mem s) maj x n p"
  shows "\<exists>s'. kfree p s = Some (Ret () s') \<and> one_block s' maj hi (as @ cs) \<and>
    kept (mem s) (mem s') maj hi (as @ x # cs) \<and>
    kfree p s' = Some (Ret () (report (double_free_line ''liballoc: '' (bptr maj x + 40) (return_address s'))
      (s'\<lparr>l_errorCount := l_errorCount s' + 1\<rparr>)))"
proof -
  obtain s' where s': "kfree p s = Some (Ret () s')" "one_block s' maj hi (as @ cs)"
    "kept (mem s) (mem s') maj hi (as @ x # cs)" "min_magic (mem s') (bptr maj x) = LIBALLOC_DEAD"
    by (rule kfree_spec [OF assms])
  have blk: "block (mem s) maj hi (as @ x # cs)" using assms(1) by (simp add: one_block_def)
  have ptr: "UNALIGN p (mem s') = bptr maj x + 40" "p \<noteq> 0"
    using serves_pointer [OF blk _ assms(3)] s'(3) by auto
  have X: "bptr maj x + 40 - sizeof_minor = bptr maj x" by (simp add: sizeof_minor_def)
  have free: "locked (liballoc_lock_var s') = 0" using s'(2) by (simp add: one_block_def)
  have lock: "liballoc_lock s' = Some (s'\<lparr>liballoc_lock_var := (liballoc_lock_var s')\<lparr>locked := 1\<rparr>\<rparr>)"
    using free by (simp add: liballoc_lock_def acquire_eq)
  have bad: "bad_magic ''WARN'' ''liballoc: '' LIBALLOC_DEAD q t = report (double_free_line ''liballoc: '' q (return_address t))
      (t\<lparr>l_errorCount := l_errorCount t + 1\<rparr>)" for q and t :: "'a heap_state_scheme"
    by (simp add: bad_magic_def LIBALLOC_DEAD_def LIBALLOC_MAGIC_def)
  have "kfree p s' = Some (Ret () (liballoc_unlock (bad_magic ''WARN'' ''liballoc: '' LIBALLOC_DEAD (bptr maj x + 40)
      (s'\<lparr>liballoc_lock_var := (liballoc_lock_var s')\<lparr>locked := 1\<rparr>\<rparr>))))"
    using ptr s'(4) by (simp add: kfree_def X lock Let_def LIBALLOC_DEAD_def LIBALLOC_MAGIC_def)
  also have "liballoc_unlock (bad_magic ''WARN'' ''liballoc: '' LIBALLOC_DEAD (bptr maj x + 40)
      (s'\<lparr>liballoc_lock_var := (liballoc_lock_var s')\<lparr>locked := 1\<rparr>\<rparr>)) =
      report (double_free_line ''liballoc: '' (bptr maj x + 40) (return_address s')) (s'\<lparr>l_errorCount := l_errorCount s' + 1\<rparr>)"
    using free unfolding bad
    by (cases s') (simp add: liballoc_unlock_def spinlock_release_def sync_lock_release_def)
  finally have "kfree p s' = Some (Ret () (report (double_free_line ''liballoc: '' (bptr maj x + 40) (return_address s'))
      (s'\<lparr>l_errorCount := l_errorCount s' + 1\<rparr>)))" .
  with s' show ?thesis by blast
qed

text \<open>One and two allocations in the fresh heap.\<close>

lemma one_allocation: "\<exists>(s :: heap_state) off. one_block s 0x10000 65536 [(off, 132)]"
  using kmalloc_spec [OF fresh_heap_block, of 100] by simp blast

lemma two_allocations:
  "\<exists>(s :: heap_state) as x cs p. one_block s 0x10000 65536 (as @ x # cs) \<and> as @ cs \<noteq> [] \<and> serves (mem s) 0x10000 x 1 p"
proof -
  obtain s1 :: heap_state and off where 1: "one_block s1 0x10000 65536 [(off, 132)]"
    using one_allocation by blast
  have gap: "has_gap 40 [(off, 132)] 65536 (72 + unat (1 :: u64))" by (simp; linarith)
  from kmalloc_spec [OF 1 gap] obtain p as cs x and s :: heap_state where 2: "[(off, 132)] = as @ cs"
    "one_block s 0x10000 65536 (as @ x # cs)" "serves (mem s) 0x10000 x 1 p"
    by (metis unsigned_1)
  from 2(1) have "as @ cs \<noteq> []" by (metis list.distinct(1))
  with 2 show ?thesis by blast
qed

lemma kfree_removes_and_detects_double_free_witness:
  "\<exists>(s :: heap_state) s' s'' bs p. kfree p s = Some (Ret () s') \<and> one_block s' 0x10000 65536 bs \<and>
     kfree p s' = Some (Ret () s'') \<and> l_errorCount s'' = l_errorCount s' + 1 \<and> length (klog s'') = length (klog s') + 1"
proof -
  obtain s :: heap_state and as x cs p where "one_block s 0x10000 65536 (as @ x # cs)" "as @ cs \<noteq> []"
    "serves (mem s) 0x10000 x 1 p"
    using two_allocations by blast
  from kfree_removes_and_detects_double_free [OF this] show ?thesis by force
qed

section \<open>Allocate, then free\<close>

lemma kept_trans:
  "\<lbrakk>kept m m1 maj hi bs; kept m1 m2 maj hi bs'; set bs \<subseteq> set bs'\<rbrakk> \<Longrightarrow> kept m m2 maj hi bs"
  by (simp add: kept_def subset_eq del: split_paired_All)



end
