(* ===== verification/HeapLife.thy ===== *)
theory HeapLife
  imports HeapProps
begin

text \<open>
  The life of a block of the heap: the first allocation takes sixteen pages from the physical
  memory manager, through the higher half, and freeing the last allocation hands them back.
  Both wrappers lose track of what an address means: the null pointer of a failed request
  becomes the start of the higher half, and the pages go back under their virtual address.
\<close>

section \<open>A new block\<close>

definition fresh_header :: "u64 \<Rightarrow> mem \<Rightarrow> mem" where
  "fresh_header maj m = set_maj_first maj 0 (set_maj_usage maj 40 (set_maj_size maj 65536
     (set_maj_pages maj 16 (set_maj_next maj 0 (set_maj_prev maj 0 m)))))"

lemma fresh_header_block:
  assumes "maj \<noteq> 0" "unat maj + 65536 < 2 ^ 64"
  shows "block (fresh_header maj m) maj 65536 []" "maj_next (fresh_header maj m) maj = 0"
    "maj_prev (fresh_header maj m) maj = 0" "outside maj x \<Longrightarrow> fresh_header maj m x = m x"
  using assms by (simp_all add: block_def fresh_header_def hdr_simps first_ptr_def used_def)

lemma sixteen_pages:
  assumes "unat (sz :: u32) + 80 \<le> 65536"
  shows "(let st0 = sz + ucast sizeof_major + ucast sizeof_minor;
          st1 = (if st0 mod l_pageSize = 0 then st0 div l_pageSize else st0 div l_pageSize + 1)
      in if st1 < l_pageCount then l_pageCount else st1) = 16"
proof -
  define w where "w = sz + 80"
  have w: "unat w = unat sz + 80" using assms by (simp add: w_def unat_word_ariths)
  have q: "unat (w div 4096) = unat w div 4096" "unat (w mod 4096) = unat w mod 4096"
    by (simp_all add: unat_div_distrib unat_mod_distrib)
  have "unat w = 4096 * (unat w div 4096) + unat w mod 4096" "unat w \<le> 65536" using w assms by simp_all
  then have le: "unat w div 4096 \<le> 16" "unat w mod 4096 \<noteq> 0 \<Longrightarrow> unat w div 4096 \<le> 15"
    by linarith+
  have one: "unat (w div 4096 + 1) = unat w div 4096 + 1"
    using le(1) by (simp add: unat_word_ariths q)
  have zero: "w mod 4096 = 0 \<longleftrightarrow> unat w mod 4096 = 0"
    by (simp add: word_unat_eq_iff q)
  have eq: "sz + ucast sizeof_major + ucast sizeof_minor = w"
    by (simp add: w_def sizeof_major_def sizeof_minor_def)
  then show ?thesis
    using le one unfolding eq l_pageSize_def l_pageCount_def Let_def zero
    by (auto simp: word_less_nat_alt word_unat_eq_iff q)
qed

text \<open>What \<open>allocate_new_page\<close> does for a request that fits in sixteen pages.\<close>

lemma allocate_new_page_fresh:
  assumes "unat sz + 80 \<le> 65536" "pmm_request_pages 16 s = (q, s1)" "q + hhdm_offset s1 \<noteq> 0"
  shows "allocate_new_page sz s = (q + hhdm_offset s1,
    s1\<lparr>mem := fresh_header (q + hhdm_offset s1) (mem s1), l_allocated := l_allocated s1 + 65536\<rparr>)"
  using sixteen_pages [OF assms(1)] assms(2,3)
  unfolding allocate_new_page_def Let_def
  by (simp add: liballoc_alloc_def fresh_header_def l_pageSize_def sizeof_major_def)

lemma malloc_locked_start:
  assumes "l_memRoot s = 0" "allocate_new_page (ucast sz) s = (maj, s')" "maj \<noteq> 0"
  shows "malloc_locked sz req s = malloc_locked sz req (s'\<lparr>l_memRoot := maj\<rparr>)"
  using assms by (simp add: malloc_locked_def Let_def)

lemma request_heap_fields:
  assumes "pmm_request_pages n s = (q, s1)"
  shows "mem s1 = mem s" "hhdm_offset s1 = hhdm_offset s" "l_memRoot s1 = l_memRoot s"
    "l_bestBet s1 = l_bestBet s" "l_warningCount s1 = l_warningCount s"
    "liballoc_lock_var s1 = liballoc_lock_var s"
  using assms by (auto simp: pmm_request_pages_def Let_def split: if_splits)

lemma allocated_state:
  assumes "allocated (s\<lparr>l_bestBet := b\<rparr>) maj hi bs sz p t"
  shows "t = s\<lparr>l_bestBet := b, mem := mem t, l_inuse := l_inuse s + sz\<rparr>"
  using assms by (simp add: allocated_def)

text \<open>The frame a request for sixteen pages hands out; null when there are fewer.\<close>

definition first_frame :: "'a pmm_state_scheme \<Rightarrow> u64" where
  "first_frame s = (if 16 \<le> length (free_list s) then free_list s ! (length (free_list s) - 16) else 0)"

lemma request_sixteen:
  "pmm_request_pages 16 s = (first_frame s, if 16 \<le> length (free_list s) then popped 16 s else report (out_of_pages 16) s)"
  using request_some [of 16 s] request_none [of 16 s] by (auto simp: first_frame_def simp del: length_free_list)

text \<open>
  C20. The first \<open>kmalloc\<close> asks for sixteen frames and makes a block of 64 KiB of them, with
  one allocation that serves the request; all memory outside the block is unchanged. When
  fewer than sixteen frames are free it does the same, with physical page 0 as the block:
  the null pointer of the failed request is moved to the start of the higher half before it
  is compared with null, so no frame is taken, the heap counts no warning, and the caller gets
  memory that was never allocated. The page manager's log line is the only sign of it.
\<close>

theorem first_kmalloc:
  assumes free: "locked (liballoc_lock_var s) = 0" and root: "l_memRoot s = 0" "l_bestBet s = 0"
    and fits: "unat req + 112 \<le> 65536" and maj: "maj = first_frame s + hhdm_offset s"
    and addr: "maj \<noteq> 0" "unat maj + 65536 < 2 ^ 64"
  shows "\<exists>p s' off. kmalloc req s = Some (p, s') \<and> one_block s' maj 65536 [(off, unat req + 32)] \<and>
    serves (mem s') maj (off, unat req + 32) (unat req) p \<and>
    (\<forall>x. 65536 \<le> unat (x - maj) \<longrightarrow> mem s' x = mem s x) \<and>
    pm_stack_idx s' = (if 16 \<le> length (free_list s) then pm_stack_idx s - 16 else pm_stack_idx s) \<and>
    l_warningCount s' = l_warningCount s \<and>
    klog s' = klog s @ (if 16 \<le> length (free_list s) then [] else [out_of_pages 16])"
proof -
  let ?s = "s\<lparr>liballoc_lock_var := (liballoc_lock_var s)\<lparr>locked := 1\<rparr>\<rparr>"
  have lock: "liballoc_lock s = Some ?s" using free by (simp add: liballoc_lock_def acquire_eq)
  have sz: "unat (req + 32) = unat req + 32" using fits by (simp add: unat_word_ariths)
  then have nz: "req + (ALIGNMENT + ALIGN_INFO) \<noteq> 0" by (auto simp: ALIGNMENT_def ALIGN_INFO_def)
  have lists: "free_list ?s = free_list s" "first_frame ?s = first_frame s"
    by (simp_all add: free_list_def first_frame_def)
  obtain s1 where s1: "pmm_request_pages 16 ?s = (first_frame s, s1)"
    "pm_stack_idx s1 = (if 16 \<le> length (free_list s) then pm_stack_idx s - 16 else pm_stack_idx s)"
    "klog s1 = klog s @ (if 16 \<le> length (free_list s) then [] else [out_of_pages 16])"
    using request_sixteen [of ?s] unfolding lists by (simp add: popped_def)
  note f = request_heap_fields [OF s1(1)]
  define s2 where "s2 = s1\<lparr>mem := fresh_header maj (mem s1), l_allocated := l_allocated s1 + 65536, l_memRoot := maj\<rparr>"
  have "unat (ucast (req + 32) :: u32) + 80 \<le> 65536" using fits sz by (simp add: ucast_small)
  then have "malloc_locked (req + 32) req ?s = malloc_locked (req + 32) req s2"
    using allocate_new_page_fresh [OF _ s1(1)] f(2) addr(1) root(1) maj
    by (simp add: malloc_locked_start [of ?s] s2_def)
  moreover have "has_gap 40 [] 65536 (40 + unat (req + 32))" using fits sz by simp
  with malloc_in_block [of s2 maj 65536 "[]" "req + 32" req] fresh_header_block(1) [OF addr] f(4) root(2) sz
  obtain p t where r: "malloc_locked (req + 32) req s2 = Some (p, liballoc_unlock t)"
    "allocated (s2\<lparr>l_bestBet := l_bestBet t\<rparr>) maj 65536 [] (req + 32) p t" "l_bestBet t = 0 \<or> l_bestBet t = maj"
    by (auto simp: s2_def)
  ultimately have "kmalloc req s = Some (p, liballoc_unlock t)"
    using nz by (simp add: kmalloc_def lock ALIGNMENT_def ALIGN_INFO_def)
  moreover obtain off where a: "block (mem t) maj 65536 [(off, unat req + 32)]"
    "serves (mem t) maj (off, unat req + 32) (unat req) p" "kept (mem s2) (mem t) maj 65536 []"
    using r(2) sz by (auto simp: allocated_def)
  moreover have "mem t x = mem s x" if "65536 \<le> unat (x - maj)" for x
    using a(3) that fresh_header_block(4) [OF addr, of x] f(1) by (simp add: kept_def s2_def outside_def)
  moreover have "l_memRoot t = maj" "pm_stack_idx t = pm_stack_idx s1" "l_warningCount t = l_warningCount s" "klog t = klog s1"
    using f(5) by (subst allocated_state [OF r(2)], simp add: s2_def)+
  moreover have "maj_next (mem t) maj = 0" "maj_prev (mem t) maj = 0"
    using a(3) fresh_header_block(2,3) [OF addr] by (simp_all add: kept_def s2_def)
  ultimately show ?thesis
    using r(3) s1(2,3)
    by (intro exI [of _ p] exI [of _ "liballoc_unlock t"] exI [of _ off])
      (simp add: one_block_def, simp add: liballoc_unlock_def)
qed

text \<open>The fresh heap's machine, before its first allocation and with no frame left.\<close>

definition bare_heap :: heap_state where
  "bare_heap = fresh_heap\<lparr>l_memRoot := 0, hhdm_offset := 0xffff800000000000\<rparr>"

lemma first_kmalloc_witness:
  "\<exists>p s' off. kmalloc 100 bare_heap = Some (p, s') \<and> one_block s' 0xffff800000000000 65536 [(off, 132)] \<and>
     l_warningCount s' = 0 \<and> klog s' = klog bare_heap @ [out_of_pages 16]"
proof -
  have "locked (liballoc_lock_var bare_heap) = 0" "l_memRoot bare_heap = 0" "l_bestBet bare_heap = 0"
    "0xffff800000000000 = first_frame bare_heap + hhdm_offset bare_heap" "l_warningCount bare_heap = 0"
    "pm_stack_idx bare_heap = 0"
    by (simp_all add: bare_heap_def fresh_heap_def first_frame_def)
  with first_kmalloc [of bare_heap 100 "0xffff800000000000"] show ?thesis by simp blast
qed

section \<open>The last allocation\<close>

lemma scast_small:
  assumes "unat (w :: u32) < 2 ^ 31"
  shows "scast w = (ucast w :: u64)"
proof -
  have "int (unat w) < int (2 ^ 31)" using assms by (simp only: of_nat_less_iff)
  then have lt: "0 \<le> uint w" "uint w < 2 ^ 31" by simp_all
  have "signed_take_bit 31 (uint w) = uint w"
    by (rule signed_take_bit_int_eq_self) (use lt in linarith)+
  then have "sint w = uint w" by (simp add: sint_uint)
  then show ?thesis by (simp only: scast_eq ucast_eq)
qed

text \<open>Freeing the last allocation, up to the call into the physical memory manager.\<close>

lemma release_major_only:
  assumes "l_memRoot s = maj" "l_bestBet s = 0 \<or> l_bestBet s = maj"
    "maj_next (mem s) maj = 0" "maj_prev (mem s) maj = 0"
  shows "release_major maj s = liballoc_free maj (maj_pages (mem s) maj)
    (s\<lparr>l_memRoot := 0, l_bestBet := 0, l_allocated := l_allocated s - ucast (maj_size (mem s) maj)\<rparr>)"
  using assms by (cases s) (auto simp: release_major_def Let_def)

lemma push_list_root: "l_memRoot (pm_push_list vs s) = l_memRoot s"
  by (induction vs arbitrary: s) (simp_all add: pm_push_def)

text \<open>
  C38. Freeing the last allocation of the only block empties the heap and pushes the block's
  pages on the free list under their virtual addresses. The next request for as many pages
  gets the virtual address back as a frame, and the allocator adds the offset of the higher
  half to it a second time.
\<close>

theorem kfree_last_returns_block:
  assumes ob: "one_block s maj hi [x]" and sv: "serves (mem s) maj x n p"
    and pages: "k = unat (maj_pages (mem s) maj)" "0 < k" "k < 2 ^ 31" "aligned maj"
    and stack: "stack_wf s" "length (free_list s) + k \<le> unat (pm_total_pages s)"
      "\<And>y. pgno y \<in> stack_region s \<Longrightarrow> hi \<le> unat (y - maj)"
  shows "\<exists>s'. kfree p s = Some (Ret () s') \<and> l_memRoot s' = 0 \<and> locked (liballoc_lock_var s') = 0 \<and>
    free_list s' = free_list s @ pages_from maj k \<and>
    fst (liballoc_alloc (maj_pages (mem s) maj) s') = maj + hhdm_offset s"
proof -
  have blk: "block (mem s) maj hi [x]" and free: "locked (liballoc_lock_var s) = 0"
    using ob by (simp_all add: one_block_def)
  have "p \<noteq> 0" "UNALIGN p (mem s) = bptr maj x + 40" using serves_pointer [OF blk _ sv] by simp_all
  then have X: "UNALIGN p (mem s) - sizeof_minor = bptr maj x" by (simp add: sizeof_minor_def)
  let ?X = "bptr maj x"
  define m' where "m' = unlink_minor ?X (mem s)"
  have U: "block m' maj hi []" "kept (mem s) m' maj hi [x]"
    using unlink_block(1,2) [of "mem s" maj hi "[]" x "[]"] blk by (simp_all add: m'_def)
  have h: "min_magic (mem s) ?X = LIBALLOC_MAGIC" "min_block (mem s) ?X = maj"
    using blk by (auto simp: block_def header_def)
  have m': "maj_first m' maj = 0" "maj_next m' maj = 0" "maj_prev m' maj = 0" "maj_pages m' maj = maj_pages (mem s) maj"
    using U ob by (simp_all add: block_def first_ptr_def kept_def one_block_def)
  let ?s1 = "s\<lparr>liballoc_lock_var := (liballoc_lock_var s)\<lparr>locked := 1\<rparr>\<rparr>"
  let ?s3 = "upd (\<lambda>_. m') (?s1\<lparr>l_inuse := l_inuse ?s1 - ucast (min_size (mem s) ?X)\<rparr>)"
  define s4 where "s4 = ?s3\<lparr>l_memRoot := 0, l_bestBet := 0, l_allocated := l_allocated ?s3 - ucast (maj_size m' maj)\<rparr>"
  have lock: "liballoc_lock s = Some ?s1" using free by (simp add: liballoc_lock_def acquire_eq)
  have n: "scast (maj_pages (mem s) maj) = (ucast (maj_pages (mem s) maj) :: u64)"
    using pages(1,3) by (intro scast_small) simp
  have k: "unat (ucast (maj_pages (mem s) maj) :: u64) = k"
    using pages(1,3) by (simp add: unsigned_ucast_eq take_bit_nat_eq_self)
  let ?n = "ucast (maj_pages (mem s) maj) :: u64"
  have same: "pm_stack s4 = pm_stack s" "pm_stack_idx s4 = pm_stack_idx s" "pm_total_pages s4 = pm_total_pages s"
    "mem s4 = m'" "hhdm_offset s4 = hhdm_offset s" "l_memRoot s4 = 0"
    by (simp_all add: s4_def)
  have list: "free_list s4 = free_list s"
  proof -
    have "free_list (s\<lparr>mem := m'\<rparr>) = free_list s"
      using stack(1,3) U(2) by (intro free_list_mem_cong) (auto simp: stack_wf_def kept_def)
    moreover have "free_list s4 = free_list (s\<lparr>mem := m'\<rparr>)" by (rule free_list_cong) (simp_all add: same)
    ultimately show ?thesis by simp
  qed
  have wf: "stack_wf s4" using stack(1) by (simp add: stack_wf_def same)
  have room: "length (free_list s4) + unat ?n \<le> unat (pm_total_pages s4)" using stack(2) list same(3) k by simp
  have maj: "maj \<noteq> 0" using blk by (simp add: block_def)
  have "0 < ?n" using pages(2) k by (simp add: word_less_nat_alt)
  then have "release_major maj ?s3 = Ret () (pushed maj ?n s4)"
    using free_some [OF maj pages(4) _ room] ob m' n
    by (subst release_major_only) (auto simp: one_block_def liballoc_free_def s4_def)
  then have res: "kfree p s = Some (Ret () (liballoc_unlock (pushed maj ?n s4)))"
    using \<open>p \<noteq> 0\<close> h m'(1) by (simp add: kfree_def lock X Let_def flip: m'_def)
  have pl: "free_list (liballoc_unlock (pushed maj ?n s4)) = free_list s @ pages_from maj k"
    using pushed_spec(1) [OF wf room, of maj] k list
    by (subst free_list_cong [of _ "pushed maj ?n s4"]) (simp_all add: liballoc_unlock_def)
  have "fst (pmm_request_pages ?n (liballoc_unlock (pushed maj ?n s4))) = maj"
    using pages(2) k by (subst request_some) (simp_all add: pl nth_append pages_from_def)
  then have "fst (liballoc_alloc (maj_pages (mem s) maj) (liballoc_unlock (pushed maj ?n s4))) = maj + hhdm_offset s"
    using request_heap_fields(2) [of ?n "liballoc_unlock (pushed maj ?n s4)"] n same(5)
    by (auto simp: liballoc_alloc_def liballoc_unlock_def split: prod.splits)
  moreover have "l_memRoot (pushed maj ?n s4) = 0" using same(6) by (simp add: pushed_def Let_def push_list_root)
  ultimately show ?thesis using res pl by (intro exI [of _ "liballoc_unlock (pushed maj ?n s4)"]) simp
qed

text \<open>A heap of one allocation of a hundred bytes, and a page stack with room for a block.\<close>

definition single_mem :: mem where
  "single_mem = st8 0x10050 16 (set_min_req_size 0x10028 100 (set_min_size 0x10028 132 (set_min_magic 0x10028 LIBALLOC_MAGIC
     (set_min_block 0x10028 0x10000 (set_min_next 0x10028 0 (set_min_prev 0x10028 0
       (set_maj_usage 0x10000 212 (set_maj_first 0x10000 0x10028 fresh_mem))))))))"

definition single_heap :: heap_state where
  "single_heap = fresh_heap\<lparr>mem := single_mem, pm_stack := 0x100000, pm_total_pages := 64,
     hhdm_offset := 0xffff800000000000\<rparr>"

lemma single_disj: "disj 0x10028 40 0x10000 40" "disj 0x10000 40 0x10028 40"
  "disj 0x10028 40 0x10050 1" "disj 0x10000 40 0x10050 1"
  by (simp_all add: disj_def)

lemma single_heap_block:
  "one_block single_heap 0x10000 65536 [(40, 132)]" "serves (mem single_heap) 0x10000 (40, 132) 100 0x10060"
  "maj_pages (mem single_heap) 0x10000 = 16" "min_req_size (mem single_heap) 0x10028 = 100"
proof -
  note d = single_disj single_disj [simplified]
  show "one_block single_heap 0x10000 65536 [(40, 132)]"
    by (simp add: one_block_def block_def single_heap_def fresh_heap_def single_mem_def fresh_mem_def hdr_simps d
        first_ptr_def used_def bptr_def header_def)
  show "maj_pages (mem single_heap) 0x10000 = 16"
    by (simp add: single_heap_def single_mem_def fresh_mem_def hdr_simps d)
  show "min_req_size (mem single_heap) 0x10028 = 100"
    by (simp add: single_heap_def single_mem_def hdr_simps d, simp add: minor_fields)
  show "serves (mem single_heap) 0x10000 (40, 132) 100 0x10060"
    by (simp add: serves_def bptr_def UNALIGN_def ld8_def single_heap_def single_mem_def st8_apply
        ALIGN_INFO_def ALIGNMENT_def exI [of _ 16])
qed

lemma single_heap_stack: "stack_wf single_heap" "free_list single_heap = []" "pm_total_pages single_heap = 64"
  "hhdm_offset single_heap = 0xffff800000000000"
  by (simp_all add: stack_wf_def single_heap_def fresh_heap_def aligned_dvd free_list_def)

lemma single_heap_apart:
  assumes y: "pgno y \<in> stack_region single_heap"
  shows "65536 \<le> unat (y - 0x10000)"
proof -
  obtain k where k: "k < 64" "pgno y = pgno (0x100000 + 8 * of_nat k)"
    using y by (auto simp: stack_region_def single_heap_def fresh_heap_def)
  then have "pgno y = pgno (0x100000 :: u64)"
    by (subst k(2), intro pgno_offset) (simp_all add: aligned_dvd unat_word_ariths unat_of_nat)
  then have "unat (pgno y) = 256" by (simp add: unat_pgno)
  then have "unat y div 4096 = 256" by (simp only: unat_pgno)
  then have "0x100000 \<le> unat y" by linarith
  then show ?thesis by (subst unat_sub) (simp_all add: word_le_nat_alt)
qed

lemma kfree_last_returns_block_witness:
  "\<exists>s'. kfree 0x10060 single_heap = Some (Ret () s') \<and> free_list s' = pages_from 0x10000 16 \<and>
     fst (liballoc_alloc 16 s') = 0x10000 + 0xffff800000000000"
proof -
  from kfree_last_returns_block [OF single_heap_block(1,2), of 16] show ?thesis
    using single_heap_stack single_heap_apart by (simp add: single_heap_block(3) aligned_dvd) blast
qed

end
