(* ===== verification/HeapCopy.thy ===== *)
theory HeapCopy
  imports HeapLife
begin

text \<open>
  The block operations of the heap and what is built on them. \<open>liballoc_memcpy\<close>, which copies
  word by word, is the string function \<open>memcpy\<close>; \<open>liballoc_memset\<close> fills blocks shorter than
  4 GiB and never ends on longer ones. \<open>kcalloc\<close> returns zeroed memory and \<open>krealloc\<close> moves the
  contents of an allocation, both inside a well-formed block.
\<close>

section \<open>Copying\<close>

lemma st_ld_copied:
  assumes "n < 2 ^ 64"
  shows "st_bytes n d (ld_bytes n m' s) m x = (if unat (x - d) < n then m' (s + (x - d)) else m x)"
  using assms
proof (induction n arbitrary: d s)
  case (Suc n)
  have lt: "unat (m' s) < 256" using unsigned_less [of "m' s", where ?'a = nat] by simp
  then have "ld_bytes (Suc n) m' s div 256 = ld_bytes n m' (s + 1)" by simp
  moreover have "unat (of_nat (ld_bytes (Suc n) m' s) :: u8) = unat (m' s)"
    using lt by (simp only: unat_of_nat) simp
  then have "(of_nat (ld_bytes (Suc n) m' s) :: u8) = m' s"
    by (rule word_unat_eq_iff [THEN iffD2])
  moreover have "st_bytes n (d + 1) (ld_bytes n m' (s + 1)) m x =
      (if unat (x - (d + 1)) < n then m' (s + 1 + (x - (d + 1))) else m x)"
    using Suc by simp
  moreover have "unat (x - (d + 1)) = unat (x - d) - 1" if "x \<noteq> d"
  proof -
    have "x - (d + 1) = (x - d) - 1" by simp
    then show ?thesis using that by (metis unat_minus_one right_minus_eq)
  qed
  moreover have "unat (x - d) = 0 \<longleftrightarrow> x = d" by (metis unat_eq_zero right_minus_eq)
  ultimately show ?case
    by (cases "x = d") (auto simp only: st_bytes.simps fun_upd_apply if_True diff_self add_0_right unsigned_0, auto simp: algebra_simps)
qed simp

lemma st32_copied: "st32 d (ld32 m s) m = copied d s 4 m"
proof
  fix x
  have "unat (ld32 m s) = ld_bytes 4 m s"
    using ld_bytes_bound [of 4 m s] by (simp add: ld32_def unat_of_nat del: ld_bytes.simps)
  then show "st32 d (ld32 m s) m x = copied d s 4 m x"
    using st_ld_copied [of 4 d m s m x]
    by (simp add: st32_def copied_def word_less_nat_alt del: st_bytes.simps ld_bytes.simps)
qed

lemma st8_copied: "st8 d (ld8 m s) m = copied d s 1 m"
  by (rule ext) (auto simp: st8_apply ld8_def copied_def)

lemma copied_chain:
  assumes "k \<le> n" "n \<le> d - s"
  shows "copied (d + k) (s + k) (n - k) (copied d s k m) = copied d s n m"
proof
  fix x
  define y where "y = x - d"
  define e where "e = d - s"
  have x: "x - (d + k) = y - k" "s + k + (x - (d + k)) = s + y" "s + y - d = y - e"
    by (simp_all add: y_def e_def)
  have k: "y < k \<Longrightarrow> \<not> y - k < n - k" "k \<le> y \<Longrightarrow> y - k < n - k \<longleftrightarrow> y < n"
    "\<lbrakk>k \<le> y; y < n\<rbrakk> \<Longrightarrow> \<not> y - e < k"
    using assms unsigned_less [of y, where ?'a = nat] unsigned_less [of n, where ?'a = nat]
      unsigned_less [of e, where ?'a = nat] unfolding e_def [symmetric]
    by (auto simp: word_less_nat_alt word_le_nat_alt unat_sub_if')
  have "copied (d + k) (s + k) (n - k) (copied d s k m) x =
      (if y - k < n - k then (if y - e < k then m (s + (y - e)) else m (s + y))
       else if y < k then m (s + y) else m x)"
    unfolding copied_def x(2) unfolding x(1,3) y_def [symmetric] ..
  also have "\<dots> = (if y < n then m (s + y) else m x)"
    using k assms(1) by (cases "y < k") (auto simp: not_less)
  finally show "copied (d + k) (s + k) (n - k) (copied d s k m) x = copied d s n m x"
    by (simp add: copied_def y_def)
qed

lemma copy_words_bytes:
  assumes "n \<le> d - s"
  shows "(case copy_words d s n m of (d', s', n', m') \<Rightarrow> copy_bytes d' s' n' m') = copied d s n m"
proof -
  have bytes: "n \<le> d - s \<Longrightarrow> copy_bytes d s n m = copied d s n m" for d s n m
  proof (induction d s n m rule: copy_bytes.induct)
    case (1 d s n m)
    show ?case
    proof (cases "0 < n")
      case True
      then have n: "1 \<le> n" "n - 1 \<le> n" by (simp_all add: word_le_nat_alt word_less_nat_alt unat_sub_if')
      then have "n - 1 \<le> d + 1 - (s + 1)" using "1.prems" by simp
      with 1 True have "copy_bytes d s n m = copied (d + 1) (s + 1) (n - 1) (st8 d (ld8 m s) m)"
        by (subst copy_bytes.simps) simp
      then show ?thesis using copied_chain [OF n(1) "1.prems"] by (simp only: st8_copied)
    next
      case False
      then have "n = 0" by (simp add: word_gt_0)
      then show ?thesis by (subst copy_bytes.simps) (simp add: copied_def)
    qed
  qed
  from assms show ?thesis
  proof (induction d s n m rule: copy_words.induct)
    case (1 d s n m)
    show ?case
    proof (cases "4 \<le> n")
      case True
      then have "n - 4 \<le> n" by (simp add: word_le_nat_alt unat_sub_if')
      then have "n - 4 \<le> d + 4 - (s + 4)" using "1.prems" by simp
      with 1 True have "(case copy_words d s n m of (d', s', n', m') \<Rightarrow> copy_bytes d' s' n' m') =
          copied (d + 4) (s + 4) (n - 4) (st32 d (ld32 m s) m)"
        by (subst copy_words.simps) simp
      then show ?thesis using copied_chain [OF True "1.prems"] by (simp only: st32_copied)
    next
      case False
      then show ?thesis using bytes [OF "1.prems"] by (subst copy_words.simps) simp
    qed
  qed
qed

text \<open>
  Copying word by word is the string function \<open>memcpy\<close>, for blocks where the destination does
  not start inside the source.
\<close>

lemma liballoc_memcpy_copied: "n \<le> d - s \<Longrightarrow> liballoc_memcpy d s n m = copied d s n m"
  unfolding liballoc_memcpy_def by (rule copy_words_bytes)

lemma liballoc_memcpy_memcpy: "n \<le> d - s \<Longrightarrow> liballoc_memcpy d s n m = snd (memcpy d s n m)"
  by (simp add: liballoc_memcpy_copied memcpy_copied)

section \<open>Filling\<close>

lemma unat_index: "unat (ucast (i :: u32) :: u64) = unat i" "unat (i :: u32) < 2 ^ 32"
  using unsigned_less [of i, where ?'a = nat] by (simp_all add: unsigned_ucast_eq take_bit_nat_eq_self)

lemma memset_index_fills:
  assumes "unat n < 2 ^ 32" "unat i \<le> unat n"
  shows "liballoc_memset_loop p c i n m = Some (filled (p + ucast i) c (n - ucast i) m)"
  using assms(2)
proof (induction "unat n - unat i" arbitrary: i m)
  case 0
  note i = unat_index(1) [of i]
  then have "ucast i = n" using 0 by (simp add: word_unat_eq_iff)
  then show ?case by (subst liballoc_memset_loop.simps) (simp add: filled_def)
next
  case (Suc k)
  note i = unat_index(1) [of i]
  have lt: "unat i < unat n" using Suc.hyps(2) by simp
  then have next_i: "unat (i + 1) = Suc (unat i)" using assms(1) by (simp add: unat_word_ariths)
  have j: "unat (ucast (i + 1) :: u64) = Suc (unat i)"
    using next_i by (simp only: unat_index(1))
  have e: "(ucast (i + 1) :: u64) = ucast i + 1"
    using i j lt unsigned_less [of n, where ?'a = nat] by (simp add: word_unat_eq_iff unat_word_ariths)
  have "ucast i < n" using lt i by (simp add: word_less_nat_alt)
  then have "liballoc_memset_loop p c i n m =
      liballoc_memset_loop p c (i + 1) n (st8 (p + ucast i) c m)"
    by (subst liballoc_memset_loop.simps) simp
  also have "\<dots> = Some (filled (p + ucast (i + 1)) c (n - ucast (i + 1)) (st8 (p + ucast i) c m))"
    using Suc next_i lt by (intro Suc.hyps) simp_all
  also have "\<dots> = Some (filled (p + ucast i) c (n - ucast i) m)"
  proof -
    have nz: "n - ucast i \<noteq> 0" using lt i by auto
    have "filled (p + ucast (i + 1)) c (n - ucast (i + 1)) (st8 (p + ucast i) c m) x =
        filled (p + ucast i) c (n - ucast i) m x" for x
    proof -
      have "x - (p + ucast (i + 1)) = (x - (p + ucast i)) - 1" "n - ucast (i + 1) = (n - ucast i) - 1"
        by (simp_all only: e) (simp_all add: algebra_simps)
      note eqs = this
      show ?thesis
        using word_less_pred [OF nz, of "x - (p + ucast i)"] unfolding filled_def eqs by (auto simp: st8_apply)
    qed
    then show ?thesis by auto
  qed
  finally show ?case .
qed

lemma liballoc_memset_fills:
  "unat n < 2 ^ 32 \<Longrightarrow> liballoc_memset p c n m = Some (filled p (ucast c) n m)"
  unfolding liballoc_memset_def using memset_index_fills [of n 0 p "ucast c" m] by simp

text \<open>With a length of 4 GiB or more the 32-bit index never reaches the end.\<close>

lemma liballoc_memset_endless:
  assumes "2 ^ 32 \<le> unat n"
  shows "liballoc_memset p c n m = None"
proof -
  have short: "unat n' < 2 ^ 32" if loops: "liballoc_memset_loop p d i n' m = Some r" for p d i n' m r
  proof (rule liballoc_memset_loop.raw_induct [where P = "\<lambda>p d i n' m r. unat n' < 2 ^ 32", OF _ loops])
    fix loop p d and i :: u32 and n' :: u64 and m r
    assume IH: "\<And>p d i n' m r. loop p d i n' m = Some r \<Longrightarrow> unat n' < 2 ^ 32"
      and eq: "(if ucast i < n' then loop p d (i + 1) n' (st8 (p + ucast i) d m) else Some m) = Some r"
    show "unat n' < 2 ^ 32"
    proof (cases "ucast i < n'")
      case True
      with eq have "loop p d (i + 1) n' (st8 (p + ucast i) d m) = Some r" by (simp only: if_True)
      then show ?thesis by (rule IH)
    next
      case False
      then have "unat n' \<le> unat i" unfolding not_less word_le_nat_alt unat_index(1) .
      then show ?thesis using unat_index(2) [of i] by (rule le_less_trans)
    qed
  qed
  show ?thesis
    unfolding liballoc_memset_def using assms short [of p "ucast c" 0 n m]
    by (cases "liballoc_memset_loop p (ucast c) 0 n m") auto
qed

section \<open>Writing into an allocation\<close>

lemma header_cong:
  assumes "\<And>i. i < 40 \<Longrightarrow> m' (p + of_nat i) = m (p + of_nat i)"
  shows "min_prev m' p = min_prev m p" "min_next m' p = min_next m p" "min_block m' p = min_block m p"
    "min_magic m' p = min_magic m p" "min_size m' p = min_size m p"
    "maj_prev m' p = maj_prev m p" "maj_next m' p = maj_next m p" "maj_pages m' p = maj_pages m p"
    "maj_size m' p = maj_size m p" "maj_usage m' p = maj_usage m p" "maj_first m' p = maj_first m p"
proof -
  have w: "ld64 m' (p + of_nat u) = ld64 m (p + of_nat u)" if "u + 8 \<le> 40" for u
    using that assms [of "u + i" for i] by (intro ld64_cong) (simp add: add.assoc)
  have h: "ld32 m' (p + of_nat u) = ld32 m (p + of_nat u)" if "u + 4 \<le> 40" for u
    using that assms [of "u + i" for i] by (intro ld32_cong) (simp add: add.assoc)
  show "min_prev m' p = min_prev m p" "min_next m' p = min_next m p" "min_block m' p = min_block m p"
    "min_magic m' p = min_magic m p" "min_size m' p = min_size m p"
    "maj_prev m' p = maj_prev m p" "maj_next m' p = maj_next m p" "maj_pages m' p = maj_pages m p"
    "maj_size m' p = maj_size m p" "maj_usage m' p = maj_usage m p" "maj_first m' p = maj_first m p"
    using w [of 0] w [of 8] w [of 16] w [of 32] h [of 16] h [of 20] h [of 24] h [of 28]
    by (simp_all add: minor_fields major_fields)
qed

text \<open>The bytes of two different allocations are different bytes.\<close>

lemma payload_apart:
  assumes "spaced 40 bs hi" "hi < 2 ^ 32" "b \<in> set bs" "c \<in> set bs" "b \<noteq> c" "i < snd b" "j < snd c"
  shows "bptr maj b + 40 + of_nat i \<noteq> bptr maj c + 40 + of_nat j"
proof -
  obtain us ws where bs: "bs = us @ b # ws" using split_list [OF assms(3)] by blast
  have "fst b + 40 + i \<noteq> fst c + 40 + j"
  proof (cases "c \<in> set us")
    case True
    then show ?thesis using spaced_before [of 40 us "b # ws" hi c b] assms(1,7) bs by simp
  next
    case False
    then have "fst b + 40 + snd b \<le> fst c"
      using spaced_before [of 40 "us @ [b]" ws hi b c] assms bs by auto
    then show ?thesis using assms(6) by simp
  qed
  then show ?thesis
    using payload_byte(3) [OF assms(1,2,3,6), of maj] payload_byte(3) [OF assms(1,2,4,7), of maj] by metis
qed

text \<open>
  A write that touches only the bytes of the allocation \<open>y\<close> keeps the block, the bytes of the
  other allocations, and everything outside.
\<close>

lemma payload_write:
  assumes blk: "block m maj hi bs" and y: "y \<in> set bs"
    and same: "\<And>a. (\<And>j. j < snd y \<Longrightarrow> a \<noteq> bptr maj y + 40 + of_nat j) \<Longrightarrow> m' a = m a"
  shows "block m' maj hi bs"
    "b \<in> set bs \<Longrightarrow> b \<noteq> y \<Longrightarrow> i < snd b \<Longrightarrow> m' (bptr maj b + 40 + of_nat i) = m (bptr maj b + 40 + of_nat i)"
    "maj_next m' maj = maj_next m maj" "maj_prev m' maj = maj_prev m maj"
    "hi \<le> unat (a - maj) \<Longrightarrow> m' a = m a"
proof -
  have sp: "spaced 40 bs hi" and hi: "hi < 2 ^ 32" using blk by (simp_all add: block_def)
  obtain us ws where bs: "bs = us @ y # ws" using split_list [OF y] by blast
  note D = spaced_disj_byte [OF sp [unfolded bs] hi]
  have mj: "m' (maj + of_nat i) = m (maj + of_nat i)" if "i < 40" for i
    using disj_neq [OF D(1), of _ i 0] that by (intro same) simp
  have mn: "m' (bptr maj b + of_nat i) = m (bptr maj b + of_nat i)" if "b \<in> set bs" "i < 40" for b i
    using disj_neq [OF D(2), of _ b i 0] that bs by (intro same) simp
  note M = header_cong [of m' maj m, OF mj]
  have N: "same_body m m' (bptr maj b)" "min_prev m' (bptr maj b) = min_prev m (bptr maj b)"
    "min_next m' (bptr maj b) = min_next m (bptr maj b)" if "b \<in> set bs" for b
    using header_cong [of m' "bptr maj b" m] mn [OF that] by (simp_all add: same_body_def)
  have "linked m' maj 0 bs 0"
    using blk N by (intro linked_same [of m maj 0 bs 0 m']) (simp_all add: block_def)
  then show "block m' maj hi bs" using blk M by (simp add: block_def)
  show "maj_next m' maj = maj_next m maj" "maj_prev m' maj = maj_prev m maj" using M by simp_all
  show "m' (bptr maj b + 40 + of_nat i) = m (bptr maj b + 40 + of_nat i)" if "b \<in> set bs" "b \<noteq> y" "i < snd b"
    using payload_apart [OF sp hi that(1) y that(2,3)] by (intro same)
  show "m' a = m a" if a: "hi \<le> unat (a - maj)"
  proof (rule same)
    fix j assume j: "j < snd y"
    have "fst y + 40 + snd y \<le> hi" using spaced_bounds [OF sp y] by simp
    then show "a \<noteq> bptr maj y + 40 + of_nat j" using payload_byte(3) [OF sp hi y j, of maj] a j by auto
  qed
qed

text \<open>The same for a write inside the bytes a pointer serves: the pointer still serves them.\<close>

lemma serves_write:
  assumes blk: "block m maj hi bs" and y: "y \<in> set bs" and sv: "serves m maj y N q"
    and same: "\<And>a. N \<le> unat (a - q) \<Longrightarrow> m' a = m a"
  shows "block m' maj hi bs" "serves m' maj y N q"
    "b \<in> set bs \<Longrightarrow> b \<noteq> y \<Longrightarrow> i < snd b \<Longrightarrow> m' (bptr maj b + 40 + of_nat i) = m (bptr maj b + 40 + of_nat i)"
    "maj_next m' maj = maj_next m maj" "maj_prev m' maj = maj_prev m maj"
    "hi \<le> unat (a - maj) \<Longrightarrow> m' a = m a"
proof -
  obtain k where k: "16 \<le> k" "k \<le> 31" "q = bptr maj y + 40 + of_nat k" "k + N \<le> snd y"
    using sv by (auto simp: serves_def)
  have N: "N < 2 ^ 32" using bptr_unat(4) [OF blk y] blk k(4) by (simp add: block_def)
  have off: "m' a = m a" if a: "\<And>j. j < snd y \<Longrightarrow> a \<noteq> bptr maj y + 40 + of_nat j" for a
  proof (rule same, rule ccontr)
    assume "\<not> N \<le> unat (a - q)"
    then have "k + unat (a - q) < snd y" using k(4) by simp
    moreover have "a = bptr maj y + 40 + of_nat (k + unat (a - q))" by (simp add: k(3))
    ultimately show False using a by blast
  qed
  note P = payload_write [OF blk y off]
  show "block m' maj hi bs" "maj_next m' maj = maj_next m maj" "maj_prev m' maj = maj_prev m maj"
    "b \<in> set bs \<Longrightarrow> b \<noteq> y \<Longrightarrow> i < snd b \<Longrightarrow> m' (bptr maj b + 40 + of_nat i) = m (bptr maj b + 40 + of_nat i)"
    "hi \<le> unat (a - maj) \<Longrightarrow> m' a = m a"
    using P by blast+
  have "N \<le> unat ((q - ALIGN_INFO) - q)" using N by (simp add: ALIGN_INFO_def)
  then have "m' (q - ALIGN_INFO) = m (q - ALIGN_INFO)" by (rule same)
  then show "serves m' maj y N q" using sv by (simp add: serves_def UNALIGN_def ld8_def)
qed

lemma one_block_write:
  assumes ob: "one_block s maj hi bs" and "y \<in> set bs" "serves (mem s) maj y N q"
    and "\<And>a. N \<le> unat (a - q) \<Longrightarrow> m' a = mem s a"
  shows "one_block (s\<lparr>mem := m'\<rparr>) maj hi bs"
proof -
  have blk: "block (mem s) maj hi bs" using ob by (simp add: one_block_def)
  note W = serves_write [OF blk assms(2-4)]
  show ?thesis using ob W(1,4,5) by (simp add: one_block_def)
qed

section \<open>Zeroed memory\<close>



text \<open>
  The size is cut to an \<open>int\<close> first: a product of \<open>2 ^ 32\<close> is an allocation of no byte at
  all, without a word about it.
\<close>

lemma kcalloc_truncates: "kcalloc 0x10000 0x10000 s = kcalloc 0 1 s"
  by (simp add: kcalloc_def)

section \<open>Growing an allocation\<close>

lemma unlock_locked:
  "locked (liballoc_lock_var s) = 0 \<Longrightarrow>
     liballoc_unlock (s\<lparr>liballoc_lock_var := (liballoc_lock_var s)\<lparr>locked := 1\<rparr>\<rparr>) = s"
  by (cases s) (simp add: liballoc_unlock_def spinlock_release_def sync_lock_release_def)

lemma krealloc_grows:
  assumes "locked (liballoc_lock_var s) = 0" "p \<noteq> 0" "UNALIGN p (mem s) = X + 40"
    and "min_magic (mem s) X = LIBALLOC_MAGIC" "unat (min_req_size (mem s) X) = n" "n < unat req"
    and "kmalloc req s = Some (q, s2)"
    and "kfree p (s2\<lparr>mem := liballoc_memcpy q p (of_nat n) (mem s2)\<rparr>) = Some (Ret () s3)"
  shows "krealloc p req s = Some (Ret q s3)"
proof -
  let ?s1 = "s\<lparr>liballoc_lock_var := (liballoc_lock_var s)\<lparr>locked := 1\<rparr>\<rparr>"
  have lock: "liballoc_lock s = Some ?s1" using assms(1) by (simp add: liballoc_lock_def acquire_eq)
  have X: "X + 40 - sizeof_minor = X" by (simp add: sizeof_minor_def)
  have n: "ucast (min_req_size (mem s) X) = (of_nat n :: u64)"
    using assms(5) by (metis of_nat_unat)
  have "unat (of_nat n :: u64) = n" using assms(6) unsigned_less [of req, where ?'a = nat] by (intro unat_of_nat_small) simp
  then have "\<not> req \<le> of_nat n" "req \<noteq> 0" using assms(6) by (auto simp: word_le_nat_alt)
  then show ?thesis
    using assms unlock_locked [OF assms(1)] by (simp add: krealloc_def lock X Let_def n)
qed

text \<open>The bytes served from two allocations of a block do not overlap.\<close>

lemma served_apart:
  assumes blk: "block m maj hi bs" and x: "x \<in> set bs" "serves m1 maj x n p"
    and y: "y \<in> set bs" "serves m2 maj y N q" and "x \<noteq> y" "n < N"
  shows "n \<le> unat (q - p)"
proof (rule ccontr)
  have sp: "spaced 40 bs hi" "hi < 2 ^ 32" using blk by (simp_all add: block_def)
  obtain k where k: "p = bptr maj x + 40 + of_nat k" "k + n \<le> snd x" using x(2) by (auto simp: serves_def)
  obtain l where l: "q = bptr maj y + 40 + of_nat l" "l + N \<le> snd y" using y(2) by (auto simp: serves_def)
  assume "\<not> n \<le> unat (q - p)"
  then have "k + unat (q - p) < snd x" "l < snd y" using k(2) l(2) \<open>n < N\<close> by simp_all
  from payload_apart [OF sp x(1) y(1) \<open>x \<noteq> y\<close> this, of maj] show False by (simp add: k(1) flip: l(1))
qed

text \<open>A pointer that serves bytes of an allocation whose bytes stay serves them still.\<close>

lemma serves_cong:
  assumes "serves m maj x n p" "\<And>j. j < snd x \<Longrightarrow> m' (bptr maj x + 40 + of_nat j) = m (bptr maj x + 40 + of_nat j)"
  shows "serves m' maj x n p" "i < n \<Longrightarrow> m' (p + of_nat i) = m (p + of_nat i)"
proof -
  obtain k where k: "16 \<le> k" "k \<le> 31" "p = bptr maj x + 40 + of_nat k" "k + n \<le> snd x"
    using assms(1) by (auto simp: serves_def)
  have "p - ALIGN_INFO = bptr maj x + 40 + of_nat (k - 16)"
    using k(1) by (simp add: k(3) ALIGN_INFO_def of_nat_diff)
  moreover have "k - 16 < snd x" using k by simp
  ultimately have "m' (p - ALIGN_INFO) = m (p - ALIGN_INFO)" using assms(2) by simp
  then show "serves m' maj x n p" using assms(1) by (simp add: serves_def UNALIGN_def ld8_def)
  show "m' (p + of_nat i) = m (p + of_nat i)" if "i < n"
    using assms(2) [of "k + i"] k that by (simp add: add.assoc)
qed

text \<open>Copying the bytes served from one allocation into another of the block.\<close>

lemma copy_between:
  assumes blk: "block m maj hi bs" and x: "x \<in> set bs" "serves m maj x n p"
    and y: "y \<in> set bs" "serves m maj y N q" and xy: "x \<noteq> y" "n < N"
  defines "m' \<equiv> liballoc_memcpy q p (of_nat n) m"
  shows "N \<le> unat (a - q) \<Longrightarrow> m' a = m a" "i < n \<Longrightarrow> m' (q + of_nat i) = m (p + of_nat i)"
    "serves m' maj x n p" "serves m' maj y N q"
    "b \<in> set bs \<Longrightarrow> b \<noteq> y \<Longrightarrow> j < snd b \<Longrightarrow> m' (bptr maj b + 40 + of_nat j) = m (bptr maj b + 40 + of_nat j)"
proof -
  have "n < 2 ^ 64" using x(2) bptr_unat(4) [OF blk x(1)] blk by (auto simp: serves_def block_def)
  then have n: "unat (of_nat n :: u64) = n" by (rule unat_of_nat_small)
  have m': "m' = copied q p (of_nat n) m"
    using served_apart [OF blk x y xy] n by (simp add: m'_def liballoc_memcpy_copied word_le_nat_alt)
  have same: "m' a = m a" if "N \<le> unat (a - q)" for a
    using that xy(2) n by (simp add: m' copied_def word_less_nat_alt)
  then show "N \<le> unat (a - q) \<Longrightarrow> m' a = m a" .
  show "m' (q + of_nat i) = m (p + of_nat i)" if "i < n"
    using that n by (simp add: m' copied_def word_less_nat_alt unat_of_nat_le [THEN le_less_trans])
  have W: "serves m' maj y N q" "\<And>b j. b \<in> set bs \<Longrightarrow> b \<noteq> y \<Longrightarrow> j < snd b \<Longrightarrow>
      m' (bptr maj b + 40 + of_nat j) = m (bptr maj b + 40 + of_nat j)"
    using serves_write(2,3) [OF blk y same] by blast+
  then show "serves m' maj y N q" "b \<in> set bs \<Longrightarrow> b \<noteq> y \<Longrightarrow> j < snd b \<Longrightarrow>
      m' (bptr maj b + 40 + of_nat j) = m (bptr maj b + 40 + of_nat j)" by blast+
  show "serves m' maj x n p" using W(2) [OF x(1) xy(1)] by (rule serves_cong(1) [OF x(2)])
qed

lemma swap_element:
  assumes "distinct (as' @ y # cs')" "distinct (as @ x # cs)" "as @ x # cs = as' @ cs'"
    "as' @ y # cs' = us @ x # ws"
  obtains us' ws' where "us @ ws = us' @ y # ws'" "as @ cs = us' @ ws'"
proof -
  have ne: "x \<noteq> y" using assms(1,3) by auto (metis Un_iff in_set_conv_decomp set_append)
  have rest: "us @ ws = remove1 x (as' @ y # cs')" "as @ cs = remove1 x (as' @ cs')"
    using assms(1,2) unfolding assms(4) assms(3) [symmetric] by (simp_all add: remove1_append)
  show thesis
  proof (cases "x \<in> set as'")
    case True
    with rest show thesis by (intro that [of "remove1 x as'" cs']) (simp_all add: remove1_append)
  next
    case False
    with rest ne show thesis
      by (intro that [of as' "remove1 x cs'"]) (simp_all add: remove1_append)
  qed
qed



end
