(* ===== verification/HeapBlocks.thy ===== *)
theory HeapBlocks
  imports HeapCopy
begin

text \<open>
  Heaps of any number of blocks. A heap is a list of regions, each a block of whole pages with
  its list of allocations; in memory the regions form a doubly linked list (\<open>chained\<close>) and do
  not overlap. This theory follows \<open>kmalloc\<close> through that list: it takes a gap in one of the
  regions when there is one, whatever region the search starts from, and otherwise appends a
  region of fresh pages.
\<close>

section \<open>Regions\<close>

type_synonym region = "u64 \<times> nat \<times> alloc list"

abbreviation rbase :: "region \<Rightarrow> u64" where "rbase r \<equiv> fst r"
abbreviation rsize :: "region \<Rightarrow> nat" where "rsize r \<equiv> fst (snd r)"
abbreviation rlist :: "region \<Rightarrow> alloc list" where "rlist r \<equiv> snd (snd r)"

definition region_ok :: "mem \<Rightarrow> region \<Rightarrow> bool" where
  "region_ok m r \<longleftrightarrow> block m (rbase r) (rsize r) (rlist r) \<and> aligned (rbase r) \<and>
     4096 * unat (maj_pages m (rbase r)) = rsize r"

definition root_of :: "region list \<Rightarrow> u64 \<Rightarrow> u64" where
  "root_of rs nx = (if rs = [] then nx else rbase (hd rs))"

definition end_of :: "u64 \<Rightarrow> region list \<Rightarrow> u64" where
  "end_of pv rs = (if rs = [] then pv else rbase (last rs))"

primrec chained :: "mem \<Rightarrow> u64 \<Rightarrow> region list \<Rightarrow> u64 \<Rightarrow> bool" where
  "chained m pv [] nx \<longleftrightarrow> True"
| "chained m pv (r # rs) nx \<longleftrightarrow>
     region_ok m r \<and> maj_prev m (rbase r) = pv \<and> maj_next m (rbase r) = root_of rs nx \<and>
     chained m (rbase r) rs nx"

definition region_disj :: "region \<Rightarrow> region \<Rightarrow> bool" where
  "region_disj r r' \<longleftrightarrow> disj (rbase r) (rsize r) (rbase r') (rsize r')"

definition heap_inv :: "'a heap_state_scheme \<Rightarrow> region list \<Rightarrow> bool" where
  "heap_inv s rs \<longleftrightarrow> chained (mem s) 0 rs 0 \<and> sorted_wrt region_disj rs \<and>
     l_memRoot s = root_of rs 0 \<and> (l_bestBet s = 0 \<or> l_bestBet s \<in> rbase ` set rs)"

definition heap_ok :: "'a heap_state_scheme \<Rightarrow> region list \<Rightarrow> bool" where
  "heap_ok s rs \<longleftrightarrow> heap_inv s rs \<and> locked (liballoc_lock_var s) = 0"

lemma region_disj_sym: "region_disj r r' \<longleftrightarrow> region_disj r' r"
  by (auto simp: region_disj_def disj_def)

lemma chained_append:
  "chained m pv (as @ rs) nx \<longleftrightarrow> chained m pv as (root_of rs nx) \<and> chained m (end_of pv as) rs nx"
proof (induction as arbitrary: pv)
  case (Cons a as)
  then show ?case by (cases as) (auto simp: root_of_def end_of_def)
qed (simp add: end_of_def)

lemma chained_region: "chained m pv rs nx \<Longrightarrow> r \<in> set rs \<Longrightarrow> region_ok m r"
  by (induction rs arbitrary: pv) auto

lemma region_nonempty: "region_ok m r \<Longrightarrow> 40 \<le> rsize r \<and> rbase r \<noteq> 0"
  using spaced_le [of 40 "rlist r" "rsize r"] unfolding region_ok_def block_def by blast

section \<open>Other regions\<close>

text \<open>The bytes of a region decide that it is well-formed and where it links to.\<close>

lemma region_cong:
  assumes ok: "region_ok m r" and same: "\<And>i. i < rsize r \<Longrightarrow> m' (rbase r + of_nat i) = m (rbase r + of_nat i)"
  shows "region_ok m' r" "maj_prev m' (rbase r) = maj_prev m (rbase r)" "maj_next m' (rbase r) = maj_next m (rbase r)"
    "\<And>b j. b \<in> set (rlist r) \<Longrightarrow> j < snd b \<Longrightarrow>
       m' (bptr (rbase r) b + 40 + of_nat j) = m (bptr (rbase r) b + 40 + of_nat j)"
proof -
  have blk: "block m (rbase r) (rsize r) (rlist r)" using ok by (simp add: region_ok_def)
  have at: "m' (bptr (rbase r) b + of_nat i) = m (bptr (rbase r) b + of_nat i)"
    if b: "b \<in> set (rlist r)" "i < 40 + snd b" for b i
  proof -
    have "fst b + i < rsize r" using bptr_unat(4) [OF blk b(1)] b(2) by simp
    from same [OF this] show ?thesis by (simp add: bptr_def add.assoc)
  qed
  have M: "min_prev m' (rbase r) = min_prev m (rbase r) \<and> maj_prev m' (rbase r) = maj_prev m (rbase r) \<and>
      maj_next m' (rbase r) = maj_next m (rbase r) \<and> maj_pages m' (rbase r) = maj_pages m (rbase r) \<and>
      maj_size m' (rbase r) = maj_size m (rbase r) \<and> maj_usage m' (rbase r) = maj_usage m (rbase r) \<and>
      maj_first m' (rbase r) = maj_first m (rbase r)"
    using region_nonempty [OF ok] by (intro conjI header_cong same) simp_all
  have N: "same_body m m' (bptr (rbase r) b)" "min_prev m' (bptr (rbase r) b) = min_prev m (bptr (rbase r) b)"
    "min_next m' (bptr (rbase r) b) = min_next m (bptr (rbase r) b)" if "b \<in> set (rlist r)" for b
    using header_cong [of m' "bptr (rbase r) b" m] at [OF that] by (simp_all add: same_body_def)
  have "linked m' (rbase r) 0 (rlist r) 0"
    using blk N by (intro linked_same [of m "rbase r" 0 "rlist r" 0 m']) (simp_all add: block_def)
  then show "region_ok m' r" "maj_prev m' (rbase r) = maj_prev m (rbase r)" "maj_next m' (rbase r) = maj_next m (rbase r)"
    using ok M by (simp_all add: region_ok_def block_def)
  show "m' (bptr (rbase r) b + 40 + of_nat j) = m (bptr (rbase r) b + 40 + of_nat j)"
    if "b \<in> set (rlist r)" "j < snd b" for b j
    using at [OF that(1), of "40 + j"] that(2) by (simp add: add.assoc)
qed

lemma region_far:
  assumes "region_disj r r'" "i < rsize r'"
  shows "rsize r \<le> unat (rbase r' + of_nat i - rbase r)"
proof (rule ccontr)
  let ?j = "unat (rbase r' + of_nat i - rbase r)"
  assume "\<not> rsize r \<le> ?j"
  then have "rbase r + of_nat ?j \<noteq> rbase r' + of_nat i"
    using assms by (intro disj_neq) (simp_all only: region_disj_def not_le)
  then show False by simp
qed

lemma chained_cong:
  assumes "chained m pv rs nx"
    and "\<And>r i. r \<in> set rs \<Longrightarrow> i < rsize r \<Longrightarrow> m' (rbase r + of_nat i) = m (rbase r + of_nat i)"
  shows "chained m' pv rs nx"
  using assms
proof (induction rs arbitrary: pv)
  case (Cons r rs)
  then have "region_ok m r" "\<And>i. i < rsize r \<Longrightarrow> m' (rbase r + of_nat i) = m (rbase r + of_nat i)" by simp_all
  note R = region_cong [OF this]
  from Cons R show ?case by simp
qed simp

text \<open>An edit inside one region.\<close>

lemma chained_update:
  assumes ch: "chained m pv (as @ r # cs) nx" and sorted: "sorted_wrt region_disj (as @ r # cs)"
    and r': "region_ok m' r'" "rbase r' = rbase r"
    and links: "maj_next m' (rbase r) = maj_next m (rbase r)" "maj_prev m' (rbase r) = maj_prev m (rbase r)"
    and out: "\<And>x. rsize r \<le> unat (x - rbase r) \<Longrightarrow> m' x = m x"
  shows "chained m' pv (as @ r' # cs) nx"
proof -
  have far: "m' (rbase q + of_nat i) = m (rbase q + of_nat i)" if "q \<in> set as \<or> q \<in> set cs" "i < rsize q" for q i
  proof (rule out, rule region_far)
    show "region_disj r q" using that(1) sorted region_disj_sym by (auto simp: sorted_wrt_append)
  qed (rule that(2))
  from ch have old: "chained m pv as (root_of (r # cs) nx)" "chained m (rbase r) cs nx" by (simp_all add: chained_append)
  have "chained m' pv as (root_of (r # cs) nx)"
    by (rule chained_cong [OF old(1) far]) simp_all
  moreover have "chained m' (rbase r) cs nx" by (rule chained_cong [OF old(2) far]) simp_all
  moreover have "root_of (r' # cs) nx = root_of (r # cs) nx" using r'(2) by (simp add: root_of_def)
  ultimately show ?thesis using ch r' links by (simp add: chained_append)
qed

section \<open>The search through the blocks\<close>

definition fits_in :: "u64 \<Rightarrow> region \<Rightarrow> bool" where
  "fits_in sz r \<longleftrightarrow> has_gap 40 (rlist r) (rsize r) (40 + unat sz)"

text \<open>One turn of the loop on a block with a gap allocates there.\<close>

lemma search_here:
  assumes blk: "block (mem s) maj hi bs" and gap: "has_gap 40 bs hi (40 + unat sz)" and sz: "32 \<le> unat sz"
  shows "\<exists>p t. malloc_loop sz req maj flag best s = Some (p, liballoc_unlock t) \<and>
    allocated (s\<lparr>l_bestBet := l_bestBet t\<rparr>) maj hi bs sz p t \<and>
    (l_bestBet t = l_bestBet s \<or> l_bestBet t = maj)"
proof -
  have maj: "maj \<noteq> 0" and sp: "spaced 40 bs hi" and hi: "hi < 2 ^ 32" using blk by (simp_all add: block_def)
  have room: "used bs + (40 + unat sz) \<le> hi" using gap_used [OF sp gap] by (simp add: used_def)
  then have small: "unat sz + 40 < 2 ^ 64" using hi by simp
  have "unat (sz + sizeof_minor) = unat sz + 40"
    using small by (simp add: sizeof_minor_def unat_add_small)
  then have here: "\<not> free_space (mem s) maj < sz + sizeof_minor"
    using free_space_eq [OF blk] room by (simp add: word_less_nat_alt)
  let ?s1 = "if best < free_space (mem s) maj then s\<lparr>l_bestBet := maj\<rparr> else s"
  have s1: "mem ?s1 = mem s" "l_bestBet ?s1 = l_bestBet s \<or> l_bestBet ?s1 = maj"
    "?s1 = s\<lparr>l_bestBet := l_bestBet ?s1\<rparr>" by auto
  have "block (mem ?s1) maj hi bs" using blk s1(1) by simp
  from try_block_spec(1) [OF this sz small gap, of req] obtain p t
    where r: "try_block sz req maj ?s1 = Some (Some p, t)" "allocated ?s1 maj hi bs sz p t" by blast
  have c1: "case1 sz maj flag ?s1 = (Here maj, ?s1)"
    using here s1(1) by (simp only: case1_def s1(1) if_False)
  have loop: "malloc_loop sz req maj flag best s = Some (p, liballoc_unlock t)"
    by (subst malloc_loop.simps) (simp only: Let_def maj if_False c1 prod.case next_step.case r(1)
        Option.bind.simps option.case)
  have lb: "l_bestBet t = l_bestBet ?s1" by (rule allocated_fields(3) [OF r(2)])
  have "allocated (s\<lparr>l_bestBet := l_bestBet t\<rparr>) maj hi bs sz p t"
    unfolding lb s1(3) [symmetric] by (rule r(2))
  with loop s1(2) show ?thesis unfolding lb [symmetric] by blast
qed

text \<open>
  One turn on a block without one goes to the next block; after the last block it starts over
  at the root when the search began at the best bet, and appends a new block otherwise.
\<close>

definition appended ::
  "u64 \<Rightarrow> u64 \<Rightarrow> u64 \<Rightarrow> u64 \<Rightarrow> 'a heap_state_scheme \<Rightarrow> (u64 \<times> 'a heap_state_scheme) option \<Rightarrow> bool" where
  "appended sz req best maj s out \<longleftrightarrow>
     (case append_page sz maj s of (new, g) \<Rightarrow>
        if new = 0 then out = Some (malloc_failed sz g)
        else out = malloc_loop sz req new False best g \<or>
          out = Option.bind (try_block sz req new g) (\<lambda>(r, s3).
                 case r of
                   Some p \<Rightarrow> Some (p, liballoc_unlock s3)
                 | None \<Rightarrow>
                     (case case5 sz new False s3 of
                        (Continue maj'' bet, s4) \<Rightarrow> malloc_loop sz req maj'' bet best s4
                      | (_, s4) \<Rightarrow> Some (malloc_failed sz s4))))"

lemma search_next:
  assumes blk: "block (mem s) maj hi bs" and gap: "\<not> has_gap 40 bs hi (40 + unat sz)"
    and sz: "32 \<le> unat sz" "unat sz + 40 < 2 ^ 64"
  shows "\<exists>b best'. (b = l_bestBet s \<or> b = maj) \<and>
    (if maj_next (mem s) maj \<noteq> 0
     then malloc_loop sz req maj flag best s = malloc_loop sz req (maj_next (mem s) maj) flag best' (s\<lparr>l_bestBet := b\<rparr>)
     else if flag then malloc_loop sz req maj flag best s = malloc_loop sz req (l_memRoot s) False best' (s\<lparr>l_bestBet := b\<rparr>)
     else appended sz req best' maj (s\<lparr>l_bestBet := b\<rparr>) (malloc_loop sz req maj flag best s))"
proof -
  have maj: "maj \<noteq> 0" using blk by (simp add: block_def)
  define best' where "best' = (if best < free_space (mem s) maj then free_space (mem s) maj else best)"
  define b where "b = (if best < free_space (mem s) maj then maj else l_bestBet s)"
  define s1 where "s1 = s\<lparr>l_bestBet := b\<rparr>"
  have s1: "(if best < free_space (mem s) maj then s\<lparr>l_bestBet := maj\<rparr> else s) = s1" "mem s1 = mem s"
    "l_memRoot s1 = l_memRoot s" "b = l_bestBet s \<or> b = maj"
    by (auto simp: s1_def b_def)
  have body: "malloc_loop sz req maj flag best s =
    (case case1 sz maj flag s1 of
       (Break, s2) \<Rightarrow> Some (malloc_failed sz s2)
     | (Continue maj' bet, s2) \<Rightarrow> malloc_loop sz req maj' bet best' s2
     | (Here maj', s2) \<Rightarrow>
         Option.bind (try_block sz req maj' s2) (\<lambda>(r, s3).
           case r of
             Some p \<Rightarrow> Some (p, liballoc_unlock s3)
           | None \<Rightarrow>
               (case case5 sz maj' flag s3 of
                  (Continue maj'' bet, s4) \<Rightarrow> malloc_loop sz req maj'' bet best' s4
                | (_, s4) \<Rightarrow> Some (malloc_failed sz s4))))"
    by (subst malloc_loop.simps) (simp only: Let_def maj if_False s1(1) best'_def [symmetric])
  have "if maj_next (mem s) maj \<noteq> 0
     then malloc_loop sz req maj flag best s = malloc_loop sz req (maj_next (mem s) maj) flag best' s1
     else if flag then malloc_loop sz req maj flag best s = malloc_loop sz req (l_memRoot s) False best' s1
     else appended sz req best' maj s1 (malloc_loop sz req maj flag best s)"
  proof (cases "free_space (mem s) maj < sz + sizeof_minor")
    case True
    obtain new g where page: "append_page sz maj s1 = (new, g)" by fastforce
    consider "maj_next (mem s) maj \<noteq> 0" | "maj_next (mem s) maj = 0" "flag = True" | "maj_next (mem s) maj = 0" "flag = False"
      by blast
    then show ?thesis
      unfolding body by cases (hypsubst?, use True in \<open>simp add: case1_def s1(2,3) appended_def page\<close>)+
  next
    case False
    have "bs \<noteq> []"
    proof
      assume "bs = []"
      then have "hi - 40 < 40 + unat sz" "hi - 40 = unat (free_space (mem s) maj)"
        using gap free_space_eq [OF blk] by (simp_all add: used_def)
      moreover have "unat (sz + sizeof_minor) = unat sz + 40"
        using sz(2) by (simp add: sizeof_minor_def unat_add_small)
      ultimately show False using False by (simp add: word_less_nat_alt)
    qed
    then have tb: "try_block sz req maj s1 = Some (None, s1)"
      using try_block_spec(2) [of s1, OF _ sz gap] blk s1(2) by simp
    obtain new g where page: "append_page sz maj s1 = (new, g)" by fastforce
    consider "maj_next (mem s) maj \<noteq> 0" | "maj_next (mem s) maj = 0" "flag = True" | "maj_next (mem s) maj = 0" "flag = False"
      by blast
    then show ?thesis
      unfolding body by cases (hypsubst?, use False tb in \<open>simp add: case1_def case5_def s1(2,3) appended_def page\<close>)+
  qed
  then show ?thesis using s1(4) unfolding s1_def by blast
qed

text \<open>What a fresh block does for the search that appended it.\<close>

text \<open>The number of pages \<open>allocate_new_page\<close> asks for.\<close>

definition page_count :: "u32 \<Rightarrow> u32" where
  "page_count sz =
     (let st0 = sz + ucast sizeof_major + ucast sizeof_minor;
          st1 = (if st0 mod l_pageSize = 0 then st0 div l_pageSize else st0 div l_pageSize + 1)
      in if st1 < l_pageCount then l_pageCount else st1)"

lemma allocate_new_page_eq:
  "allocate_new_page sz s =
     (case liballoc_alloc (page_count sz) s of (maj, s1) \<Rightarrow>
        if maj = 0
        then (0, report (no_block_line (page_count sz)) (s1\<lparr>l_warningCount := l_warningCount s1 + 1\<rparr>))
        else
          let s2 = upd (set_maj_first maj 0 \<circ> set_maj_usage maj (ucast sizeof_major) \<circ>
                        set_maj_size maj (page_count sz * l_pageSize) \<circ> set_maj_pages maj (page_count sz) \<circ>
                        set_maj_next maj 0 \<circ> set_maj_prev maj 0) s1
          in (maj, s2\<lparr>l_allocated := l_allocated s2 + ucast (page_count sz * l_pageSize)\<rparr>))"
  by (simp only: allocate_new_page_def page_count_def Let_def)

lemma liballoc_alloc_bet:
  "liballoc_alloc n (s\<lparr>l_bestBet := b\<rparr>) = (case liballoc_alloc n s of (q, t) \<Rightarrow> (q, t\<lparr>l_bestBet := b\<rparr>))"
  by (simp add: liballoc_alloc_def pmm_request_pages_def Let_def)

lemma append_page_bet:
  "append_page sz maj (s\<lparr>l_bestBet := b\<rparr>) =
     (case append_page sz maj s of (new, g) \<Rightarrow> (new, g\<lparr>l_bestBet := b\<rparr>))"
proof -
  obtain q t where "liballoc_alloc (page_count (ucast sz)) s = (q, t)" by fastforce
  then show ?thesis
    by (cases "q = 0") (simp_all add: append_page_def allocate_new_page_eq liballoc_alloc_bet Let_def)
qed

lemma appended_result:
  assumes app: "appended sz req best maj s out" and page: "append_page sz maj s = (new, g)"
  shows "new = 0 \<Longrightarrow> out = Some (malloc_failed sz g)"
    "\<lbrakk>new \<noteq> 0; block (mem g) new hi []; 80 + unat sz \<le> hi; 32 \<le> unat sz\<rbrakk> \<Longrightarrow>
       \<exists>p t. out = Some (p, liballoc_unlock t) \<and> allocated (g\<lparr>l_bestBet := l_bestBet t\<rparr>) new hi [] sz p t \<and>
         (l_bestBet t = l_bestBet g \<or> l_bestBet t = new)"
proof -
  show "new = 0 \<Longrightarrow> out = Some (malloc_failed sz g)" using app page by (simp add: appended_def)
  assume new: "new \<noteq> 0" "block (mem g) new hi []" "80 + unat sz \<le> hi" "32 \<le> unat sz"
  have gap: "has_gap 40 [] hi (40 + unat sz)" using new(3) by simp
  have small: "unat sz + 40 < 2 ^ 64" using new(2,3) by (simp add: block_def)
  note D = app [unfolded appended_def page prod.case if_not_P [OF new(1)]]
  show "\<exists>p t. out = Some (p, liballoc_unlock t) \<and> allocated (g\<lparr>l_bestBet := l_bestBet t\<rparr>) new hi [] sz p t \<and>
      (l_bestBet t = l_bestBet g \<or> l_bestBet t = new)"
    using D
  proof (elim disjE, goal_cases)
    case 1
    from search_here [OF new(2) gap new(4), of req False best] show ?case unfolding 1 .
  next
    case 2
    from try_block_spec(1) [OF new(2,4) small gap, of req] obtain p t
      where r: "try_block sz req new g = Some (Some p, t)" "allocated g new hi [] sz p t" by blast
    with allocated_fields(3) [OF r(2)] 2 show ?case
      by (intro exI [of _ p] exI [of _ t]) simp
  qed
qed

section \<open>The whole search\<close>

text \<open>
  The outcome of the search: an allocation in one of the regions \<open>ts\<close> that can hold it, or in
  a fresh block when none can, or null when there is no fresh block either.
\<close>

definition found ::
  "'a heap_state_scheme \<Rightarrow> region list \<Rightarrow> bool \<Rightarrow> u64 \<Rightarrow> (u64 \<times> 'a heap_state_scheme) option \<Rightarrow> bool" where
  "found s rs here sz out \<longleftrightarrow>
     (if here
      then \<exists>r \<in> set rs. \<exists>p t. out = Some (p, liballoc_unlock t) \<and>
        allocated (s\<lparr>l_bestBet := l_bestBet t\<rparr>) (rbase r) (rsize r) (rlist r) sz p t \<and>
        (l_bestBet t = 0 \<or> l_bestBet t \<in> rbase ` set rs)
      else case append_page sz (rbase (last rs)) s of (new, g) \<Rightarrow>
        if new = 0
        then \<exists>b. out = Some (malloc_failed sz (g\<lparr>l_bestBet := b\<rparr>)) \<and> (b = 0 \<or> b \<in> rbase ` set rs)
        else \<forall>hi. block (mem g) new hi [] \<longrightarrow> 80 + unat sz \<le> hi \<longrightarrow>
          (\<exists>p t. out = Some (p, liballoc_unlock t) \<and> allocated (g\<lparr>l_bestBet := l_bestBet t\<rparr>) new hi [] sz p t \<and>
             (l_bestBet t = 0 \<or> l_bestBet t \<in> insert new (rbase ` set rs))))"

lemma found_bet:
  assumes "found (s\<lparr>l_bestBet := b\<rparr>) rs here sz out"
  shows "found s rs here sz out"
proof -
  obtain new g where page: "append_page sz (rbase (last rs)) s = (new, g)" by fastforce
  consider here | "\<not> here" "new = 0" | "\<not> here" "new \<noteq> 0" by blast
  then show ?thesis
    by cases (use assms in \<open>simp_all add: found_def append_page_bet page\<close>)
qed

lemma malloc_loop_finds:
  assumes sz: "32 \<le> unat sz" "unat sz + 40 < 2 ^ 64"
    and "heap_inv s rs" "rs = as @ cs" "cs \<noteq> []"
  shows "found s rs (\<exists>r \<in> set (if flag then rs else cs). fits_in sz r) sz
    (malloc_loop sz req (root_of cs 0) flag best s)"
  using assms(3-)
proof (induction "(if flag then length rs + 1 else 0) + length cs" arbitrary: flag as cs best s rule: less_induct)
  case less
  note inv = less.prems(1) [unfolded heap_inv_def]
  obtain r cs' where cs: "cs = r # cs'" using less.prems(3) by (cases cs) auto
  have r: "r \<in> set rs" using less.prems(2) cs by simp
  have ok: "region_ok (mem s) r" using chained_region [OF _ r] inv by blast
  then have blk: "block (mem s) (rbase r) (rsize r) (rlist r)" by (simp add: region_ok_def)
  have nx: "maj_next (mem s) (rbase r) = root_of cs' 0"
    using inv by (simp add: less.prems(2) cs chained_append)
  have root: "root_of cs 0 = rbase r" by (simp add: cs root_of_def)
  show ?case
  proof (cases "fits_in sz r")
    case True
    then have here: "\<exists>r \<in> set (if flag then rs else cs). fits_in sz r" using r cs by auto
    from search_here [OF blk _ sz(1), where flag = flag and req = req and best = best] True obtain p t where
      "malloc_loop sz req (rbase r) flag best s = Some (p, liballoc_unlock t)"
      "allocated (s\<lparr>l_bestBet := l_bestBet t\<rparr>) (rbase r) (rsize r) (rlist r) sz p t"
      "l_bestBet t = l_bestBet s \<or> l_bestBet t = rbase r" by (auto simp: fits_in_def)
    moreover from this(3) have "l_bestBet t = 0 \<or> l_bestBet t \<in> rbase ` set rs" using inv imageI [OF r, of fst] by metis
    ultimately show ?thesis
      unfolding found_def root if_P [OF here] by (intro bexI [OF _ r] exI [of _ p] exI [of _ t] conjI)
  next
    case False
    then have gap: "\<not> has_gap 40 (rlist r) (rsize r) (40 + unat sz)" by (simp add: fits_in_def)
    from search_next [OF blk gap sz, where flag = flag and req = req and best = best] obtain b best' where b: "b = l_bestBet s \<or> b = rbase r"
      and step: "if maj_next (mem s) (rbase r) \<noteq> 0
     then malloc_loop sz req (rbase r) flag best s = malloc_loop sz req (maj_next (mem s) (rbase r)) flag best' (s\<lparr>l_bestBet := b\<rparr>)
     else if flag then malloc_loop sz req (rbase r) flag best s = malloc_loop sz req (l_memRoot s) False best' (s\<lparr>l_bestBet := b\<rparr>)
     else appended sz req best' (rbase r) (s\<lparr>l_bestBet := b\<rparr>) (malloc_loop sz req (rbase r) flag best s)" by blast
    have inv': "heap_inv (s\<lparr>l_bestBet := b\<rparr>) rs" using less.prems(1) b r by (auto simp: heap_inv_def)
    have here: "(\<exists>r \<in> set (if flag then rs else cs). fits_in sz r) \<longleftrightarrow>
        (\<exists>r \<in> set (if flag then rs else cs'). fits_in sz r)" using False cs by auto
    show ?thesis
    proof (cases "cs' = []")
      case cs': False
      then have "maj_next (mem s) (rbase r) \<noteq> 0"
        using nx chained_region [of "mem s" 0 rs 0 "hd cs'"] inv less.prems(2) cs region_nonempty
        by (auto simp: root_of_def)
      then have "malloc_loop sz req (root_of cs 0) flag best s = malloc_loop sz req (root_of cs' 0) flag best' (s\<lparr>l_bestBet := b\<rparr>)"
        using step nx by (simp add: root)
      moreover have "rs = (as @ [r]) @ cs'" using less.prems(2) cs by simp
      from less.hyps [OF _ inv' this cs', of flag best']
      have "found (s\<lparr>l_bestBet := b\<rparr>) rs (\<exists>r \<in> set (if flag then rs else cs'). fits_in sz r) sz
          (malloc_loop sz req (root_of cs' 0) flag best' (s\<lparr>l_bestBet := b\<rparr>))" by (simp add: cs)
      ultimately show ?thesis unfolding here by (simp only: found_bet)
    next
      case cs': True
      then have nx0: "maj_next (mem s) (rbase r) = 0" using nx by (simp add: root_of_def)
      show ?thesis
      proof (cases flag)
        case True
        then have "malloc_loop sz req (root_of cs 0) flag best s = malloc_loop sz req (root_of rs 0) False best' (s\<lparr>l_bestBet := b\<rparr>)"
          using step nx0 inv by (simp add: root)
        moreover have "rs = [] @ rs" "rs \<noteq> []" using r by auto
        from less.hyps [OF _ inv' this, of False best'] True
        have "found (s\<lparr>l_bestBet := b\<rparr>) rs (\<exists>r \<in> set rs. fits_in sz r) sz
          (malloc_loop sz req (root_of rs 0) False best' (s\<lparr>l_bestBet := b\<rparr>))" by simp
        ultimately show ?thesis using True by (simp add: found_bet)
      next
        case False
        have last: "last rs = r" using less.prems(2) cs cs' by simp
        have app: "appended sz req best' (rbase r) (s\<lparr>l_bestBet := b\<rparr>) (malloc_loop sz req (root_of cs 0) flag best s)"
          using step nx0 False by (simp add: root)
        obtain new g where page: "append_page sz (rbase r) s = (new, g)" by fastforce
        then have page': "append_page sz (rbase r) (s\<lparr>l_bestBet := b\<rparr>) = (new, g\<lparr>l_bestBet := b\<rparr>)"
          by (simp add: append_page_bet)
        have bet: "b = 0 \<or> b \<in> rbase ` set rs" using inv b r by auto
        note A = appended_result [OF app page']
        have none: "\<not> (\<exists>r \<in> set (if flag then rs else cs). fits_in sz r)"
          using here cs' False by simp
        show ?thesis
          unfolding found_def if_not_P [OF none] last page prod.case
        proof (cases "new = 0", goal_cases)
          case 1
          then show ?case using A(1) bet by auto
        next
          case new: 2
          have "\<exists>p t. malloc_loop sz req (root_of cs 0) flag best s = Some (p, liballoc_unlock t) \<and>
              allocated (g\<lparr>l_bestBet := l_bestBet t\<rparr>) new hi [] sz p t \<and>
              (l_bestBet t = 0 \<or> l_bestBet t \<in> insert new (rbase ` set rs))"
            if "block (mem g) new hi []" "80 + unat sz \<le> hi" for hi
            using A(2) [of hi, OF new] that sz(1) bet by auto
          then show ?case using new by simp
        qed
      qed
    qed
  qed
qed

end
