(* ===== verification/HeapGrow.thy ===== *)
theory HeapGrow
  imports HeapBlocks
begin

text \<open>
  \<open>kmalloc\<close> and \<open>kfree\<close> on a heap of any number of blocks: the allocation lands in one of the
  blocks or in a fresh one that the physical memory manager supplies, and a block that loses
  its last allocation leaves the list and goes back to the manager.
\<close>

section \<open>A fresh block\<close>

definition new_header :: "u64 \<Rightarrow> u32 \<Rightarrow> mem \<Rightarrow> mem" where
  "new_header maj n m = set_maj_first maj 0 (set_maj_usage maj 40 (set_maj_size maj (n * 4096)
     (set_maj_pages maj n (set_maj_next maj 0 (set_maj_prev maj 0 m)))))"

lemma new_header_region:
  assumes "maj \<noteq> 0" "aligned maj" "unat maj + 4096 * unat n < 2 ^ 64" "4096 * unat n < 2 ^ 32" "0 < unat n"
  shows "region_ok (new_header maj n m) (maj, 4096 * unat n, [])" "maj_next (new_header maj n m) maj = 0"
    "maj_prev (new_header maj n m) maj = 0" "outside maj x \<Longrightarrow> new_header maj n m x = m x"
proof -
  have "unat (n * 4096) = 4096 * unat n" using assms(4) by (simp add: unat_word_ariths mult.commute)
  then show "region_ok (new_header maj n m) (maj, 4096 * unat n, [])"
    using assms by (simp add: region_ok_def block_def new_header_def hdr_simps first_ptr_def used_def)
qed (simp_all add: new_header_def hdr_simps)

lemma region_links:
  assumes ok: "region_ok m r"
  shows "region_ok (set_maj_next (rbase r) v m) r" "region_ok (set_maj_prev (rbase r) v m) r"
    "b \<in> set (rlist r) \<Longrightarrow> j < snd b \<Longrightarrow> set_maj_next (rbase r) v m (bptr (rbase r) b + 40 + of_nat j) = m (bptr (rbase r) b + 40 + of_nat j)"
    "b \<in> set (rlist r) \<Longrightarrow> j < snd b \<Longrightarrow> set_maj_prev (rbase r) v m (bptr (rbase r) b + 40 + of_nat j) = m (bptr (rbase r) b + 40 + of_nat j)"
proof -
  note blk = ok [unfolded region_ok_def block_def]
  have sp: "spaced 40 (rlist r) (rsize r)" "rsize r < 2 ^ 32" using blk by simp_all
  note far = spaced_disj_maj(2) [OF sp, of _ "rbase r"]
  have "linked (set_maj_next (rbase r) v m) (rbase r) 0 (rlist r) 0"
    "linked (set_maj_prev (rbase r) v m) (rbase r) 0 (rlist r) 0"
    using blk by (auto intro!: linked_same [where m = m] simp: same_body_def hdr_simps far)
  then show "region_ok (set_maj_next (rbase r) v m) r" "region_ok (set_maj_prev (rbase r) v m) r"
    using blk by (simp_all add: region_ok_def block_def hdr_simps)
  assume b: "b \<in> set (rlist r)" "j < snd b"
  have "outside (rbase r) (bptr (rbase r) b + 40 + of_nat j)" by (rule payload_byte(1) [OF sp b])
  then show "set_maj_next (rbase r) v m (bptr (rbase r) b + 40 + of_nat j) = m (bptr (rbase r) b + 40 + of_nat j)"
    "set_maj_prev (rbase r) v m (bptr (rbase r) b + 40 + of_nat j) = m (bptr (rbase r) b + 40 + of_nat j)"
    by (simp_all add: hdr_simps)
qed

text \<open>A change within the header of one region leaves the others alone.\<close>

lemma region_away:
  assumes ok: "region_ok m q" and "region_disj r q" "40 \<le> rsize r"
    and out: "\<And>x. outside (rbase r) x \<Longrightarrow> m' x = m x"
  shows "region_ok m' q" "maj_prev m' (rbase q) = maj_prev m (rbase q)" "maj_next m' (rbase q) = maj_next m (rbase q)"
    "\<And>b j. b \<in> set (rlist q) \<Longrightarrow> j < snd b \<Longrightarrow>
       m' (bptr (rbase q) b + 40 + of_nat j) = m (bptr (rbase q) b + 40 + of_nat j)"
    "\<And>i. i < rsize q \<Longrightarrow> m' (rbase q + of_nat i) = m (rbase q + of_nat i)"
proof -
  have same: "m' (rbase q + of_nat i) = m (rbase q + of_nat i)" if "i < rsize q" for i
    using region_far [OF assms(2) that] assms(3) by (intro out) (simp add: outside_def)
  note C = region_cong [OF ok same]
  show "region_ok m' q" "maj_prev m' (rbase q) = maj_prev m (rbase q)" "maj_next m' (rbase q) = maj_next m (rbase q)"
    using C(1-3) by simp_all
  show "m' (bptr (rbase q) b + 40 + of_nat j) = m (bptr (rbase q) b + 40 + of_nat j)"
    if "b \<in> set (rlist q)" "j < snd b" for b j using C(4) that by blast
  show "m' (rbase q + of_nat i) = m (rbase q + of_nat i)" if "i < rsize q" for i using that by (rule same)
qed

lemma chained_away:
  assumes "chained m pv rs nx" "\<And>q. q \<in> set rs \<Longrightarrow> region_disj r q" "40 \<le> rsize r"
    "\<And>x. outside (rbase r) x \<Longrightarrow> m' x = m x"
  shows "chained m' pv rs nx"
  using assms(1,2)
proof (induction rs arbitrary: pv)
  case (Cons q rs)
  then have "region_ok m q" "region_disj r q" by simp_all
  note A = region_away [OF this assms(3,4)]
  from Cons A show ?case by simp
qed simp

text \<open>Linking a fresh region behind the last one.\<close>

definition linked_in :: "u64 \<Rightarrow> u64 \<Rightarrow> u32 \<Rightarrow> mem \<Rightarrow> mem" where
  "linked_in lst new n m = set_maj_prev new lst (set_maj_next lst new (new_header new n m))"

lemma linked_in_chained:
  assumes ch: "chained m pv rs 0" "rs \<noteq> []" "sorted_wrt region_disj rs"
    and new: "new \<noteq> 0" "aligned new" "unat new + 4096 * unat n < 2 ^ 64" "4096 * unat n < 2 ^ 32" "0 < unat n"
    and disj: "\<And>q. q \<in> set rs \<Longrightarrow> region_disj (new, 4096 * unat n, []) q"
  shows "chained (linked_in (rbase (last rs)) new n m) pv (rs @ [(new, 4096 * unat n, [])]) 0"
    "\<And>q b j. q \<in> set rs \<Longrightarrow> b \<in> set (rlist q) \<Longrightarrow> j < snd b \<Longrightarrow>
       linked_in (rbase (last rs)) new n m (bptr (rbase q) b + 40 + of_nat j) = m (bptr (rbase q) b + 40 + of_nat j)"
proof -
  let ?N = "(new, 4096 * unat n, []) :: region"
  obtain as r where rs: "rs = as @ [r]" using ch(2) by (cases rs rule: rev_cases) auto
  have size: "40 \<le> rsize ?N" "40 \<le> rsize r" using new(5) chained_region [OF ch(1), of r] region_nonempty rs by auto
  have as: "region_disj r q" if "q \<in> set as" for q using that ch(3) rs region_disj_sym by (auto simp: sorted_wrt_append)
  note H = new_header_region [OF new, where m = m]
  define m1 where "m1 = new_header new n m"
  have o1: "m1 x = m x" if "outside (rbase ?N) x" for x using H(4) that by (simp add: m1_def)
  have c1: "chained m1 pv rs 0" by (rule chained_away [OF ch(1) disj size(1) o1])
  then have r1: "chained m1 pv as (rbase r)" "region_ok m1 r" "maj_prev m1 (rbase r) = end_of pv as"
    by (simp_all add: rs chained_append root_of_def)
  define m2 where "m2 = set_maj_next (rbase r) new m1"
  have o2: "m2 x = m1 x" if "outside (rbase r) x" for x using that by (simp add: m2_def hdr_simps)
  have as2: "chained m2 pv as (rbase r)" by (rule chained_away [OF r1(1) as size(2) o2])
  have r2: "region_ok m2 r" "maj_prev m2 (rbase r) = end_of pv as" "maj_next m2 (rbase r) = new"
    using region_links(1) [OF r1(2)] r1(3) by (simp_all add: m2_def hdr_simps)
  have Nr: "region_disj r ?N" using disj [of r] rs region_disj_sym by simp
  have N1: "region_ok m1 ?N" "maj_next m1 new = 0" using H by (simp_all add: m1_def)
  note N2 = region_away [OF N1(1) Nr size(2) o2]
  define m3 where "m3 = set_maj_prev new (rbase r) m2"
  have o3: "m3 x = m2 x" if "outside (rbase ?N) x" for x using that by (simp add: m3_def hdr_simps)
  have as3: "chained m3 pv as (rbase r)" by (rule chained_away [OF as2 _ size(1) o3]) (rule disj, simp add: rs)
  note r3 = region_away [OF r2(1) disj [of r] size(1) o3, unfolded rs]
  have N3: "region_ok m3 ?N" "maj_prev m3 new = rbase r" "maj_next m3 new = 0"
    using region_links(2) [OF N2(1)] N2(3) N1(2) by (simp_all add: m3_def hdr_simps)
  have m3: "linked_in (rbase (last rs)) new n m = m3" by (simp add: linked_in_def m3_def m2_def m1_def rs)
  show "chained (linked_in (rbase (last rs)) new n m) pv (rs @ [?N]) 0"
    using as3 r3 r2 N3 unfolding m3 by (simp add: rs chained_append root_of_def end_of_def)
  show "linked_in (rbase (last rs)) new n m (bptr (rbase q) b + 40 + of_nat j) = m (bptr (rbase q) b + 40 + of_nat j)"
    if q: "q \<in> set rs" "b \<in> set (rlist q)" "j < snd b" for q b j
  proof -
    note q1 = chained_region [OF c1 q(1)] and q0 = chained_region [OF ch(1) q(1)]
    have "m2 (bptr (rbase q) b + 40 + of_nat j) = m1 (bptr (rbase q) b + 40 + of_nat j) \<and> region_ok m2 q"
    proof (cases "q = r")
      case True
      then show ?thesis using region_links(3) [OF r1(2), of b j] r2(1) q unfolding m2_def by blast
    next
      case False
      then have "q \<in> set as" using q(1) rs by simp
      then show ?thesis using region_away(1,4) [OF q1 as size(2) o2] q(2,3) by blast
    qed
    then show ?thesis
      using region_away(4) [OF q0 disj [OF q(1)] size(1) o1 q(2,3)]
        region_away(4) [where m' = m3 and m = m2, OF _ disj [OF q(1)] size(1) o3 q(2,3)]
      by (simp add: m3)
  qed
qed

section \<open>The pages of a new block\<close>

lemma page_count_spec:
  assumes "unat (sz :: u32) + 4175 < 2 ^ 32"
  shows "unat sz + 80 \<le> 4096 * unat (page_count sz)" "4096 * unat (page_count sz) < 2 ^ 32"
    "16 \<le> unat (page_count sz)" "unat (page_count sz) < 2 ^ 31"
proof -
  define w where "w = sz + 80"
  have w: "unat w = unat sz + 80" using assms by (simp add: w_def unat_word_ariths)
  have q: "unat (w div 4096) = unat w div 4096" "unat (w mod 4096) = unat w mod 4096"
    by (simp_all add: unat_div_distrib unat_mod_distrib)
  have dm: "unat w = 4096 * (unat w div 4096) + unat w mod 4096" "unat w mod 4096 < 4096" by simp_all
  have one: "unat (w div 4096 + 1) = unat w div 4096 + 1"
  proof -
    have "unat w div 4096 + 1 < 2 ^ 32" using dm w assms by linarith
    then show ?thesis by (simp add: unat_word_ariths q)
  qed
  have zero: "w mod 4096 = 0 \<longleftrightarrow> unat w mod 4096 = 0" by (simp add: word_unat_eq_iff q)
  have eq: "sz + ucast sizeof_major + ucast sizeof_minor = w"
    by (simp add: w_def sizeof_major_def sizeof_minor_def)
  define st where "st = (if w mod 4096 = 0 then w div 4096 else w div 4096 + 1)"
  have st: "unat st = (if unat w mod 4096 = 0 then unat w div 4096 else unat w div 4096 + 1)"
    by (simp add: st_def zero q one)
  have "unat w \<le> 4096 * unat st \<and> 4096 * unat st < unat w + 4096"
  proof (cases "unat w mod 4096 = 0")
    case True
    then have "unat st = unat w div 4096" using st by presburger
    with True dm(1) show ?thesis by linarith
  next
    case False
    then have "unat st = unat w div 4096 + 1" using st by presburger
    with False dm show ?thesis by linarith
  qed
  moreover have "page_count sz = (if st < 16 then 16 else st)"
    unfolding page_count_def eq l_pageSize_def l_pageCount_def st_def Let_def ..
  then have "unat (page_count sz) = max 16 (unat st)" by (simp add: word_less_nat_alt)
  ultimately show "unat sz + 80 \<le> 4096 * unat (page_count sz)" "4096 * unat (page_count sz) < 2 ^ 32"
    "16 \<le> unat (page_count sz)" "unat (page_count sz) < 2 ^ 31"
    using w assms by (simp_all add: max_def split: if_splits)
qed

text \<open>The stack of free pages loses at most some of its top.\<close>

definition same_stack :: "'a pmm_state_scheme \<Rightarrow> 'a pmm_state_scheme \<Rightarrow> bool" where
  "same_stack s t \<longleftrightarrow>
     pm_stack t = pm_stack s \<and> pm_total_pages t = pm_total_pages s \<and> pm_stack_idx t \<le> pm_stack_idx s"

lemma request_same_stack:
  assumes "pmm_request_pages k s = (q, t)"
  shows "same_stack s t"
proof (cases "k \<noteq> 0 \<and> unat k \<le> length (free_list s)")
  case True
  then have "pmm_request_pages k s = (free_list s ! (length (free_list s) - unat k), popped k s)"
    using request_some [of k s] by (simp add: unat_gt_0)
  with assms True show ?thesis
    by (auto simp: same_stack_def popped_def word_le_nat_alt unat_sub)
next
  case False
  then show ?thesis using assms request_none [of k s] by (cases "k = 0") (auto simp: same_stack_def)
qed

lemma same_stack_trans: "same_stack s t \<Longrightarrow> same_stack t u \<Longrightarrow> same_stack s u"
  by (auto simp: same_stack_def)

lemma same_stack_wf: "same_stack s t \<Longrightarrow> stack_wf s \<Longrightarrow> stack_wf t" "same_stack s t \<Longrightarrow> stack_region t = stack_region s"
  by (auto simp: same_stack_def stack_wf_def stack_region_def)

lemma allocated_stack:
  assumes "allocated (s\<lparr>l_bestBet := b\<rparr>) maj hi bs sz p t"
  shows "same_stack s t" "unat sz = n + 32 \<Longrightarrow> l_inuse t = l_inuse s + of_nat (n + 32)" "klog t = klog s"
    "pm_stack_idx t = pm_stack_idx s"
proof -
  show "same_stack s t" by (subst allocated_state [OF assms]) (simp add: same_stack_def)
  show "klog t = klog s" "pm_stack_idx t = pm_stack_idx s" by (subst allocated_state [OF assms], simp)+
  assume "unat sz = n + 32"
  moreover have "ucast sz = sz" by simp
  ultimately have "sz = of_nat (n + 32)" by (metis of_nat_unat)
  then show "l_inuse t = l_inuse s + of_nat (n + 32)" by (subst allocated_state [OF assms]) simp
qed

text \<open>
  What the page manager logs when the heap asks for \<open>n\<close> pages, and where its stack ends then.
\<close>

definition supply_log :: "'a pmm_state_scheme \<Rightarrow> u32 \<Rightarrow> log_line list" where
  "supply_log s n =
     (if scast n \<noteq> (0 :: u64) \<and> scast n \<le> pm_stack_idx s then [] else [out_of_pages (scast n)])"

definition supply_idx :: "'a pmm_state_scheme \<Rightarrow> u32 \<Rightarrow> u64" where
  "supply_idx s n = (if supply_log s n = [] then pm_stack_idx s - scast n else pm_stack_idx s)"

lemma liballoc_alloc_log:
  assumes "liballoc_alloc n s = (q, s1)"
  shows "klog s1 = klog s @ supply_log s n" "pm_stack_idx s1 = supply_idx s n"
  using assms
  by (auto simp: liballoc_alloc_def pmm_request_pages_def supply_log_def supply_idx_def Let_def split: if_splits)

lemma liballoc_alloc_fields:
  assumes "liballoc_alloc n s = (q, s1)"
  shows "mem s1 = mem s" "l_memRoot s1 = l_memRoot s" "l_bestBet s1 = l_bestBet s"
    "l_warningCount s1 = l_warningCount s" "liballoc_lock_var s1 = liballoc_lock_var s" "l_inuse s1 = l_inuse s"
    "hhdm_offset s1 = hhdm_offset s" "same_stack s s1"
proof -
  obtain q' s' where r: "pmm_request_pages (scast n) s = (q', s')" by fastforce
  have s1: "s1 = s'" using assms r by (simp add: liballoc_alloc_def)
  show "mem s1 = mem s" "l_memRoot s1 = l_memRoot s" "l_bestBet s1 = l_bestBet s"
    "l_warningCount s1 = l_warningCount s" "liballoc_lock_var s1 = liballoc_lock_var s" "l_inuse s1 = l_inuse s"
    "hhdm_offset s1 = hhdm_offset s"
    using r unfolding s1 by (auto simp: pmm_request_pages_def Let_def split: if_splits)
  show "same_stack s s1" using request_same_stack [OF r] by (simp add: s1)
qed

lemma allocate_new_page_supplied:
  assumes "liballoc_alloc (page_count sz) s = (q, s1)"
  shows "allocate_new_page sz s =
    (if q = 0
     then (0, report (no_block_line (page_count sz)) (s1\<lparr>l_warningCount := l_warningCount s1 + 1\<rparr>))
     else (q, s1\<lparr>mem := new_header q (page_count sz) (mem s), l_allocated := l_allocated s1 + ucast (page_count sz * 4096)\<rparr>))"
  using assms liballoc_alloc_fields [OF assms]
  by (simp add: allocate_new_page_eq new_header_def l_pageSize_def sizeof_major_def)

lemma st_bytes_ld: "st_bytes n p (ld_bytes n m p) m = m" if "n < 2 ^ 64"
  using st_ld_copied [OF that, of p m p m] by (intro ext) simp

lemma set_maj_next_same: "set_maj_next p (maj_next m p) m = m"
proof -
  have "unat (ld64 m (p + 8)) = ld_bytes 8 m (p + 8)"
    using ld_bytes_bound [of 8 m "p + 8"] by (simp add: ld64_def unat_of_nat del: ld_bytes.simps)
  then show ?thesis
    using st_bytes_ld [of 8 "p + 8" m] by (simp add: set_maj_next_def maj_next_def st64_def del: st_bytes.simps ld_bytes.simps)
qed

lemma append_page_supplied:
  assumes "liballoc_alloc (page_count (ucast sz)) s = (q, s1)"
  shows "append_page sz maj s =
    (if q = 0
     then (0, report (no_block_line (page_count (ucast sz)))
       (s1\<lparr>l_warningCount := l_warningCount s1 + 1, mem := set_maj_next maj 0 (mem s)\<rparr>))
     else (q, s1\<lparr>mem := linked_in maj q (page_count (ucast sz)) (mem s),
       l_allocated := l_allocated s1 + ucast (page_count (ucast sz) * 4096)\<rparr>))"
  using allocate_new_page_supplied [OF assms] liballoc_alloc_fields [OF assms]
  by (simp add: append_page_def linked_in_def)

section \<open>From the start of the search\<close>

lemma malloc_locked_finds:
  assumes sz: "32 \<le> unat sz" "unat sz + 40 < 2 ^ 64" and inv: "heap_inv s rs" and ne: "rs \<noteq> []"
  shows "found s rs (\<exists>r \<in> set rs. fits_in sz r) sz (malloc_locked sz req s)"
proof -
  note inv' = inv [unfolded heap_inv_def]
  have nz: "rbase r \<noteq> 0" if "r \<in> set rs" for r using chained_region [OF _ that] region_nonempty inv' by blast
  have root: "l_memRoot s \<noteq> 0" "l_memRoot s = root_of rs 0"
    using inv' nz [OF hd_in_set [OF ne]] ne by (simp_all add: root_of_def)
  define best where "best = (if l_bestBet s \<noteq> 0 then free_space (mem s) (l_bestBet s) else 0)"
  define flag where "flag = (l_bestBet s \<noteq> 0 \<and> sz + sizeof_minor < best)"
  have eq: "malloc_locked sz req s = malloc_loop sz req (if flag then l_bestBet s else l_memRoot s) flag best s"
    using root(1) by (simp add: malloc_locked_def best_def flag_def Let_def)
  show ?thesis
  proof (cases flag)
    case True
    then have "l_bestBet s \<in> rbase ` set rs" using inv' by (simp add: flag_def)
    then obtain as r cs where rs: "rs = as @ r # cs" "rbase r = l_bestBet s"
      using split_list by fastforce
    have "r # cs \<noteq> []" by simp
    from malloc_loop_finds [OF sz inv rs(1) this, where flag = True and req = req and best = best]
    have "found s rs (\<exists>r \<in> set rs. fits_in sz r) sz (malloc_loop sz req (rbase r) True best s)"
      by (simp add: root_of_def)
    then show ?thesis unfolding eq rs(2) using True by simp
  next
    case False
    have "rs = [] @ rs" by simp
    from malloc_loop_finds [OF sz inv this ne, where flag = False and req = req and best = best]
    show ?thesis unfolding eq using False root(2) by simp
  qed
qed

section \<open>An allocation in one region\<close>

text \<open>
  The allocations of a heap, and a list of regions with one more allocation: in one of the
  regions, or alone in a new region at the end.
\<close>

definition live :: "region list \<Rightarrow> (u64 \<times> alloc) set" where
  "live rs = (\<Union>r \<in> set rs. Pair (rbase r) ` set (rlist r))"

definition preserved :: "mem \<Rightarrow> mem \<Rightarrow> (u64 \<times> alloc) set \<Rightarrow> bool" where
  "preserved m m' A \<longleftrightarrow>
     (\<forall>c \<in> A. \<forall>j < snd (snd c). m' (bptr (fst c) (snd c) + 40 + of_nat j) = m (bptr (fst c) (snd c) + 40 + of_nat j))"

fun added :: "(u64 \<times> nat) option \<Rightarrow> region list \<Rightarrow> u64 \<Rightarrow> alloc \<Rightarrow> region list \<Rightarrow> bool" where
  "added None rs B x rs' \<longleftrightarrow>
     (\<exists>as hi us ws cs. rs = as @ (B, hi, us @ ws) # cs \<and> rs' = as @ (B, hi, us @ x # ws) # cs)"
| "added (Some (new, hi)) rs B x rs' \<longleftrightarrow> B = new \<and> rs' = rs @ [(new, hi, [x])]"

lemma live_append: "live (as @ cs) = live as \<union> live cs"
  by (simp add: live_def)

lemma live_Cons: "live (r # cs) = Pair (rbase r) ` set (rlist r) \<union> live cs"
  by (simp add: live_def)

lemma live_added:
  assumes "added new rs B x rs'"
  shows "live rs' = insert (B, x) (live rs)"
proof -
  have "live (as @ (B, hi, us @ x # ws) # cs) = insert (B, x) (live (as @ (B, hi, us @ ws) # cs))" for as hi us ws cs
    by (simp add: live_append live_Cons image_Un)
  moreover have "live (as @ [(B, hi, [x])]) = insert (B, x) (live as)" for as hi
    by (simp add: live_append live_Cons live_def)
  ultimately show ?thesis using assms by (cases new) auto
qed

lemma preserved_trans: "\<lbrakk>preserved m m1 A; preserved m1 m2 A'; A \<subseteq> A'\<rbrakk> \<Longrightarrow> preserved m m2 A"
  by (simp add: preserved_def subset_eq del: split_paired_All split_paired_Ball_Sigma)

lemma preserved_refl [simp]: "preserved m m A"
  by (simp add: preserved_def)

lemma sorted_swap:
  assumes "sorted_wrt region_disj (as @ r # cs)" "rbase r' = rbase r" "rsize r' = rsize r"
  shows "sorted_wrt region_disj (as @ r' # cs)"
  using assms by (simp add: sorted_wrt_append region_disj_def)

lemma preserved_update:
  assumes ok: "\<And>q. q \<in> set (as @ r # cs) \<Longrightarrow> region_ok m q" and sorted: "sorted_wrt region_disj (as @ r # cs)"
    and out: "\<And>x. rsize r \<le> unat (x - rbase r) \<Longrightarrow> m' x = m x"
    and own: "\<And>b j. \<lbrakk>b \<in> set bs; j < snd b\<rbrakk> \<Longrightarrow> m' (bptr (rbase r) b + 40 + of_nat j) = m (bptr (rbase r) b + 40 + of_nat j)"
  shows "preserved m m' (live as \<union> Pair (rbase r) ` set bs \<union> live cs)"
proof -
  have "m' (bptr (rbase q) b + 40 + of_nat j) = m (bptr (rbase q) b + 40 + of_nat j)"
    if q: "q \<in> set as \<or> q \<in> set cs" and b: "b \<in> set (rlist q)" "j < snd b" for q b j
  proof -
    have "region_disj r q" using q sorted region_disj_sym by (auto simp: sorted_wrt_append)
    then have "m' (rbase q + of_nat i) = m (rbase q + of_nat i)" if "i < rsize q" for i
      using that by (intro out region_far)
    from region_cong(4) [OF ok this b] q show ?thesis by auto
  qed
  with own show ?thesis unfolding preserved_def live_def by fastforce
qed

lemma live_parts: "live (as @ r # cs) = live as \<union> Pair (rbase r) ` set (rlist r) \<union> live cs"
  by (simp add: live_append live_Cons Un_assoc)

lemma allocated_in_region:
  assumes inv: "heap_inv s (as @ r # cs)"
    and al: "allocated (s\<lparr>l_bestBet := l_bestBet t\<rparr>) (rbase r) (rsize r) (rlist r) sz p t"
    and bet: "l_bestBet t = 0 \<or> l_bestBet t \<in> rbase ` set (as @ r # cs)"
  obtains us ws off where "rlist r = us @ ws"
    "heap_inv t (as @ (rbase r, rsize r, us @ (off, unat sz) # ws) # cs)"
    "serves (mem t) (rbase r) (off, unat sz) (unat sz - 32) p"
    "preserved (mem s) (mem t) (live (as @ r # cs))"
    "\<And>x. rsize r \<le> unat (x - rbase r) \<Longrightarrow> mem t x = mem s x"
    "liballoc_lock_var t = liballoc_lock_var s"
proof -
  note inv' = inv [unfolded heap_inv_def]
  obtain us ws off where a: "rlist r = us @ ws" "block (mem t) (rbase r) (rsize r) (us @ (off, unat sz) # ws)"
    "serves (mem t) (rbase r) (off, unat sz) (unat sz - 32) p" "kept (mem s) (mem t) (rbase r) (rsize r) (rlist r)"
  proof -
    have "mem (s\<lparr>l_bestBet := b\<rparr>) = mem s" for b by simp
    with al [unfolded allocated_def] show thesis by (elim conjE exE) (rule that; simp only:)
  qed
  let ?r = "(rbase r, rsize r, us @ (off, unat sz) # ws) :: region"
  have ok: "region_ok (mem s) q" if "q \<in> set (as @ r # cs)" for q using chained_region [OF _ that] inv' by blast
  have out: "mem t x = mem s x" if "rsize r \<le> unat (x - rbase r)" for x using a(4) that by (simp add: kept_def)
  have chain: "chained (mem s) 0 (as @ r # cs) 0" and sorted: "sorted_wrt region_disj (as @ r # cs)"
    and root: "l_memRoot s = root_of (as @ r # cs) 0" using inv' by blast+
  have links: "maj_next (mem t) (rbase r) = maj_next (mem s) (rbase r)" "maj_prev (mem t) (rbase r) = maj_prev (mem s) (rbase r)"
    using a(4) by (simp_all only: kept_def)
  have "region_ok (mem t) ?r" using ok [of r] a(2,4) by (simp add: region_ok_def kept_def)
  from chained_update [OF chain sorted this _ links out] have "chained (mem t) 0 (as @ ?r # cs) 0" by simp
  moreover have "sorted_wrt region_disj (as @ ?r # cs)" by (rule sorted_swap [OF sorted]) simp_all
  moreover have "root_of (as @ ?r # cs) 0 = root_of (as @ r # cs) 0" by (cases as) (simp_all add: root_of_def)
  ultimately have "heap_inv t (as @ ?r # cs)"
    using root bet allocated_fields(1) [OF al] by (simp add: heap_inv_def)
  moreover have "preserved (mem s) (mem t) (live (as @ r # cs))"
    unfolding live_parts using a(4) by (intro preserved_update [OF ok sorted out]) (simp_all only: kept_def)
  ultimately show thesis using a(1,3) out allocated_fields(2) [OF al] by (intro that [of us ws off]) simp_all
qed

section \<open>\<open>kmalloc\<close> on any heap\<close>

text \<open>What the manager supplies for a new block: null, or whole pages apart from the blocks in use.\<close>

definition supplies :: "'a pmm_state_scheme \<Rightarrow> region list \<Rightarrow> u32 \<Rightarrow> bool" where
  "supplies s rs n \<longleftrightarrow>
     (let q = fst (liballoc_alloc n s)
      in q \<noteq> 0 \<longrightarrow> aligned q \<and> unat q + 4096 * unat n < 2 ^ 64 \<and>
           (\<forall>r \<in> set rs. region_disj (q, 4096 * unat n, []) r))"

lemma liballoc_alloc_lock:
  "liballoc_alloc n (s\<lparr>liballoc_lock_var := l\<rparr>) =
     (case liballoc_alloc n s of (q, t) \<Rightarrow> (q, t\<lparr>liballoc_lock_var := l\<rparr>))"
  by (simp add: liballoc_alloc_def pmm_request_pages_def Let_def)

definition outside_all :: "region list \<Rightarrow> u64 \<Rightarrow> bool" where
  "outside_all rs x \<longleftrightarrow> (\<forall>r \<in> set rs. rsize r \<le> unat (x - rbase r))"

definition gained ::
  "'a heap_state_scheme \<Rightarrow> region list \<Rightarrow> (u64 \<times> nat) option \<Rightarrow> nat \<Rightarrow> u64 \<Rightarrow> 'a heap_state_scheme \<Rightarrow> bool" where
  "gained s rs new n p t \<longleftrightarrow>
     (\<exists>rs' B off. added new rs B (off, n + 32) rs' \<and> heap_inv t rs' \<and> serves (mem t) B (off, n + 32) n p \<and>
        preserved (mem s) (mem t) (live rs) \<and> (\<forall>x. outside_all rs' x \<longrightarrow> mem t x = mem s x)) \<and>
     liballoc_lock_var t = liballoc_lock_var s \<and> same_stack s t \<and> l_inuse t = l_inuse s + of_nat (n + 32)"

lemma allocated_gained:
  assumes inv: "heap_inv s rs" and r: "r \<in> set rs"
    and al: "allocated (s\<lparr>l_bestBet := l_bestBet t\<rparr>) (rbase r) (rsize r) (rlist r) sz p t"
    and bet: "l_bestBet t = 0 \<or> l_bestBet t \<in> rbase ` set rs" and n: "unat sz = n + 32"
  shows "gained s rs None n p t"
proof -
  obtain as cs where rs: "rs = as @ r # cs" using split_list [OF r] by blast
  obtain us ws off where A: "rlist r = us @ ws"
    "heap_inv t (as @ (rbase r, rsize r, us @ (off, unat sz) # ws) # cs)"
    "serves (mem t) (rbase r) (off, unat sz) (unat sz - 32) p" "preserved (mem s) (mem t) (live (as @ r # cs))"
    "\<And>x. rsize r \<le> unat (x - rbase r) \<Longrightarrow> mem t x = mem s x" "liballoc_lock_var t = liballoc_lock_var s"
    using allocated_in_region [OF inv [unfolded rs] al bet [unfolded rs]] by blast
  have r': "r = (rbase r, rsize r, us @ ws)" using A(1) by (metis prod.collapse)
  have "added None rs (rbase r) (off, n + 32) (as @ (rbase r, rsize r, us @ (off, n + 32) # ws) # cs)"
    using arg_cong [OF r', of "\<lambda>q. as @ q # cs"] unfolding added.simps rs by blast
  moreover have "mem t x = mem s x" if "outside_all (as @ (rbase r, rsize r, us @ (off, n + 32) # ws) # cs) x" for x
    using that A(5) by (simp add: outside_all_def)
  ultimately show ?thesis
    using A(2-4,6) [unfolded n add_diff_cancel_right'] allocated_stack(1) [OF al] allocated_stack(2) [OF al n] unfolding gained_def rs by blast
qed

lemma linked_in_outside:
  "outside lst x \<Longrightarrow> outside new x \<Longrightarrow> linked_in lst new n m x = m x"
  by (simp add: linked_in_def new_header_def hdr_simps)

lemma outside_all_region: "outside_all rs x \<Longrightarrow> r \<in> set rs \<Longrightarrow> 40 \<le> rsize r \<Longrightarrow> outside (rbase r) x"
  by (auto simp: outside_all_def outside_def)

lemma sorted_snoc:
  assumes "sorted_wrt region_disj rs" "\<And>q. q \<in> set rs \<Longrightarrow> region_disj N q"
  shows "sorted_wrt region_disj (rs @ [N])"
  using assms region_disj_sym by (auto simp: sorted_wrt_append)

text \<open>An allocation in a fresh region at the end of the list.\<close>

lemma fresh_gained:
  assumes ginv: "heap_inv g (rs @ [(new, hi, [])])" and keep: "preserved (mem s) (mem g) (live rs)"
    and out: "\<And>x. outside_all rs x \<Longrightarrow> outside new x \<Longrightarrow> mem g x = mem s x"
    and lock: "liballoc_lock_var g = liballoc_lock_var s" and stk: "same_stack s g" and inuse: "l_inuse g = l_inuse s"
    and hi: "40 \<le> hi"
    and al: "allocated (g\<lparr>l_bestBet := l_bestBet t\<rparr>) new hi [] sz p t"
    and bet: "l_bestBet t = 0 \<or> l_bestBet t \<in> insert new (rbase ` set rs)" and k: "unat sz = k + 32"
  shows "gained s rs (Some (new, hi)) k p t"
proof -
  let ?N = "(new, hi, []) :: region"
  have al': "allocated (g\<lparr>l_bestBet := l_bestBet t\<rparr>) (rbase ?N) (rsize ?N) (rlist ?N) sz p t" using al by simp
  have bet': "l_bestBet t = 0 \<or> l_bestBet t \<in> rbase ` set (rs @ [?N])" using bet by auto
  obtain us ws off where A: "rlist ?N = us @ ws"
    "heap_inv t (rs @ [(rbase ?N, rsize ?N, us @ (off, unat sz) # ws)])"
    "serves (mem t) (rbase ?N) (off, unat sz) (unat sz - 32) p" "preserved (mem g) (mem t) (live (rs @ [?N]))"
    "\<And>x. rsize ?N \<le> unat (x - rbase ?N) \<Longrightarrow> mem t x = mem g x" "liballoc_lock_var t = liballoc_lock_var g"
    using allocated_in_region [OF ginv al' bet'] by blast
  have nil: "us = []" "ws = []" using A(1) by simp_all
  let ?rs = "rs @ [(new, hi, [(off, k + 32)])]"
  have "added (Some (new, hi)) rs new (off, k + 32) ?rs" by simp
  moreover have "preserved (mem s) (mem t) (live rs)"
    by (rule preserved_trans [OF keep A(4)]) (simp add: live_append)
  moreover have "mem t x = mem s x" if x: "outside_all ?rs x" for x
    using A(5) [of x] out [of x] x hi by (simp add: outside_all_def outside_def)
  ultimately show ?thesis
    using A(2,3,6) lock nil k same_stack_trans [OF stk allocated_stack(1) [OF al]]
      allocated_stack(2) [OF al k] inuse unfolding gained_def by (intro conjI exI [of _ ?rs] exI [of _ new] exI [of _ off]) simp_all
qed

lemma appended_inv:
  assumes inv: "heap_inv s rs" and ne: "rs \<noteq> []" and sup: "supplies s rs n" "liballoc_alloc n s = (new, s1)" "new \<noteq> 0"
    and n: "4096 * unat n < 2 ^ 32" "0 < unat n"
    and g: "g = s1\<lparr>mem := linked_in (rbase (last rs)) new n (mem s), l_allocated := a\<rparr>"
  shows "heap_inv g (rs @ [(new, 4096 * unat n, [])])" "preserved (mem s) (mem g) (live rs)"
    "outside_all rs x \<Longrightarrow> outside new x \<Longrightarrow> mem g x = mem s x" "liballoc_lock_var g = liballoc_lock_var s"
    "same_stack s g" "l_inuse g = l_inuse s" "klog g = klog s @ supply_log s n"
    "pm_stack_idx g = supply_idx s n"
proof -
  let ?N = "(new, 4096 * unat n, []) :: region"
  note inv' = inv [unfolded heap_inv_def]
  note f = liballoc_alloc_fields [OF sup(2)]
  have new: "aligned new" "unat new + 4096 * unat n < 2 ^ 64" "\<And>q. q \<in> set rs \<Longrightarrow> region_disj ?N q"
    using sup by (auto simp: supplies_def)
  have chain: "chained (mem s) 0 rs 0" and sorted: "sorted_wrt region_disj rs" and root: "l_memRoot s = root_of rs 0"
    using inv' by blast+
  note L = linked_in_chained [OF chain ne sorted sup(3) new(1,2) n new(3)]
  have g': "mem g = linked_in (rbase (last rs)) new n (mem s)" "l_bestBet g = l_bestBet s" "l_memRoot g = l_memRoot s"
    using f by (simp_all add: g)
  have sorted': "sorted_wrt region_disj (rs @ [?N])" by (rule sorted_snoc [OF sorted new(3)])
  have root': "root_of (rs @ [?N]) 0 = root_of rs 0" using ne by (simp add: root_of_def)
  show "heap_inv g (rs @ [?N])"
    unfolding heap_inv_def g' root' using L(1) sorted' root inv' by auto
  show "preserved (mem s) (mem g) (live rs)"
    using L(2) unfolding preserved_def live_def g'(1) by fastforce
  have lst: "last rs \<in> set rs" using ne by simp
  have "40 \<le> rsize (last rs)" using chained_region [OF chain lst] region_nonempty by blast
  then show "mem g x = mem s x" if "outside_all rs x" "outside new x"
    unfolding g'(1) using that(2) by (intro linked_in_outside outside_all_region [OF that(1) lst])
  show "liballoc_lock_var g = liballoc_lock_var s" "same_stack s g" "l_inuse g = l_inuse s" using f by (simp_all add: g same_stack_def)
  show "klog g = klog s @ supply_log s n" "pm_stack_idx g = supply_idx s n"
    using liballoc_alloc_log [OF sup(2)] by (simp_all add: g)
qed

text \<open>The log lines of a request that gets no block.\<close>

definition no_memory_log :: "region list \<Rightarrow> u32 \<Rightarrow> u64 \<Rightarrow> log_line list" where
  "no_memory_log rs n sz =
     no_block_line n # (if rs = [] then [no_root_line] else [exhausted_line, malloc_null_line sz])"

lemma malloc_failed_eq:
  "malloc_failed sz t =
     (0, liballoc_unlock (t\<lparr>klog := klog t @ [exhausted_line, malloc_null_line sz]\<rparr>))"
  by (simp add: malloc_failed_def liballoc_dump_def liballoc_unlock_def)

text \<open>What the search with the lock held comes to.\<close>

definition outcome_ok ::
  "'a heap_state_scheme \<Rightarrow> region list \<Rightarrow> nat \<Rightarrow> u32 \<Rightarrow> bool \<Rightarrow> (u64 \<times> 'a heap_state_scheme) option \<Rightarrow> bool" where
  "outcome_ok s rs k n fits out \<longleftrightarrow>
     (if fits \<or> fst (liballoc_alloc n s) \<noteq> 0
      then \<exists>p t. out = Some (p, liballoc_unlock t) \<and> 
             gained s rs (if fits then None else Some (fst (liballoc_alloc n s), 4096 * unat n)) k p t \<and>
             klog t = klog s @ (if fits then [] else supply_log s n) \<and>
             pm_stack_idx t = (if fits then pm_stack_idx s else supply_idx s n)
      else \<exists>t. out = Some (0, liballoc_unlock t) \<and> heap_inv t rs \<and> mem t = mem s \<and> same_stack s t \<and> l_inuse t = l_inuse s \<and>
             l_warningCount t = l_warningCount s + 1 \<and>
             klog t = klog s @ supply_log s n @ no_memory_log rs n (of_nat (k + 32)) \<and>
             pm_stack_idx t = supply_idx s n)"

lemma malloc_locked_nonempty:
  assumes sz: "unat sz = k + 32" "k + 4207 < 2 ^ 32" and inv: "heap_inv s rs" and ne: "rs \<noteq> []"
    and sup: "(\<exists>r \<in> set rs. fits_in sz r) \<or> supplies s rs (page_count (ucast sz))"
  shows "outcome_ok s rs k (page_count (ucast sz)) (\<exists>r \<in> set rs. fits_in sz r) (malloc_locked sz req s)"
proof -
  let ?n = "page_count (ucast sz)"
  have u: "unat (ucast sz :: u32) = unat sz" using sz by (intro ucast_small) simp
  note n = page_count_spec [of "ucast sz", unfolded u]
  have n': "unat sz + 80 \<le> 4096 * unat ?n" "4096 * unat ?n < 2 ^ 32" "0 < unat ?n" using n sz by simp_all
  have "found s rs (\<exists>r \<in> set rs. fits_in sz r) sz (malloc_locked sz req s)"
    using sz by (intro malloc_locked_finds [OF _ _ inv ne]) simp_all
  note F = this [unfolded found_def]
  show ?thesis
  proof (cases "\<exists>r \<in> set rs. fits_in sz r")
    case True
    then obtain r p t where "r \<in> set rs" "malloc_locked sz req s = Some (p, liballoc_unlock t)"
      "allocated (s\<lparr>l_bestBet := l_bestBet t\<rparr>) (rbase r) (rsize r) (rlist r) sz p t"
      "l_bestBet t = 0 \<or> l_bestBet t \<in> rbase ` set rs" using F by (simp only: if_True) blast
    with allocated_gained [OF inv this(1,3,4) sz(1)] allocated_stack(3,4) [OF this(3)] True show ?thesis unfolding outcome_ok_def by auto
  next
    case False
    obtain new s1 where q: "liballoc_alloc ?n s = (new, s1)" by fastforce
    note f = liballoc_alloc_fields [OF q]
    note page = append_page_supplied [OF q, of "rbase (last rs)"]
    show ?thesis
    proof (cases "new = 0")
      case True
      have lst: "maj_next (mem s) (rbase (last rs)) = 0"
        using inv ne by (cases rs rule: rev_cases) (simp_all add: heap_inv_def chained_append root_of_def)
      define w where "w = report (no_block_line ?n) (s1\<lparr>l_warningCount := l_warningCount s1 + 1, mem := mem s\<rparr>)"
      have g: "append_page sz (rbase (last rs)) s = (0, w)"
        using page set_maj_next_same [of "rbase (last rs)" "mem s"] by (simp only: True lst if_True refl w_def)
      obtain b where b: "malloc_locked sz req s = Some (malloc_failed sz (w\<lparr>l_bestBet := b\<rparr>))" "b = 0 \<or> b \<in> rbase ` set rs"
        using F unfolding if_not_P [OF False] g prod.case by auto
      have "of_nat (unat sz) = sz" by simp
      then have lg: "klog s @ supply_log s ?n @ no_memory_log rs ?n (of_nat (k + 32)) =
          klog w @ [exhausted_line, malloc_null_line sz]"
        using liballoc_alloc_log [OF q] ne unfolding sz(1) by (simp add: w_def no_memory_log_def)
      have none: "\<not> ((\<exists>r \<in> set rs. fits_in sz r) \<or> fst (liballoc_alloc ?n s) \<noteq> 0)" using False q True by simp
      show ?thesis
        unfolding outcome_ok_def if_not_P [OF none] lg using b inv f liballoc_alloc_log(2) [OF q]
        by (intro exI [of _ "w\<lparr>l_bestBet := b, klog := klog w @ [exhausted_line, malloc_null_line sz]\<rparr>"])
          (simp add: malloc_failed_eq w_def heap_inv_def same_stack_def)
    next
      case new: False
      define g where "g = s1\<lparr>mem := linked_in (rbase (last rs)) new ?n (mem s),
        l_allocated := l_allocated s1 + ucast (?n * 4096)\<rparr>"
      have "append_page sz (rbase (last rs)) s = (new, g)" using page new by (simp add: g_def)
      note F' = F [unfolded if_not_P [OF False] this prod.case if_not_P [OF new]]
      have sup': "supplies s rs ?n" using sup False by blast
      note G = appended_inv [OF inv ne sup' q new n'(2,3) g_def]
      have blk: "block (mem g) new (4096 * unat ?n) []"
      proof -
        from chained_region [of "mem g" 0 "rs @ [(new, 4096 * unat ?n, [])]" 0 "(new, 4096 * unat ?n, [])"]
        show ?thesis using G(1) by (simp add: heap_inv_def region_ok_def)
      qed
      obtain p t where "malloc_locked sz req s = Some (p, liballoc_unlock t)"
        "allocated (g\<lparr>l_bestBet := l_bestBet t\<rparr>) new (4096 * unat ?n) [] sz p t"
        "l_bestBet t = 0 \<or> l_bestBet t \<in> insert new (rbase ` set rs)"
        using F' blk n'(1) by (metis add.commute)
      with fresh_gained [OF G(1-6) _ this(2,3) sz(1)] G(7,8) allocated_stack(3,4) [OF this(2)] new q n'(1) False show ?thesis
        unfolding outcome_ok_def by auto
    qed
  qed
qed

lemma malloc_locked_empty:
  assumes sz: "unat sz = k + 32" "k + 4207 < 2 ^ 32" and inv: "heap_inv s []"
    and sup: "supplies s [] (page_count (ucast sz))"
  shows "outcome_ok s [] k (page_count (ucast sz)) False (malloc_locked sz req s)"
proof -
  let ?n = "page_count (ucast sz)"
  have u: "unat (ucast sz :: u32) = unat sz" using sz by (intro ucast_small) simp
  note n = page_count_spec [of "ucast sz", unfolded u]
  have n': "unat sz + 80 \<le> 4096 * unat ?n" "4096 * unat ?n < 2 ^ 32" "0 < unat ?n" using n sz by simp_all
  have root: "l_memRoot s = 0" "l_bestBet s = 0" using inv by (simp_all add: heap_inv_def root_of_def)
  obtain new s1 where q: "liballoc_alloc ?n s = (new, s1)" by fastforce
  note f = liballoc_alloc_fields [OF q] and page = allocate_new_page_supplied [OF q]
  show ?thesis
  proof (cases "new = 0")
    case True
    let ?t = "s1\<lparr>l_warningCount := l_warningCount s1 + 1, l_memRoot := 0,
      klog := klog s1 @ no_memory_log [] ?n (of_nat (k + 32))\<rparr>"
    have "malloc_locked sz req s = Some (0, liballoc_unlock ?t)"
      using page True root by (simp add: malloc_locked_def no_memory_log_def liballoc_unlock_def)
    moreover have "heap_inv ?t []" using f root by (simp add: heap_inv_def root_of_def)
    moreover have none: "\<not> (False \<or> fst (liballoc_alloc ?n s) \<noteq> 0)" using True q by simp
    ultimately show ?thesis
      using f liballoc_alloc_log [OF q] unfolding outcome_ok_def if_not_P [OF none]
      by (intro exI [of _ ?t]) (simp add: same_stack_def)
  next
    case new: False
    define g where "g = s1\<lparr>mem := new_header new ?n (mem s),
      l_allocated := l_allocated s1 + ucast (?n * 4096), l_memRoot := new\<rparr>"
    have start: "malloc_locked sz req s = malloc_locked sz req g"
      using page new malloc_locked_start [OF root(1), of sz new] by (simp add: g_def)
    have P: "aligned new" "unat new + 4096 * unat ?n < 2 ^ 64" using sup q new by (simp_all add: supplies_def)
    note H = new_header_region [OF new P n'(2,3)]
    have G: "heap_inv g ([] @ [(new, 4096 * unat ?n, [])])"
      using H(1-3) [of "mem s"] f root by (simp add: heap_inv_def g_def root_of_def)
    have keep: "preserved (mem s) (mem g) (live [])" by (simp add: preserved_def live_def)
    have out: "mem g x = mem s x" if "outside new x" for x using H(4) [OF that] by (simp add: g_def)
    have lock: "liballoc_lock_var g = liballoc_lock_var s" and stk: "same_stack s g"
      and inuse: "l_inuse g = l_inuse s" using f by (simp_all add: g_def same_stack_def)
    have fits: "\<exists>r \<in> set [(new, 4096 * unat ?n, [])]. fits_in sz r" using n'(1) by (simp add: fits_in_def)
    have "found g [(new, 4096 * unat ?n, [])] (\<exists>r \<in> set [(new, 4096 * unat ?n, [])]. fits_in sz r) sz (malloc_locked sz req g)"
      using sz G by (intro malloc_locked_finds) simp_all
    then obtain p t where r: "malloc_locked sz req g = Some (p, liballoc_unlock t)"
      "allocated (g\<lparr>l_bestBet := l_bestBet t\<rparr>) new (4096 * unat ?n) [] sz p t" "l_bestBet t = 0 \<or> l_bestBet t = new"
      using fits unfolding found_def by auto
    have "40 \<le> 4096 * unat ?n" "l_bestBet t = 0 \<or> l_bestBet t \<in> insert new (rbase ` set [])" using n'(1) r(3) by auto
    moreover have "klog g = klog s @ supply_log s ?n" "pm_stack_idx g = supply_idx s ?n"
      using liballoc_alloc_log [OF q] by (simp_all add: g_def)
    ultimately show ?thesis using fresh_gained [OF G keep out lock stk inuse _ r(2) _ sz(1)] allocated_stack(3,4) [OF r(2)]
      unfolding outcome_ok_def using start r(1) q new by auto
  qed
qed

section \<open>The theorem\<close>

lemma heap_inv_unlock [simp]: "heap_inv (liballoc_unlock s) rs = heap_inv s rs"
  by (simp add: heap_inv_def)

lemma heap_inv_lock [simp]: "heap_inv (s\<lparr>liballoc_lock_var := l\<rparr>) rs = heap_inv s rs"
  by (simp add: heap_inv_def)

text \<open>The number of pages \<open>kmalloc\<close> asks for when no block has room for a request.\<close>

definition request_pages :: "u64 \<Rightarrow> u32" where
  "request_pages req = page_count (ucast (req + 32))"

definition new_block :: "'a pmm_state_scheme \<Rightarrow> u64 \<Rightarrow> u64 \<times> nat" where
  "new_block s req = (fst (liballoc_alloc (request_pages req) s), 4096 * unat (request_pages req))"

definition some_fits :: "region list \<Rightarrow> u64 \<Rightarrow> bool" where
  "some_fits rs req \<longleftrightarrow> (\<exists>r \<in> set rs. has_gap 40 (rlist r) (rsize r) (72 + unat req))"

definition chosen :: "'a pmm_state_scheme \<Rightarrow> region list \<Rightarrow> u64 \<Rightarrow> (u64 \<times> nat) option" where
  "chosen s rs req = (if some_fits rs req then None else Some (new_block s req))"

lemma kmalloc_any:
  assumes ok: "heap_ok s rs" and req: "unat req + 4207 < 2 ^ 32"
    and sup: "some_fits rs req \<or> supplies s rs (request_pages req)"
  shows "\<exists>p s'. kmalloc req s = Some (p, s') \<and>
    (if some_fits rs req \<or> fst (liballoc_alloc (request_pages req) s) \<noteq> 0
     then \<exists>rs' B off. added (chosen s rs req) rs B (off, unat req + 32) rs' \<and> heap_ok s' rs' \<and>
       serves (mem s') B (off, unat req + 32) (unat req) p \<and> preserved (mem s) (mem s') (live rs) \<and>
       (\<forall>x. outside_all rs' x \<longrightarrow> mem s' x = mem s x) \<and>
       l_inuse s' = l_inuse s + of_nat (unat req + 32) \<and>
       klog s' = klog s @ (if some_fits rs req then [] else supply_log s (request_pages req))
     else p = 0 \<and> heap_ok s' rs \<and> mem s' = mem s \<and> l_inuse s' = l_inuse s \<and> l_warningCount s' = l_warningCount s + 1 \<and>
       klog s' = klog s @ supply_log s (request_pages req) @ no_memory_log rs (request_pages req) (req + 32)) \<and>
    same_stack s s' \<and>
    pm_stack_idx s' = (if some_fits rs req then pm_stack_idx s else supply_idx s (request_pages req))"
proof -
  let ?s = "s\<lparr>liballoc_lock_var := (liballoc_lock_var s)\<lparr>locked := 1\<rparr>\<rparr>"
  have lock: "liballoc_lock s = Some ?s" using ok by (simp add: liballoc_lock_def acquire_eq heap_ok_def)
  have sz: "unat (req + 32) = unat req + 32" using req by (simp add: unat_word_ariths)
  then have nz: "req + (ALIGNMENT + ALIGN_INFO) \<noteq> 0" by (auto simp: ALIGNMENT_def ALIGN_INFO_def)
  have k: "kmalloc req s = malloc_locked (req + 32) req ?s"
    using nz by (simp add: kmalloc_def lock ALIGNMENT_def ALIGN_INFO_def)
  have fits: "some_fits rs req \<longleftrightarrow> (\<exists>r \<in> set rs. fits_in (req + 32) r)"
    using sz by (simp add: some_fits_def fits_in_def add.commute)
  have same: "fst (liballoc_alloc n ?s) = fst (liballoc_alloc n s)" for n
    by (simp add: liballoc_alloc_lock split: prod.split)
  have inv: "heap_inv ?s rs" using ok by (simp add: heap_ok_def)
  have sup': "(\<exists>r \<in> set rs. fits_in (req + 32) r) \<or> supplies ?s rs (page_count (ucast (req + 32)))"
    using sup by (simp add: fits request_pages_def supplies_def same)
  have "outcome_ok ?s rs (unat req) (request_pages req) (some_fits rs req) (malloc_locked (req + 32) req ?s)"
  proof (cases "rs = []")
    case True
    then show ?thesis
      using malloc_locked_empty [OF sz req, of ?s req] inv sup' by (simp add: request_pages_def some_fits_def)
  next
    case False
    from malloc_locked_nonempty [OF sz req inv this sup'] show ?thesis by (simp add: fits request_pages_def)
  qed
  note R = this [unfolded outcome_ok_def same, folded new_block_def, folded chosen_def]
  have sl: "supply_log ?s n = supply_log s n" "supply_idx ?s n = supply_idx s n" for n
    by (simp_all add: supply_log_def supply_idx_def)
  have lg: "of_nat (unat req + 32) = req + 32" by simp
  have stk: "same_stack s (liballoc_unlock t) \<longleftrightarrow> same_stack s t" "same_stack ?s t \<longleftrightarrow> same_stack s t" for t
    by (simp_all add: same_stack_def liballoc_unlock_def)
  show ?thesis
  proof (cases "some_fits rs req \<or> fst (liballoc_alloc (request_pages req) s) \<noteq> 0")
    case True
    then obtain p t rs' B off where t: "malloc_locked (req + 32) req ?s = Some (p, liballoc_unlock t)"
      "added (chosen s rs req) rs B (off, unat req + 32) rs'" "heap_inv t rs'" "serves (mem t) B (off, unat req + 32) (unat req) p"
      "preserved (mem s) (mem t) (live rs)" "\<forall>x. outside_all rs' x \<longrightarrow> mem t x = mem s x"
      "same_stack s (liballoc_unlock t)" "l_inuse t = l_inuse s + of_nat (unat req + 32)"
      "klog t = klog s @ (if some_fits rs req then [] else supply_log s (request_pages req))"
      "pm_stack_idx t = (if some_fits rs req then pm_stack_idx s else supply_idx s (request_pages req))"
      using R by (auto simp: gained_def stk sl)
    have "heap_ok (liballoc_unlock t) rs'" "klog (liballoc_unlock t) = klog t"
      "pm_stack_idx (liballoc_unlock t) = pm_stack_idx t"
      using t(3) by (simp_all add: heap_ok_def liballoc_unlock_def)
    with True t show ?thesis by (metis k unlock_simps(1,5))
  next
    case False
    then obtain t where "malloc_locked (req + 32) req ?s = Some (0, liballoc_unlock t)" "heap_inv t rs"
      "mem t = mem s" "l_warningCount t = l_warningCount s + 1" "same_stack s (liballoc_unlock t)" "l_inuse t = l_inuse s"
      "klog t = klog s @ supply_log s (request_pages req) @ no_memory_log rs (request_pages req) (req + 32)"
      "pm_stack_idx t = supply_idx s (request_pages req)"
      using R by (auto simp: stk sl lg)
    with False show ?thesis by (simp add: k heap_ok_def) (simp add: liballoc_unlock_def)
  qed
qed


text \<open>A heap of one block, too small for the request, so that the manager supplies a second one.\<close>

lemma single_heap_ok: "heap_ok single_heap [(0x10000, 65536, [(40, 132)])]"
  using single_heap_block(1,3)
  by (simp add: heap_ok_def heap_inv_def one_block_def region_ok_def root_of_def aligned_dvd)


end
