(* ===== verification/HeapFree.thy ===== *)
theory HeapFree
  imports HeapGrow
begin

text \<open>
  \<open>kfree\<close> on a heap of any number of blocks. An allocation leaves the list of its block; when
  it was the last one, the block leaves the list of blocks and its pages go back to the
  physical memory manager, which writes to its own stack only.
\<close>

section \<open>Handing pages back\<close>

text \<open>
  Whatever room the stack of free pages has, only the stack, its index and the log change; the
  log gets a line when there is no room for all the pages.
\<close>

lemma pm_push_frame:
  assumes "stack_wf s" "pm_stack_idx s < pm_total_pages s"
  shows "stack_wf (pm_push a s)" "pgno x \<notin> stack_region s \<Longrightarrow> mem (pm_push a s) x = mem s x"
    "stack_region (pm_push a s) = stack_region s"
proof -
  have "stack_wf s" "unat (pm_stack_idx s) + length [a] \<le> unat (pm_total_pages s)"
    using assms by (simp_all add: word_less_nat_alt)
  from push_list_spec [OF this] show "stack_wf (pm_push a s)" "pgno x \<notin> stack_region s \<Longrightarrow> mem (pm_push a s) x = mem s x"
    by simp_all
  show "stack_region (pm_push a s) = stack_region s" by (simp add: stack_region_def pm_push_def)
qed

lemma pm_free_loop_frame:
  assumes "stack_wf s" "pm_free_loop a i n s = (b, t)"
  shows "stack_wf t \<and> (\<forall>x. pgno x \<notin> stack_region s \<longrightarrow> mem t x = mem s x) \<and>
    t = s\<lparr>mem := mem t, pm_stack_idx := pm_stack_idx t, klog := klog s @ (if b then [] else [free_overflow])\<rparr> \<and>
    (unat (pm_stack_idx s) + (unat n - unat i) \<le> unat (pm_total_pages s) \<longleftrightarrow> b)"
  using assms
proof (induction a i n s rule: pm_free_loop.induct)
  case (1 a i n s)
  show ?case
  proof (cases "i < n \<and> pm_stack_idx s < pm_total_pages s")
    case True
    note P = pm_push_frame [OF "1.prems"(1) conjunct2 [OF True], where a = "a + i * PAGE_SIZE"]
    have room: "\<not> pm_total_pages s \<le> pm_stack_idx s" using True by (simp add: not_le)
    then have loop: "pm_free_loop a (i + 1) n (pm_push (a + i * PAGE_SIZE) s) = (b, t)"
      using "1.prems"(2) True by (subst (asm) pm_free_loop.simps) simp
    have IH: "stack_wf t \<and> (\<forall>x. pgno x \<notin> stack_region (pm_push (a + i * PAGE_SIZE) s) \<longrightarrow>
        mem t x = mem (pm_push (a + i * PAGE_SIZE) s) x) \<and>
      t = (pm_push (a + i * PAGE_SIZE) s)\<lparr>mem := mem t, pm_stack_idx := pm_stack_idx t,
        klog := klog (pm_push (a + i * PAGE_SIZE) s) @ (if b then [] else [free_overflow])\<rparr> \<and>
      (unat (pm_stack_idx (pm_push (a + i * PAGE_SIZE) s)) + (unat n - unat (i + 1)) \<le>
        unat (pm_total_pages (pm_push (a + i * PAGE_SIZE) s)) \<longleftrightarrow> b)"
      by (rule "1.IH" [OF conjunct1 [OF True] room P(1) loop])
    have "unat (i + 1) = unat i + 1" "unat (pm_stack_idx s + 1) = unat (pm_stack_idx s) + 1" "unat i < unat n"
      using True by (auto simp: unat_Suc_word word_less_nat_alt)
    then have "unat (pm_stack_idx s + 1) + (unat n - unat (i + 1)) = unat (pm_stack_idx s) + (unat n - unat i)"
      by linarith
    with IH show ?thesis using P(2,3) by (simp add: pm_push_def)
  next
    case False
    then have "(b, t) = (if i < n then (False, report free_overflow s) else (True, s))"
      using "1.prems"(2) by (subst (asm) pm_free_loop.simps) (auto split: if_splits)
    then show ?thesis
      using "1.prems"(1) False by (cases "i < n") (auto simp: stack_wf_def word_less_nat_alt word_le_nat_alt)
  qed
qed

text \<open>The line of \<open>pmm_free_pages\<close> when \<open>k\<close> pages do not fit on the stack.\<close>

definition overflow_log :: "'a pmm_state_scheme \<Rightarrow> nat \<Rightarrow> log_line list" where
  "overflow_log s k =
     (if unat (pm_stack_idx s) + k \<le> unat (pm_total_pages s) then [] else [free_overflow])"

lemma free_pages_frame:
  assumes "stack_wf s" "p \<noteq> 0" "aligned p" "0 < n"
  obtains t where "pmm_free_pages p n s = Ret () t" "stack_wf t"
    "\<And>x. pgno x \<notin> stack_region s \<Longrightarrow> mem t x = mem s x"
    "t = s\<lparr>mem := mem t, pm_stack_idx := pm_stack_idx t, pm_free_pages := pm_free_pages t, pm_used_pages := pm_used_pages t,
      klog := klog s @ overflow_log s (unat n)\<rparr>"
proof -
  obtain b u where u: "pm_free_loop p 0 n s = (b, u)" by fastforce
  note F = pm_free_loop_frame [OF assms(1) u]
  define t where "t = (if b then u\<lparr>pm_free_pages := pm_free_pages u + n, pm_used_pages := pm_used_pages u - n\<rparr> else u)"
  have "pmm_free_pages p n s = Ret () t"
    using assms u by (cases b) (simp_all add: pmm_free_pages_def aligned_mod t_def word_gt_0)
  moreover have "stack_wf t" using F by (cases b) (simp_all add: t_def stack_wf_def)
  moreover have "mem t x = mem s x" if "pgno x \<notin> stack_region s" for x using F that by (cases b) (simp_all add: t_def)
  moreover have "t = s\<lparr>mem := mem t, pm_stack_idx := pm_stack_idx t, pm_free_pages := pm_free_pages t, pm_used_pages := pm_used_pages t,
      klog := klog s @ overflow_log s (unat n)\<rparr>"
  proof -
    have log: "overflow_log s (unat n) = (if b then [] else [free_overflow])" using F by (simp add: overflow_log_def)
    obtain m i where eq: "u = s\<lparr>mem := m, pm_stack_idx := i, klog := klog s @ (if b then [] else [free_overflow])\<rparr>"
      using F by blast
    show ?thesis unfolding t_def eq log by (cases b) simp_all
  qed
  ultimately show thesis by (rule that)
qed

section \<open>A block leaves the list\<close>

definition unlink_major :: "u64 \<Rightarrow> mem \<Rightarrow> mem" where
  "unlink_major B m =
     (let m1 = (if maj_prev m B \<noteq> 0 then set_maj_next (maj_prev m B) (maj_next m B) m else m)
      in if maj_next m1 B \<noteq> 0 then set_maj_prev (maj_next m1 B) (maj_prev m1 B) m1 else m1)"

lemma release_major_eq:
  "release_major B s =
     liballoc_free B (maj_pages (unlink_major B (mem s)) B)
       (s\<lparr>l_memRoot := (if l_memRoot s = B then maj_next (mem s) B else l_memRoot s),
          l_bestBet := (if l_bestBet s = B then 0 else l_bestBet s), mem := unlink_major B (mem s),
          l_allocated := l_allocated s - ucast (maj_size (unlink_major B (mem s)) B)\<rparr>)"
  by (simp add: release_major_def unlink_major_def Let_def)

lemma chained_set_next:
  assumes "chained m pv (as @ [a]) nx" "sorted_wrt region_disj (as @ [a])"
  shows "chained (set_maj_next (rbase a) v m) pv (as @ [a]) v"
proof -
  have A: "chained m pv as (rbase a)" "region_ok m a" "maj_prev m (rbase a) = end_of pv as"
    using assms(1) by (simp_all add: chained_append root_of_def)
  have "chained (set_maj_next (rbase a) v m) pv as (rbase a)"
    using assms(2) region_disj_sym A(2) region_nonempty
    by (intro chained_away [OF A(1), of a]) (auto simp: sorted_wrt_append hdr_simps)
  then show ?thesis using region_links(1) [OF A(2)] A(3) by (simp add: chained_append root_of_def hdr_simps)
qed

lemma chained_set_prev:
  assumes "chained m pv (c # cs) nx" "sorted_wrt region_disj (c # cs)"
  shows "chained (set_maj_prev (rbase c) v m) v (c # cs) nx"
proof -
  have C: "region_ok m c" "chained m (rbase c) cs nx" using assms(1) by simp_all
  have "chained (set_maj_prev (rbase c) v m) (rbase c) cs nx"
    using assms(2) C(1) region_nonempty
    by (intro chained_away [OF C(2), of c]) (auto simp: hdr_simps)
  then show ?thesis using region_links(2) [OF C(1)] assms(1) by (simp add: hdr_simps)
qed

lemma header_change_preserved:
  assumes ok: "\<And>q. q \<in> set rs \<Longrightarrow> region_ok m q" and sorted: "sorted_wrt region_disj rs" and r: "r \<in> set rs"
    and m': "m' = set_maj_next (rbase r) v m \<or> m' = set_maj_prev (rbase r) v m"
  shows "preserved m m' (live rs)" "outside_all rs x \<Longrightarrow> m' x = m x" "\<And>q. q \<in> set rs \<Longrightarrow> region_ok m' q"
proof -
  have out: "m' x = m x" if "outside (rbase r) x" for x using m' that by (auto simp: hdr_simps)
  have size: "40 \<le> rsize r" using ok [OF r] region_nonempty by blast
  then show "outside_all rs x \<Longrightarrow> m' x = m x" by (intro out outside_all_region [OF _ r])
  obtain as cs where rs: "rs = as @ r # cs" using split_list [OF r] by blast
  have far: "region_disj r q" if "q \<in> set as \<or> q \<in> set cs" for q
    using that sorted region_disj_sym unfolding rs by (auto simp: sorted_wrt_append)
  show "region_ok m' q" if "q \<in> set rs" for q
  proof (cases "q = r")
    case True
    then show ?thesis using m' region_links(1,2) [OF ok [OF r]] by auto
  next
    case False
    then show ?thesis using region_away(1) [OF ok [OF that] far size out] that rs by auto
  qed
  have "preserved m m' (live as \<union> Pair (rbase r) ` set (rlist r) \<union> live cs)"
  proof (rule preserved_update)
    show "m' x = m x" if "rsize r \<le> unat (x - rbase r)" for x using that size by (intro out) (simp add: outside_def)
    show "m' (bptr (rbase r) b + 40 + of_nat j) = m (bptr (rbase r) b + 40 + of_nat j)"
      if "b \<in> set (rlist r)" "j < snd b" for b j using m' region_links(3,4) [OF ok [OF r] that] by auto
  qed (use ok sorted rs in auto)
  then show "preserved m m' (live rs)" by (simp add: rs live_parts)
qed

lemma region_pages_eq: "region_ok m r \<Longrightarrow> region_ok m' r \<Longrightarrow> maj_pages m' (rbase r) = maj_pages m (rbase r)"
  by (simp add: region_ok_def word_unat_eq_iff)

text \<open>Two lists of regions and one region on its own, and the memory in which they lie.\<close>

definition parted :: "mem \<Rightarrow> region list \<Rightarrow> region \<Rightarrow> region list \<Rightarrow> u64 \<Rightarrow> u64 \<Rightarrow> bool" where
  "parted m as r cs nx pv \<longleftrightarrow>
     chained m 0 as nx \<and> chained m pv cs 0 \<and> region_ok m r \<and>
     maj_prev m (rbase r) = end_of 0 as \<and> maj_next m (rbase r) = root_of cs 0"

lemma parted_next:
  assumes p: "parted m (ys @ [y]) r cs nx pv" and sorted: "sorted_wrt region_disj ((ys @ [y]) @ r # cs)"
  shows "parted (set_maj_next (rbase y) v m) (ys @ [y]) r cs v pv"
proof -
  note P = p [unfolded parted_def]
  have s: "sorted_wrt region_disj (ys @ [y])" "region_disj y r" "\<And>q. q \<in> set cs \<Longrightarrow> region_disj y q"
    using sorted by (auto simp: sorted_wrt_append)
  have y: "40 \<le> rsize y" using chained_region [of m 0 "ys @ [y]" nx y] P region_nonempty [of m y] by simp
  have out: "set_maj_next (rbase y) v m x = m x" if "outside (rbase y) x" for x using that by (simp add: hdr_simps)
  have r: "region_ok m r" and cs: "chained m pv cs 0" and as: "chained m 0 (ys @ [y]) nx" using P by blast+
  show ?thesis
    using chained_set_next [OF as s(1)] chained_away [OF cs s(3) y out] region_away(1-3) [OF r s(2) y out] P
    by (simp add: parted_def)
qed

lemma parted_prev:
  assumes p: "parted m as r (z # zs) nx pv" and sorted: "sorted_wrt region_disj (as @ r # z # zs)"
  shows "parted (set_maj_prev (rbase z) v m) as r (z # zs) nx v"
proof -
  note P = p [unfolded parted_def]
  have s: "sorted_wrt region_disj (z # zs)" "region_disj z r" "\<And>q. q \<in> set as \<Longrightarrow> region_disj z q"
    using sorted region_disj_sym by (auto simp: sorted_wrt_append)
  have z: "40 \<le> rsize z" using chained_region [of m pv "z # zs" 0 z] P region_nonempty [of m z] by simp
  have out: "set_maj_prev (rbase z) v m x = m x" if "outside (rbase z) x" for x using that by (simp add: hdr_simps)
  have r: "region_ok m r" and cs: "chained m pv (z # zs) 0" and as: "chained m 0 as nx" using P by blast+
  show ?thesis
    using chained_set_prev [OF cs s(1)] chained_away [OF as s(3) z out] region_away(1-3) [OF r s(2) z out] P
    by (simp add: parted_def)
qed

lemma unlink_major_chained:
  assumes ch: "chained m 0 (as @ r # cs) 0" and sorted: "sorted_wrt region_disj (as @ r # cs)"
  defines "m' \<equiv> unlink_major (rbase r) m"
  shows "chained m' 0 (as @ cs) 0" "preserved m m' (live (as @ cs))" "outside_all (as @ cs) x \<Longrightarrow> m' x = m x"
    "maj_pages m' (rbase r) = maj_pages m (rbase r)" "maj_next m (rbase r) = root_of cs 0"
proof -
  let ?R = "rbase r"
  have ok: "region_ok m q" if "q \<in> set (as @ r # cs)" for q by (rule chained_region [OF ch that])
  have nz: "rbase q \<noteq> 0" if "q \<in> set (as @ r # cs)" for q using ok [OF that] region_nonempty by blast
  have s: "sorted_wrt region_disj (as @ cs)" using sorted by (auto simp: sorted_wrt_append)
  have ok': "region_ok m q" if "q \<in> set (as @ cs)" for q using ok that by auto
  have P: "parted m as r cs ?R ?R" using ch by (simp add: parted_def chained_append root_of_def)
  then show next_r: "maj_next m ?R = root_of cs 0" by (simp add: parted_def)
  define m1 where "m1 = (if as = [] then m else set_maj_next (rbase (last as)) (root_of cs 0) m)"
  have M1: "parted m1 as r cs (root_of cs 0) ?R \<and> preserved m m1 (live (as @ cs)) \<and>
      (\<forall>x. outside_all (as @ cs) x \<longrightarrow> m1 x = m x) \<and> (\<forall>q \<in> set (as @ cs). region_ok m1 q)"
  proof (cases as rule: rev_cases)
    case Nil
    then show ?thesis using P ok' by (simp add: m1_def parted_def)
  next
    case (snoc ys y)
    have m1: "m1 = set_maj_next (rbase y) (root_of cs 0) m" by (simp add: m1_def snoc)
    have y: "y \<in> set (as @ cs)" by (simp add: snoc)
    have "parted m1 as r cs (root_of cs 0) ?R"
      using parted_next [OF P [unfolded snoc] sorted [unfolded snoc], of "root_of cs 0"] by (simp add: m1 snoc)
    moreover note H = header_change_preserved [OF ok' s y disjI1 [OF m1]]
    ultimately show ?thesis using H by blast
  qed
  have ok1: "region_ok m1 q" if "q \<in> set (as @ cs)" for q using M1 that by blast
  define m2 where "m2 = (if cs = [] then m1 else set_maj_prev (rbase (hd cs)) (end_of 0 as) m1)"
  have M2: "parted m2 as r cs (root_of cs 0) (end_of 0 as) \<and> preserved m1 m2 (live (as @ cs)) \<and>
      (\<forall>x. outside_all (as @ cs) x \<longrightarrow> m2 x = m1 x)"
  proof (cases cs)
    case Nil
    then show ?thesis using M1 by (simp add: m2_def parted_def)
  next
    case (Cons z zs)
    have m2: "m2 = set_maj_prev (rbase z) (end_of 0 as) m1" by (simp add: m2_def Cons)
    have z: "z \<in> set (as @ cs)" by (simp add: Cons)
    have "parted m1 as r (z # zs) (root_of cs 0) ?R" using M1 Cons by simp
    from parted_prev [OF this sorted [unfolded Cons], of "end_of 0 as"]
    have "parted m2 as r cs (root_of cs 0) (end_of 0 as)" by (simp add: m2 Cons)
    moreover note H = header_change_preserved [OF ok1 s z disjI2 [OF m2]]
    ultimately show ?thesis using H by blast
  qed
  have "m' = m2"
  proof -
    have 1: "maj_prev m ?R = end_of 0 as" "maj_next m ?R = root_of cs 0"
      "maj_prev m1 ?R = end_of 0 as" "maj_next m1 ?R = root_of cs 0" using P M1 by (simp_all add: parted_def)
    have "end_of 0 as \<noteq> 0 \<longleftrightarrow> as \<noteq> []" using nz [of "last as"] by (auto simp: end_of_def)
    moreover have "root_of cs 0 \<noteq> 0 \<longleftrightarrow> cs \<noteq> []" using nz [of "hd cs"] by (auto simp: root_of_def)
    moreover have "as \<noteq> [] \<Longrightarrow> end_of 0 as = rbase (last as)" "cs \<noteq> [] \<Longrightarrow> root_of cs 0 = rbase (hd cs)"
      by (simp_all add: end_of_def root_of_def)
    moreover from calculation 1 have
      "(if maj_prev m ?R \<noteq> 0 then set_maj_next (maj_prev m ?R) (maj_next m ?R) m else m) = m1"
      unfolding m1_def by simp
    ultimately show ?thesis using 1 unfolding m'_def unlink_major_def Let_def m2_def by simp
  qed
  then show "chained m' 0 (as @ cs) 0" using M2 by (simp add: parted_def chained_append)
  show "preserved m m' (live (as @ cs))" unfolding \<open>m' = m2\<close> using M1 M2 preserved_trans by blast
  show "outside_all (as @ cs) x \<Longrightarrow> m' x = m x" unfolding \<open>m' = m2\<close> using M1 M2 by simp
  show "maj_pages m' (rbase r) = maj_pages m (rbase r)"
    unfolding \<open>m' = m2\<close> using M2 P by (intro region_pages_eq) (simp_all add: parted_def)
qed

section \<open>\<open>kfree\<close> on any heap\<close>

text \<open>The regions without one allocation; a region without any is no longer there.\<close>

definition region_minus :: "u64 \<Rightarrow> nat \<Rightarrow> alloc list \<Rightarrow> region list" where
  "region_minus B hi bs = (if bs = [] then [] else [(B, hi, bs)])"

lemma free_in_region:
  assumes inv: "heap_inv s (as @ (B, hi, us @ x # ws) # cs)"
  defines "m' \<equiv> unlink_minor (bptr B x) (mem s)"
  shows "heap_inv (s\<lparr>mem := m'\<rparr>) (as @ (B, hi, us @ ws) # cs)"
    "preserved (mem s) m' (live (as @ (B, hi, us @ ws) # cs))"
    "outside_all (as @ (B, hi, us @ x # ws) # cs) a \<Longrightarrow> m' a = mem s a"
    "maj_first m' B = first_ptr B (us @ ws) 0"
    "min_magic m' (bptr B x) = LIBALLOC_DEAD"
proof -
  let ?r = "(B, hi, us @ x # ws) :: region" and ?q = "(B, hi, us @ ws) :: region"
  have ch: "chained (mem s) 0 (as @ ?r # cs) 0" and sorted: "sorted_wrt region_disj (as @ ?r # cs)"
    and root: "l_memRoot s = root_of (as @ ?r # cs) 0" using inv unfolding heap_inv_def by blast+
  have ok: "region_ok (mem s) q" if "q \<in> set (as @ ?r # cs)" for q by (rule chained_region [OF ch that])
  have blk: "block (mem s) B hi (us @ x # ws)" using ok [of ?r] by (simp add: region_ok_def)
  note U = unlink_block [OF blk, folded m'_def]
  show "min_magic m' (bptr B x) = LIBALLOC_DEAD" by (rule U(3))
  show "maj_first m' B = first_ptr B (us @ ws) 0" using U(1) by (simp add: block_def)
  have out: "m' y = mem s y" if "rsize ?r \<le> unat (y - rbase ?r)" for y using U(2) that by (simp add: kept_def)
  then show "m' a = mem s a" if "outside_all (as @ ?r # cs) a" using that by (simp add: outside_all_def)
  have links: "maj_next m' (rbase ?r) = maj_next (mem s) (rbase ?r)" "maj_prev m' (rbase ?r) = maj_prev (mem s) (rbase ?r)"
    using U(2) by (simp_all add: kept_def)
  have "region_ok m' ?q" using ok [of ?r] U(1,2) by (simp add: region_ok_def kept_def)
  from chained_update [OF ch sorted this _ links out] have "chained m' 0 (as @ ?q # cs) 0" by simp
  moreover have "sorted_wrt region_disj (as @ ?q # cs)" by (rule sorted_swap [OF sorted]) simp_all
  moreover have "root_of (as @ ?q # cs) 0 = root_of (as @ ?r # cs) 0" by (cases as) (simp_all add: root_of_def)
  ultimately show "heap_inv (s\<lparr>mem := m'\<rparr>) (as @ ?q # cs)"
    using inv root by (simp add: heap_inv_def)
  have "preserved (mem s) m' (live as \<union> Pair (rbase ?r) ` set (us @ ws) \<union> live cs)"
    using U(2) by (intro preserved_update [OF ok sorted out]) (auto simp: kept_def)
  then show "preserved (mem s) m' (live (as @ ?q # cs))" by (simp add: live_parts)
qed

text \<open>The pages of a region leave the list of blocks and go back to the manager.\<close>

lemma release_region:
  assumes inv: "heap_inv s (as @ (B, hi, []) # cs)" and wf: "stack_wf s"
    and apart: "\<And>y. pgno y \<in> stack_region s \<Longrightarrow> outside_all (as @ cs) y"
  obtains t where "release_major B s = Ret () t" "heap_inv t (as @ cs)" "preserved (mem s) (mem t) (live (as @ cs))"
    "\<And>y. outside_all (as @ cs) y \<Longrightarrow> pgno y \<notin> stack_region s \<Longrightarrow> mem t y = mem s y"
    "stack_wf t" "stack_region t = stack_region s" "liballoc_lock_var t = liballoc_lock_var s" "l_inuse t = l_inuse s"
    "klog t = klog s @ overflow_log s (hi div 4096)"
proof -
  let ?r = "(B, hi, []) :: region"
  have ch: "chained (mem s) 0 (as @ ?r # cs) 0" and sorted: "sorted_wrt region_disj (as @ ?r # cs)"
    and root: "l_memRoot s = root_of (as @ ?r # cs) 0"
    and bet: "l_bestBet s = 0 \<or> l_bestBet s \<in> rbase ` set (as @ ?r # cs)" using inv unfolding heap_inv_def by blast+
  have ok: "region_ok (mem s) q" if "q \<in> set (as @ ?r # cs)" for q by (rule chained_region [OF ch that])
  note L = unlink_major_chained [OF ch sorted, simplified fst_conv]
  let ?m = "unlink_major B (mem s)"
  define n where "n = maj_pages (mem s) B"
  have B: "B \<noteq> 0" "aligned B" "4096 * unat n = hi" "hi < 2 ^ 32" "40 \<le> hi"
    using ok [of ?r] region_nonempty [of "mem s" ?r] by (simp_all add: region_ok_def n_def block_def)
  define s1 where "s1 = s\<lparr>l_memRoot := (if l_memRoot s = B then maj_next (mem s) B else l_memRoot s),
          l_bestBet := (if l_bestBet s = B then 0 else l_bestBet s), mem := ?m,
          l_allocated := l_allocated s - ucast (maj_size ?m B)\<rparr>"
  have rel: "release_major B s = liballoc_free B n s1"
    unfolding release_major_eq s1_def using L(4) by (simp add: n_def)
  have n: "scast n = (ucast n :: u64)" using B by (intro scast_small) simp
  have k: "unat (ucast n :: u64) = hi div 4096" using unat_index(1) [of n] B(3) by simp
  have "unat n \<noteq> 0" using B(3,5) by (intro notI) simp
  then have pos: "0 < (ucast n :: u64)" using unat_index(1) [of n] by (simp add: word_less_nat_alt)
  have "stack_wf s1" using wf by (simp add: s1_def stack_wf_def)
  from free_pages_frame [OF this B(1,2) pos] obtain t where t: "pmm_free_pages B (ucast n) s1 = Ret () t" "stack_wf t"
    "\<And>x. pgno x \<notin> stack_region s1 \<Longrightarrow> mem t x = mem s1 x"
    "t = s1\<lparr>mem := mem t, pm_stack_idx := pm_stack_idx t, pm_free_pages := pm_free_pages t, pm_used_pages := pm_used_pages t,
      klog := klog s1 @ overflow_log s1 (unat (ucast n :: u64))\<rparr>"
    by blast
  have region: "stack_region s1 = stack_region s" by (simp add: s1_def stack_region_def)
  have f: "l_memRoot t = l_memRoot s1" "l_bestBet t = l_bestBet s1" "liballoc_lock_var t = liballoc_lock_var s"
    "l_inuse t = l_inuse s" "stack_region t = stack_region s" "klog t = klog s @ overflow_log s (hi div 4096)"
    by (subst t(4), simp add: s1_def stack_region_def k overflow_log_def)+
  have same: "mem t (rbase q + of_nat i) = ?m (rbase q + of_nat i)" if "q \<in> set (as @ cs)" "i < rsize q" for q i
  proof -
    have "hi < 2 ^ 32" if "(a, hi, b) \<in> set (as @ cs)" for a hi b using ok [of "(a, hi, b)"] that by (auto simp: region_ok_def block_def)
    then have "i < 2 ^ 64" using that by (cases q) force
    then have "unat (rbase q + of_nat i - rbase q) = i" by (simp add: unat_of_nat_small)
    then have "\<not> outside_all (as @ cs) (rbase q + of_nat i)" using that unfolding outside_all_def by (metis not_le)
    then have "pgno (rbase q + of_nat i) \<notin> stack_region s1" using apart region by blast
    from t(3) [OF this] show ?thesis by (simp add: s1_def)
  qed
  have "chained (mem t) 0 (as @ cs) 0" by (rule chained_cong [OF L(1) same])
  moreover have "sorted_wrt region_disj (as @ cs)" using sorted by (auto simp: sorted_wrt_append)
  moreover have "l_memRoot t = root_of (as @ cs) 0"
  proof (cases as)
    case Nil
    then show ?thesis using root L(5) f(1) by (simp add: s1_def root_of_def)
  next
    case (Cons a as')
    have "region_disj a ?r" using sorted Cons by simp
    then have "rbase a \<noteq> B"
      using disj_neq [of "rbase a" "rsize a" B hi 0 0] ok [of a] B(5) region_nonempty [of "mem s" a] Cons
      by (auto simp: region_disj_def)
    then show ?thesis using root f(1) Cons by (simp add: s1_def root_of_def)
  qed
  moreover have "l_bestBet t = 0 \<or> l_bestBet t \<in> rbase ` set (as @ cs)" using bet f(2) by (auto simp: s1_def)
  ultimately have "heap_inv t (as @ cs)" by (simp add: heap_inv_def)
  moreover have "preserved (mem s) (mem t) (live (as @ cs))"
  proof -
    have "preserved ?m (mem t) (live (as @ cs))"
      unfolding preserved_def live_def
    proof (intro ballI allI impI)
      fix c j
      assume "c \<in> (\<Union>r\<in>set (as @ cs). Pair (rbase r) ` set (rlist r))" and j: "j < snd (snd c)"
      then obtain q b where q: "q \<in> set (as @ cs)" "b \<in> set (rlist q)" "c = (rbase q, b)" by blast
      have "region_ok ?m q" by (rule chained_region [OF L(1) q(1)])
      from region_cong(4) [OF this same [OF q(1)] q(2)] j q(3)
      show "mem t (bptr (fst c) (snd c) + 40 + of_nat j) = ?m (bptr (fst c) (snd c) + 40 + of_nat j)" by simp
    qed
    then show ?thesis using L(2) preserved_trans by blast
  qed
  moreover have "mem t y = mem s y" if "outside_all (as @ cs) y" "pgno y \<notin> stack_region s" for y
    using t(3) [of y] that region L(3) [OF that(1)] by (simp add: s1_def)
  moreover have "release_major B s = Ret () t" using rel t(1) n by (simp add: liballoc_free_def)
  ultimately show thesis using t(2) f(3-6) by (intro that [of t]) simp_all
qed

lemma update_bet_inv:
  assumes "heap_inv s rs" "r \<in> set rs"
  shows "heap_inv (update_bet (rbase r) s) rs" "mem (update_bet B s) = mem s"
    "liballoc_lock_var (update_bet B s) = liballoc_lock_var s" "l_inuse (update_bet B s) = l_inuse s"
    "stack_wf (update_bet B s) = stack_wf s" "klog (update_bet B s) = klog s" "stack_region (update_bet B s) = stack_region s"
    "pm_stack_idx (update_bet B s) = pm_stack_idx s" "same_stack t (update_bet B s) = same_stack t s"
  using assms by (auto simp: update_bet_def heap_inv_def stack_wf_def stack_region_def same_stack_def)

lemma unlock_stack [simp]:
  "same_stack s (liballoc_unlock t) = same_stack s t" "pm_stack_idx (liballoc_unlock t) = pm_stack_idx t"
  by (simp_all add: same_stack_def liballoc_unlock_def)

lemma live_Nil: "live [] = {}"
  by (simp add: live_def)

lemma region_minus_live: "live (as @ region_minus B hi bs @ cs) = live (as @ (B, hi, bs) # cs)"
  by (simp add: region_minus_def live_append live_Cons live_Nil)

lemma kfree_any:
  assumes ok: "heap_ok s (as @ (B, hi, us @ x # ws) # cs)" and sv: "serves (mem s) B x n p"
    and wf: "stack_wf s" and apart: "\<And>y. pgno y \<in> stack_region s \<Longrightarrow> outside_all (as @ (B, hi, us @ x # ws) # cs) y"
  defines "rs' \<equiv> as @ region_minus B hi (us @ ws) @ cs"
  shows "\<exists>s'. kfree p s = Some (Ret () s') \<and> heap_ok s' rs' \<and> preserved (mem s) (mem s') (live rs') \<and>
    (\<forall>y. outside_all (as @ (B, hi, us @ x # ws) # cs) y \<and> pgno y \<notin> stack_region s \<longrightarrow> mem s' y = mem s y) \<and>
    stack_wf s' \<and> stack_region s' = stack_region s \<and> l_inuse s' = l_inuse s - of_nat (snd x) \<and>
    klog s' = klog s @ (if us @ ws = [] then overflow_log s (hi div 4096) else []) \<and>
    (us @ ws \<noteq> [] \<longrightarrow> same_stack s s' \<and> pm_stack_idx s' = pm_stack_idx s \<and>
      (\<forall>y. outside_all (as @ (B, hi, us @ x # ws) # cs) y \<longrightarrow> mem s' y = mem s y))"
proof -
  let ?rs = "as @ (B, hi, us @ x # ws) # cs" and ?X = "bptr B x"
  have inv: "heap_inv s ?rs" and free: "locked (liballoc_lock_var s) = 0" using ok by (simp_all add: heap_ok_def)
  have "region_ok (mem s) (B, hi, us @ x # ws)"
    using inv chained_region [of "mem s" 0 ?rs 0 "(B, hi, us @ x # ws)"] by (simp add: heap_inv_def)
  then have blk: "block (mem s) B hi (us @ x # ws)" by (simp add: region_ok_def)
  note sp = serves_pointer [OF blk _ sv, simplified]
  define m' where "m' = unlink_minor ?X (mem s)"
  note F = free_in_region [OF inv, folded m'_def]
  have h: "min_magic (mem s) ?X = LIBALLOC_MAGIC" "min_block (mem s) ?X = B" "unat (min_size (mem s) ?X) = snd x"
    using blk by (auto simp: block_def linked_append header_def)
  have size: "ucast (min_size (mem s) ?X) = (of_nat (snd x) :: u64)" using h(3) by (metis of_nat_unat)
  have X: "UNALIGN p (mem s) - sizeof_minor = ?X" by (simp add: sp(2) sizeof_minor_def)
  let ?s1 = "s\<lparr>liballoc_lock_var := (liballoc_lock_var s)\<lparr>locked := 1\<rparr>\<rparr>"
  define s3 where "s3 = ?s1\<lparr>l_inuse := l_inuse s - of_nat (snd x), mem := m'\<rparr>"
  have lock: "liballoc_lock s = Some ?s1" using free by (simp add: liballoc_lock_def acquire_eq)
  have inv3: "heap_inv s3 (as @ (B, hi, us @ ws) # cs)" using F(1) by (simp add: s3_def heap_inv_def)
  have s3: "mem s3 = m'" "stack_wf s3" "stack_region s3 = stack_region s" "l_inuse s3 = l_inuse s - of_nat (snd x)"
    "klog s3 = klog s" "overflow_log s3 k = overflow_log s k" for k
    using wf by (simp_all add: s3_def stack_wf_def stack_region_def overflow_log_def)
  have run: "kfree p s = (if maj_first m' B = 0
       then (case release_major B s3 of
               Halt s4 \<Rightarrow> Some (Halt s4)
             | Ret _ s4 \<Rightarrow> Some (Ret () (liballoc_unlock s4)))
       else Some (Ret () (liballoc_unlock (update_bet B s3))))"
    using sp(1) h(1,2) size by (simp add: kfree_def lock X Let_def s3_def flip: m'_def)
  show ?thesis
  proof (cases "us @ ws = []")
    case True
    then have nil: "us = []" "ws = []" by simp_all
    then have first: "maj_first m' B = 0" using F(4) by (simp add: first_ptr_def)
    have apart': "outside_all (as @ cs) y" if "pgno y \<in> stack_region s3" for y
      using apart [of y] that s3(3) by (auto simp: outside_all_def)
    obtain t where t: "release_major B s3 = Ret () t"
      "heap_inv t (as @ cs)" "preserved m' (mem t) (live (as @ cs))"
      "\<And>y. outside_all (as @ cs) y \<Longrightarrow> pgno y \<notin> stack_region s \<Longrightarrow> mem t y = m' y"
      "stack_wf t" "stack_region t = stack_region s" "l_inuse t = l_inuse s - of_nat (snd x)"
      "klog t = klog s @ overflow_log s (hi div 4096)"
    proof (rule release_region [OF inv3 [unfolded True] s3(2) apart'], goal_cases)
      case (2 t)
      then show thesis by (intro that [of t]) (simp_all only: s3)
    qed
    have rs': "rs' = as @ cs" by (simp add: rs'_def region_minus_def nil)
    have "kfree p s = Some (Ret () (liballoc_unlock t))" using run first t(1) by simp
    moreover have "heap_ok (liballoc_unlock t) rs'" using t(2) by (simp add: heap_ok_def rs')
    moreover have "preserved (mem s) (mem t) (live rs')"
      unfolding rs' by (rule preserved_trans [OF _ t(3)], rule preserved_trans [OF preserved_refl F(2)])
        (auto simp: live_append live_Cons)
    moreover have "mem t y = mem s y" if "outside_all ?rs y" "pgno y \<notin> stack_region s" for y
      using t(4) [of y] F(3) [of y] that by (auto simp: outside_all_def)
    moreover have "stack_wf (liballoc_unlock t)" "stack_region (liballoc_unlock t) = stack_region s"
      using t(5,6) by (simp_all add: liballoc_unlock_def stack_wf_def stack_region_def)
    moreover have "klog (liballoc_unlock t) = klog s @ overflow_log s (hi div 4096)"
      using t(8) by (simp add: liballoc_unlock_def)
    ultimately show ?thesis using t(7) True by (intro exI [of _ "liballoc_unlock t"]) simp
  next
    case False
    have "region_ok m' (B, hi, us @ ws)"
      using inv3 chained_region [of "mem s3" 0 "as @ (B, hi, us @ ws) # cs" 0 "(B, hi, us @ ws)"] s3(1)
      by (simp add: heap_inv_def)
    then have "block m' B hi (us @ ws)" by (simp add: region_ok_def)
    from bptr_unat(2) [OF this hd_in_set [OF False]] have "bptr B (hd (us @ ws)) \<noteq> 0" .
    then have first: "maj_first m' B \<noteq> 0" using F(4) False by (simp add: first_ptr_def)
    have in_rs: "(B, hi, us @ ws) \<in> set (as @ (B, hi, us @ ws) # cs)" by simp
    note U = update_bet_inv [OF inv3 in_rs, simplified fst_conv]
    have rs': "rs' = as @ (B, hi, us @ ws) # cs" using False by (simp add: rs'_def region_minus_def)
    have "same_stack s s3" "pm_stack_idx s3 = pm_stack_idx s" by (simp_all add: s3_def same_stack_def)
    then have i3: "pm_stack_idx (update_bet B s3) = pm_stack_idx s" "same_stack s (update_bet B s3)"
      using U(8,9) by simp_all
    have "kfree p s = Some (Ret () (liballoc_unlock (update_bet B s3)))" using run first by simp
    moreover have "heap_ok (liballoc_unlock (update_bet B s3)) rs'" using U(1) by (simp add: heap_ok_def rs')
    moreover have "stack_wf (liballoc_unlock (update_bet B s3))"
      "stack_region (liballoc_unlock (update_bet B s3)) = stack_region s"
      using U(5,7) s3 by (simp_all add: liballoc_unlock_def stack_wf_def stack_region_def)
    moreover have "klog (liballoc_unlock (update_bet B s3)) = klog s"
      using U(6) s3(5) by (simp add: liballoc_unlock_def)
    ultimately show ?thesis
      unfolding if_not_P [OF False] using F(2,3) U(2,4,8) s3(1,4) rs' i3 by (intro exI [of _ "liballoc_unlock (update_bet B s3)"]) simp
  qed
qed

text \<open>
  C11. \<open>kfree\<close> of a pointer that serves an allocation, in a well-formed heap of any number of
  blocks that lie apart from the stack of free pages, returns. It takes exactly that
  allocation away, and its block with it when it was the last one there; the heap stays
  well-formed with a free lock, the bytes of every other allocation are unchanged, and so is
  all memory outside the blocks and the stack, and the stack itself when the block stays. Nothing is logged, unless the block is handed
  back to a stack without room for its pages, which the page manager reports.
\<close>

theorem kfree_heap:
  assumes "heap_ok s (as @ (B, hi, us @ x # ws) # cs)" "serves (mem s) B x n p" "stack_wf s"
    and "\<And>y. pgno y \<in> stack_region s \<Longrightarrow> outside_all (as @ (B, hi, us @ x # ws) # cs) y"
  shows "\<exists>s'. kfree p s = Some (Ret () s') \<and> heap_ok s' (as @ region_minus B hi (us @ ws) @ cs) \<and>
    preserved (mem s) (mem s') (live (as @ region_minus B hi (us @ ws) @ cs)) \<and>
    (\<forall>y. outside_all (as @ (B, hi, us @ x # ws) # cs) y \<and> pgno y \<notin> stack_region s \<longrightarrow> mem s' y = mem s y) \<and>
    stack_wf s' \<and> stack_region s' = stack_region s \<and> l_inuse s' = l_inuse s - of_nat (snd x) \<and>
    klog s' = klog s @ (if us @ ws = [] then overflow_log s (hi div 4096) else []) \<and>
    (us @ ws \<noteq> [] \<longrightarrow> same_stack s s' \<and> pm_stack_idx s' = pm_stack_idx s \<and>
      (\<forall>y. outside_all (as @ (B, hi, us @ x # ws) # cs) y \<longrightarrow> mem s' y = mem s y))"
  by (rule kfree_any [OF assms])

lemma kfree_heap_witness: "\<exists>s'. kfree 0x10060 single_heap = Some (Ret () s') \<and> heap_ok s' []"
proof -
  have ok: "heap_ok single_heap ([] @ (0x10000, 65536, [] @ (40, 132) # []) # [])" using single_heap_ok by simp
  have "outside_all ([] @ (0x10000, 65536, [] @ (40, 132) # []) # []) y" if "pgno y \<in> stack_region single_heap" for y
    using single_heap_apart [OF that] by (simp add: outside_all_def)
  from kfree_heap [OF ok single_heap_block(2) single_heap_stack(1) this]
  show ?thesis by (simp add: region_minus_def) blast
qed

end
