(* ===== verification/HeapRuns.thy ===== *)
theory HeapRuns
  imports HeapFree
begin

text \<open>
  The heap and its client: any sequence of calls of \<open>kmalloc\<close> and \<open>kfree\<close>, of writes of the
  client to memory it holds, and of requests for frames by other parts of the kernel. The
  client's view is a map from the pointers it holds to the sizes it asked for, and a map of
  the bytes it wrote.
\<close>

section \<open>Pointers and what serves them\<close>

lemma same_slot:
  fixes a i j :: nat
  assumes "16 dvd a + i" "16 dvd a + j" "16 \<le> i" "i \<le> 31" "16 \<le> j" "j \<le> 31"
  shows "i = j"
proof -
  have "16 dvd j - i" "16 dvd i - j"
    using dvd_diff_nat [OF assms(2,1)] dvd_diff_nat [OF assms(1,2)] by simp_all
  then have "j - i = 0" "i - j = 0" using assms(3-) dvd_imp_le [of 16 "j - i"] dvd_imp_le [of 16 "i - j"] by linarith+
  then show ?thesis by simp
qed

lemma serves_unique:
  assumes "serves m B b n p" "serves m B b k q"
  shows "p = q"
proof -
  obtain i j where i: "16 \<le> i" "i \<le> 31" "p = bptr B b + 40 + of_nat i" and j: "16 \<le> j" "j \<le> 31" "q = bptr B b + 40 + of_nat j"
    using assms by (auto simp: serves_def)
  have "unat p mod 16 = 0" "unat q mod 16 = 0" using assms and_15(1) by (auto simp: serves_def)
  then have "(unat (bptr B b + 40) mod 16 + i) mod 16 = 0" "(unat (bptr B b + 40) mod 16 + j) mod 16 = 0"
    using i(2) j(2) unat_add_mod_16 [of "bptr B b + 40" "of_nat i"] unat_add_mod_16 [of "bptr B b + 40" "of_nat j"]
    unfolding i(3) j(3) by (simp_all add: unat_of_nat_small)
  then have "16 dvd unat (bptr B b + 40) + i" "16 dvd unat (bptr B b + 40) + j"
    by (simp_all add: mod_simps dvd_eq_mod_eq_0)
  then have "i = j" using i(1,2) j(1,2) by (intro same_slot)
  with i(3) j(3) show ?thesis by simp
qed

lemma live_region: "(B, b) \<in> live rs \<Longrightarrow> \<exists>hi bs. (B, hi, bs) \<in> set rs \<and> b \<in> set bs"
proof -
  assume "(B, b) \<in> live rs"
  then obtain r where "r \<in> set rs" "(B, b) \<in> Pair (rbase r) ` set (rlist r)" unfolding live_def by blast
  then have "b \<in> set (rlist r)" "(B, rsize r, rlist r) \<in> set rs" by auto
  then show ?thesis by blast
qed

lemma same_base:
  assumes ok: "\<And>r. r \<in> set rs \<Longrightarrow> region_ok m r" and sorted: "sorted_wrt region_disj rs"
    and "q \<in> set rs" "r \<in> set rs" "q \<noteq> r"
  shows "region_disj q r" "rbase q \<noteq> rbase r"
proof -
  obtain as cs where rs: "rs = as @ q # cs" using split_list [OF assms(3)] by blast
  then have "r \<in> set as \<or> r \<in> set cs" using assms(4,5) by auto
  moreover have "\<forall>x \<in> set as. region_disj x q" "\<forall>x \<in> set cs. region_disj q x"
    using sorted by (simp_all add: rs sorted_wrt_append)
  ultimately show d: "region_disj q r" using region_disj_sym [of q r] by blast
  have "0 < rsize q" "0 < rsize r" using region_nonempty [OF ok] assms(3,4) by fastforce+
  from disj_neq [OF d [unfolded region_disj_def] this] show "rbase q \<noteq> rbase r" by simp
qed

text \<open>The bytes of two allocations are different bytes.\<close>

lemma live_apart:
  assumes inv: "heap_inv s rs" and b: "(B, b) \<in> live rs" "i < snd b" and c: "(A, c) \<in> live rs" "j < snd c"
    and ne: "(B, b) \<noteq> (A, c)"
  shows "bptr B b + 40 + of_nat i \<noteq> bptr A c + 40 + of_nat j"
proof -
  have ok: "region_ok (mem s) r" if "r \<in> set rs" for r using inv chained_region [OF _ that] unfolding heap_inv_def by blast
  have sorted: "sorted_wrt region_disj rs" using inv by (simp add: heap_inv_def)
  obtain hi bs where r: "(B, hi, bs) \<in> set rs" "b \<in> set bs" using live_region [OF b(1)] by blast
  obtain hi' cs where q: "(A, hi', cs) \<in> set rs" "c \<in> set cs" using live_region [OF c(1)] by blast
  have blk: "block (mem s) B hi bs" "block (mem s) A hi' cs" using ok [OF r(1)] ok [OF q(1)] by (simp_all add: region_ok_def)
  show ?thesis
  proof (cases "(B, hi, bs) = (A, hi', cs)")
    case True
    then have "b \<noteq> c" "c \<in> set bs" using ne q by auto
    moreover have "spaced 40 bs hi" "hi < 2 ^ 32" using blk(1) by (simp_all add: block_def)
    ultimately show ?thesis using payload_apart [of bs hi b c i j B] r(2) b(2) c(2) True by blast
  next
    case False
    have d: "disj B hi A hi'" using same_base(1) [OF ok sorted r(1) q(1) False] by (simp add: region_disj_def)
    have "fst b + 40 + i < hi" "fst c + 40 + j < hi'"
      using bptr_unat(4) [OF blk(1) r(2)] bptr_unat(4) [OF blk(2) q(2)] b(2) c(2) by simp_all
    from disj_neq [OF d this] show ?thesis by (simp add: bptr_def add.assoc)
  qed
qed

lemma added_fresh:
  assumes inv: "heap_inv s rs'" and "added new rs B x rs'"
  shows "(B, x) \<notin> live rs" "(B, x) \<in> live rs'" "live rs \<subseteq> live rs'"
proof -
  note L = live_added [OF assms(2)]
  then show "(B, x) \<in> live rs'" "live rs \<subseteq> live rs'" by auto
  have ok: "region_ok (mem s) r" if "r \<in> set rs'" for r using inv chained_region [OF _ that] unfolding heap_inv_def by blast
  have sorted: "sorted_wrt region_disj rs'" using inv by (simp add: heap_inv_def)
  obtain as hi us ws cs where a: "rs' = as @ (B, hi, us @ x # ws) # cs"
    "rs = as @ (B, hi, us @ ws) # cs \<or> rs = as \<and> us = [] \<and> ws = [] \<and> cs = []"
  proof (cases new)
    case None
    with assms(2) show thesis by (auto intro: that)
  next
    case (Some N)
    with assms(2) show thesis using that [of rs "snd N" "[]" "[]" "[]"] by (cases N) simp
  qed
  let ?r = "(B, hi, us @ x # ws) :: region"
  have r: "?r \<in> set rs'" by (simp add: a(1))
  have "spaced 40 (us @ x # ws) hi" using ok [OF r] by (simp add: region_ok_def block_def)
  then have x: "x \<notin> set (us @ ws)" using spaced_distinct by fastforce
  have other: "rbase q \<noteq> B" if "q \<in> set as \<or> q \<in> set cs" for q
  proof -
    have "q \<in> set rs'" using that a(1) by auto
    moreover have "\<forall>x \<in> set as. region_disj x ?r" "\<forall>x \<in> set cs. region_disj ?r x"
      using sorted by (simp_all add: a(1) sorted_wrt_append)
    then have "region_disj q ?r" using that region_disj_sym [of q ?r] by blast
    then have "q \<noteq> ?r" using region_nonempty [OF ok [OF r]] by (auto simp: region_disj_def disj_def)
    ultimately show ?thesis using same_base(2) [OF ok sorted _ r] by auto
  qed
  have "(B, x) \<notin> live as" "(B, x) \<notin> live cs" using other by (force simp: live_def)+
  with a(2) x show "(B, x) \<notin> live rs" by (auto simp: live_append live_Cons)
qed

section \<open>Runs\<close>

text \<open>
  What a request needs from the physical memory manager when no block has room for it: null,
  or pages that lie apart from the blocks in use and from the stack of free pages.
\<close>

definition supplied :: "'a heap_state_scheme \<Rightarrow> region list \<Rightarrow> u64 \<Rightarrow> bool" where
  "supplied s rs req \<longleftrightarrow>
     some_fits rs req \<or>
     supplies s rs (request_pages req) \<and>
     (\<forall>y. pgno y \<in> stack_region s \<longrightarrow> snd (new_block s req) \<le> unat (y - fst (new_block s req)))"

definition supply_ok :: "'a heap_state_scheme \<Rightarrow> u64 \<Rightarrow> bool" where
  "supply_ok s req \<longleftrightarrow> (\<forall>rs. heap_ok s rs \<longrightarrow> supplied s rs req)"

inductive heap_run ::
  "'a heap_state_scheme \<Rightarrow> (u64 \<rightharpoonup> nat) \<Rightarrow> (u64 \<rightharpoonup> u8) \<Rightarrow> bool"
where
  start: "\<lbrakk>heap_ok s []; l_inuse s = 0; stack_wf s; klog s = []\<rbrakk> \<Longrightarrow> heap_run s Map.empty Map.empty"
| malloc: "\<lbrakk>heap_run s P C; unat req + 4207 < 2 ^ 32; supply_ok s req; kmalloc req s = Some (p, s'); p \<noteq> 0\<rbrakk> \<Longrightarrow>
    heap_run s' (P(p \<mapsto> unat req)) C"
| malloc_null: "\<lbrakk>heap_run s P C; unat req + 4207 < 2 ^ 32; supply_ok s req; kmalloc req s = Some (0, s')\<rbrakk> \<Longrightarrow>
    heap_run s' P C"
| free: "\<lbrakk>heap_run s P C; P p = Some n; kfree p s = Some (Ret () s')\<rbrakk> \<Longrightarrow>
    heap_run s' (P(p := None)) (C |` {a. n \<le> unat (a - p)})"
| store: "\<lbrakk>heap_run s P C; P p = Some n; i < n\<rbrakk> \<Longrightarrow>
    heap_run (s\<lparr>mem := st8 (p + of_nat i) v (mem s)\<rparr>) P (C(p + of_nat i \<mapsto> v))"
| frames: "\<lbrakk>heap_run s P C; pmm_request_pages k s = (q, s')\<rbrakk> \<Longrightarrow> heap_run s' P C"

text \<open>The invariant: some list of regions describes the heap, and serves what the client holds.\<close>

definition holds :: "mem \<Rightarrow> region list \<Rightarrow> u64 \<Rightarrow> nat \<Rightarrow> bool" where
  "holds m rs p n \<longleftrightarrow> (\<exists>B b. (B, b) \<in> live rs \<and> snd b = n + 32 \<and> serves m B b n p)"

definition client_inv ::
  "'a heap_state_scheme \<Rightarrow> region list \<Rightarrow> (u64 \<rightharpoonup> nat) \<Rightarrow> (u64 \<rightharpoonup> u8) \<Rightarrow> bool" where
  "client_inv s rs P C \<longleftrightarrow>
     heap_ok s rs \<and> stack_wf s \<and> (\<forall>y. pgno y \<in> stack_region s \<longrightarrow> outside_all rs y) \<and>
     (\<forall>p n. P p = Some n \<longrightarrow> holds (mem s) rs p n) \<and>
     (\<forall>a v. C a = Some v \<longrightarrow> mem s a = v \<and> (\<exists>p n. P p = Some n \<and> unat (a - p) < n))"

text \<open>
  The books: no block is empty, every allocation of the heap serves a pointer of the client,
  and the counter of bytes in use is the sum over the pointers, with the padding.
\<close>

definition held_size :: "(u64 \<rightharpoonup> nat) \<Rightarrow> nat" where
  "held_size P = (\<Sum>p \<in> dom P. the (P p) + 32)"

definition account_inv :: "'a heap_state_scheme \<Rightarrow> region list \<Rightarrow> (u64 \<rightharpoonup> nat) \<Rightarrow> bool" where
  "account_inv s rs P \<longleftrightarrow>
     (\<forall>r \<in> set rs. rlist r \<noteq> []) \<and>
     (\<forall>B b. (B, b) \<in> live rs \<longrightarrow> (\<exists>p n. P p = Some n \<and> snd b = n + 32 \<and> serves (mem s) B b n p)) \<and>
     finite (dom P) \<and> l_inuse s = of_nat (held_size P)"

lemma held_size_add: "finite (dom P) \<Longrightarrow> p \<notin> dom P \<Longrightarrow> held_size (P(p \<mapsto> n)) = held_size P + (n + 32)"
proof -
  assume "finite (dom P)" "p \<notin> dom P"
  moreover from this have "(\<Sum>q \<in> dom P. the ((P(p \<mapsto> n)) q) + 32) = held_size P"
    unfolding held_size_def by (intro sum.cong) auto
  ultimately show ?thesis by (simp add: held_size_def)
qed

lemma held_size_remove: "finite (dom P) \<Longrightarrow> P p = Some n \<Longrightarrow> held_size P = held_size (P(p := None)) + (n + 32)"
proof -
  assume a: "finite (dom P)" "P p = Some n"
  have "(\<Sum>q \<in> dom P - {p}. the ((P(p := None)) q) + 32) = (\<Sum>q \<in> dom P - {p}. the (P q) + 32)"
    by (intro sum.cong) auto
  with a sum.remove [of "dom P" p "\<lambda>q. the (P q) + 32"] show ?thesis by (simp add: held_size_def domI)
qed

lemma holds_apart:
  assumes inv: "heap_inv s rs" and p: "holds (mem s) rs p n" and q: "holds (mem s) rs q k" and ne: "p \<noteq> q"
    and i: "i < n \<or> i = 0" and j: "j < k \<or> j = 0"
  shows "p + of_nat i \<noteq> q + of_nat j"
proof -
  obtain B b where b: "(B, b) \<in> live rs" "snd b = n + 32" "serves (mem s) B b n p" using p by (auto simp: holds_def)
  obtain A c where c: "(A, c) \<in> live rs" "snd c = k + 32" "serves (mem s) A c k q" using q by (auto simp: holds_def)
  obtain l where l: "l \<le> 31" "p = bptr B b + 40 + of_nat l" using b(3) by (auto simp: serves_def)
  obtain o' where o': "o' \<le> 31" "q = bptr A c + 40 + of_nat o'" using c(3) by (auto simp: serves_def)
  have "(B, b) \<noteq> (A, c)" using serves_unique [OF b(3)] c(3) ne by blast
  moreover have "l + i < snd b" "o' + j < snd c" using i j l(1) o'(1) b(2) c(2) by auto
  ultimately have "bptr B b + 40 + of_nat (l + i) \<noteq> bptr A c + 40 + of_nat (o' + j)"
    using live_apart [OF inv b(1) _ c(1)] by blast
  then show ?thesis using l(2) o'(2) by (simp add: add.assoc)
qed

lemma holds_nonzero:
  assumes "heap_inv s rs" "holds (mem s) rs p n"
  shows "p \<noteq> 0" "p AND 15 = 0"
proof -
  obtain B b where b: "(B, b) \<in> live rs" "serves (mem s) B b n p" using assms(2) by (auto simp: holds_def)
  obtain hi bs where r: "(B, hi, bs) \<in> set rs" "b \<in> set bs" using live_region [OF b(1)] by blast
  have "region_ok (mem s) (B, hi, bs)" using assms(1) chained_region [OF _ r(1)] unfolding heap_inv_def by blast
  then have "block (mem s) B hi bs" by (simp add: region_ok_def)
  from serves_pointer(1) [OF this r(2) b(2)] show "p \<noteq> 0" .
  show "p AND 15 = 0" using b(2) by (simp add: serves_def)
qed

text \<open>What is kept for one allocation.\<close>

lemma preserved_serves:
  assumes "preserved m m' A" "(B, b) \<in> A" "serves m B b n p"
  shows "serves m' B b n p" "unat (a - p) < n \<Longrightarrow> m' a = m a"
proof -
  have same: "m' (bptr B b + 40 + of_nat j) = m (bptr B b + 40 + of_nat j)" if "j < snd b" for j
    using assms(1,2) that unfolding preserved_def by force
  from serves_cong(1) [OF assms(3) this] show "serves m' B b n p" .
  assume "unat (a - p) < n"
  from serves_cong(2) [OF assms(3) same this] show "m' a = m a" by simp
qed

text \<open>The client's view carries over to a new heap that preserves what the client still holds.\<close>

lemma client_carry:
  assumes inv: "client_inv s rs P C" and ok: "heap_ok s' rs'" and wf: "stack_wf s'"
    and stack: "\<And>y. pgno y \<in> stack_region s' \<Longrightarrow> outside_all rs' y"
    and keep: "preserved (mem s) (mem s') (live rs \<inter> live rs')"
    and sub: "P' \<subseteq>\<^sub>m P" "C' \<subseteq>\<^sub>m C"
    and still: "\<And>p n B b. P' p = Some n \<Longrightarrow> (B, b) \<in> live rs \<Longrightarrow> serves (mem s) B b n p \<Longrightarrow> (B, b) \<in> live rs'"
    and range: "\<And>a v. C' a = Some v \<Longrightarrow> \<exists>p n. P' p = Some n \<and> unat (a - p) < n"
  shows "client_inv s' rs' P' C'"
proof -
  have held: "holds (mem s) rs p n" if "P' p = Some n" for p n
    using that sub(1) inv unfolding map_le_def client_inv_def by (metis domI)
  have H: "holds (mem s') rs' p n \<and> (\<forall>a. unat (a - p) < n \<longrightarrow> mem s' a = mem s a)" if P: "P' p = Some n" for p n
  proof -
    obtain B b where b: "(B, b) \<in> live rs" "snd b = n + 32" "serves (mem s) B b n p"
      using held [OF P] by (auto simp: holds_def)
    have "(B, b) \<in> live rs \<inter> live rs'" using still [OF P b(1,3)] b(1) by blast
    from preserved_serves [OF keep this b(3)] b(2) this show ?thesis unfolding holds_def by blast
  qed
  moreover have "mem s' a = v \<and> (\<exists>p n. P' p = Some n \<and> unat (a - p) < n)" if C: "C' a = Some v" for a v
  proof -
    obtain p n where p: "P' p = Some n" "unat (a - p) < n" using range [OF C] by blast
    have "C a = Some v" using C sub(2) unfolding map_le_def by (metis domI)
    then have "mem s a = v" using inv by (simp add: client_inv_def)
    with H [OF p(1)] p show ?thesis by auto
  qed
  ultimately show ?thesis using ok wf stack unfolding client_inv_def by blast
qed

text \<open>The lines about memory that runs out; the heap logs others when it finds its headers damaged.\<close>

definition supply_lines :: "log_line set" where
  "supply_lines =
     range out_of_pages \<union> range no_block_line \<union> range malloc_null_line \<union> {no_root_line, exhausted_line, free_overflow}"

lemma supply_lines:
  "set (supply_log s n) \<subseteq> supply_lines" "set (no_memory_log rs n sz) \<subseteq> supply_lines" "set (overflow_log s k) \<subseteq> supply_lines"
  by (auto simp: supply_lines_def supply_log_def no_memory_log_def overflow_log_def)

text \<open>The steps keep the invariant.\<close>

lemma malloc_stack:
  assumes apart: "\<And>y. pgno y \<in> R \<Longrightarrow> outside_all rs y" and added: "added new rs B x rs'"
    and new: "\<And>N y. \<lbrakk>new = Some N; pgno y \<in> R\<rbrakk> \<Longrightarrow> snd N \<le> unat (y - fst N)" and y: "pgno y \<in> R"
  shows "outside_all rs' y"
proof (cases new)
  case None
  then obtain as hi us ws cs where "rs = as @ (B, hi, us @ ws) # cs" "rs' = as @ (B, hi, us @ x # ws) # cs"
    using added by auto
  with apart [OF y] show ?thesis by (simp add: outside_all_def)
next
  case (Some N)
  with added apart [OF y] new [OF Some y] show ?thesis by (cases N) (simp add: outside_all_def)
qed

lemma served_by_one:
  assumes inv: "heap_inv s rs" and b: "(B, b) \<in> live rs" "serves m B b n p" "snd b = n + 32"
    and c: "(A, c) \<in> live rs" "serves m' A c k p" "snd c = k + 32"
  shows "(B, b) = (A, c)"
proof (rule ccontr)
  assume ne: "(B, b) \<noteq> (A, c)"
  obtain i where i: "i \<le> 31" "p = bptr B b + 40 + of_nat i" using b(2) unfolding serves_def by blast
  obtain j where j: "j \<le> 31" "p = bptr A c + 40 + of_nat j" using c(2) unfolding serves_def by blast
  have "i < snd b" "j < snd c" using i(1) j(1) b(3) c(3) by simp_all
  from live_apart [OF inv b(1) this(1) c(1) this(2) ne] i(2) j(2) show False by simp
qed

lemma client_add:
  assumes "client_inv s rs P C" "holds (mem s) rs p n" "p \<notin> dom P"
  shows "client_inv s rs (P(p \<mapsto> n)) C"
proof -
  have "\<exists>q k. (P(p \<mapsto> n)) q = Some k \<and> unat (a - q) < k" if C: "C a = Some v" for a v
  proof -
    obtain q k where "P q = Some k" "unat (a - q) < k" using assms(1) C unfolding client_inv_def by blast
    then show ?thesis using assms(3) by (metis domI fun_upd_other)
  qed
  then show ?thesis using assms(1,2) unfolding client_inv_def by simp
qed

lemma added_account:
  assumes acc: "account_inv s rs P" and added: "added new rs B x rs'" and p: "p \<notin> dom P"
    and x: "serves (mem s') B x n p" "snd x = n + 32" and keep: "preserved (mem s) (mem s') (live rs)"
    and inuse: "l_inuse s' = l_inuse s + of_nat (n + 32)"
  shows "account_inv s' rs' (P(p \<mapsto> n))"
  unfolding account_inv_def
proof (intro conjI allI impI)
  note A = acc [unfolded account_inv_def]
  show "\<forall>r \<in> set rs'. rlist r \<noteq> []" using A added by (cases new) auto
  show "\<exists>q k. (P(p \<mapsto> n)) q = Some k \<and> snd b = k + 32 \<and> serves (mem s') D b k q" if b: "(D, b) \<in> live rs'" for D b
  proof (cases "(D, b) = (B, x)")
    case True
    then show ?thesis using x by (intro exI [of _ p] exI [of _ n]) simp
  next
    case False
    then have old: "(D, b) \<in> live rs" using b live_added [OF added] by blast
    then obtain q k where q: "P q = Some k" "snd b = k + 32" "serves (mem s) D b k q" using A by blast
    have "q \<noteq> p" using q(1) p by auto
    with q preserved_serves(1) [OF keep old q(3)] show ?thesis by (intro exI [of _ q] exI [of _ k]) simp
  qed
  show "finite (dom (P(p \<mapsto> n)))" using A by simp
  show "l_inuse s' = of_nat (held_size (P(p \<mapsto> n)))" using A held_size_add [OF _ p, of n] inuse by simp
qed

lemma kmalloc_client:
  assumes inv: "client_inv s rs P C" and req: "unat req + 4207 < 2 ^ 32" and sup: "supplied s rs req"
  shows "\<exists>p s'. kmalloc req s = Some (p, s') \<and>
    (if p = 0 then client_inv s' rs P C \<and> (account_inv s rs P \<longrightarrow> account_inv s' rs P)
     else p \<notin> dom P \<and> (\<exists>rs' B off. client_inv s' rs' (P(p \<mapsto> unat req)) C \<and>
       (account_inv s rs P \<longrightarrow> account_inv s' rs' (P(p \<mapsto> unat req))) \<and>
       added (chosen s rs req) rs B (off, unat req + 32) rs' \<and>
       (\<forall>x. outside_all rs' x \<longrightarrow> mem s' x = mem s x) \<and>
       pm_stack_idx s' = (if some_fits rs req then pm_stack_idx s else supply_idx s (request_pages req)))) \<and>
    (some_fits rs req \<or> fst (liballoc_alloc (request_pages req) s) \<noteq> 0 \<longrightarrow> p \<noteq> 0) \<and> same_stack s s' \<and>
    set (klog s') \<subseteq> set (klog s) \<union> supply_lines"
proof -
  have ok: "heap_ok s rs" and wf: "stack_wf s" and apart: "\<And>y. pgno y \<in> stack_region s \<Longrightarrow> outside_all rs y"
    and range: "\<And>a v. C a = Some v \<Longrightarrow> \<exists>p n. P p = Some n \<and> unat (a - p) < n"
    using inv unfolding client_inv_def by blast+
  have S: "some_fits rs req \<or> supplies s rs (request_pages req)"
    "\<lbrakk>\<not> some_fits rs req; pgno y \<in> stack_region s\<rbrakk> \<Longrightarrow> snd (new_block s req) \<le> unat (y - fst (new_block s req))" for y
    using sup unfolding supplied_def by blast+
  obtain p s' where k: "kmalloc req s = Some (p, s')" and stk: "same_stack s s'" and
    R: "if some_fits rs req \<or> fst (liballoc_alloc (request_pages req) s) \<noteq> 0
     then \<exists>rs' B off. added (chosen s rs req) rs B (off, unat req + 32) rs' \<and> heap_ok s' rs' \<and>
       serves (mem s') B (off, unat req + 32) (unat req) p \<and> preserved (mem s) (mem s') (live rs) \<and>
       (\<forall>x. outside_all rs' x \<longrightarrow> mem s' x = mem s x) \<and>
       l_inuse s' = l_inuse s + of_nat (unat req + 32) \<and>
       klog s' = klog s @ (if some_fits rs req then [] else supply_log s (request_pages req))
     else p = 0 \<and> heap_ok s' rs \<and> mem s' = mem s \<and> l_inuse s' = l_inuse s \<and> l_warningCount s' = l_warningCount s + 1 \<and>
       klog s' = klog s @ supply_log s (request_pages req) @ no_memory_log rs (request_pages req) (req + 32)"
    and idx: "pm_stack_idx s' = (if some_fits rs req then pm_stack_idx s else supply_idx s (request_pages req))"
    using kmalloc_any [OF ok req S(1)] by blast
  note W = same_stack_wf [OF stk]
  show ?thesis
  proof (cases "some_fits rs req \<or> fst (liballoc_alloc (request_pages req) s) \<noteq> 0")
    case True
    then obtain rs' B off where r: "added (chosen s rs req) rs B (off, unat req + 32) rs'" "heap_ok s' rs'"
      "serves (mem s') B (off, unat req + 32) (unat req) p" "preserved (mem s) (mem s') (live rs)"
      "l_inuse s' = l_inuse s + of_nat (unat req + 32)"
      "klog s' = klog s @ (if some_fits rs req then [] else supply_log s (request_pages req))"
      "\<And>x. outside_all rs' x \<Longrightarrow> mem s' x = mem s x"
      using R by (simp only: if_True) blast
    have log: "set (klog s') \<subseteq> set (klog s) \<union> supply_lines" unfolding r(6) using supply_lines(1) [of s "request_pages req"] by auto
    have inv': "heap_inv s' rs'" using r(2) by (simp add: heap_ok_def)
    note A = added_fresh [OF inv' r(1)]
    have "snd N \<le> unat (y - fst N)" if "chosen s rs req = Some N" "pgno y \<in> stack_region s" for N y
      using S(2) [of y] that by (auto simp: chosen_def split: if_splits)
    from malloc_stack [where R = "stack_region s", OF apart r(1) this]
    have stack: "outside_all rs' y" if "pgno y \<in> stack_region s'" for y using that W(2) by simp
    have carried: "client_inv s' rs' P C"
      using A(3) r(4) range
      by (intro client_carry [OF inv r(2) W(1) [OF wf] stack]) (auto simp: inf_absorb1)
    have p: "holds (mem s') rs' p (unat req)" using A(2) r(3) by (auto simp: holds_def)
    have "P p = None"
    proof (rule ccontr)
      assume "P p \<noteq> None"
      then obtain n where "P p = Some n" by blast
      then obtain D b where b: "(D, b) \<in> live rs" "snd b = n + 32" "serves (mem s) D b n p"
        using inv unfolding client_inv_def holds_def by blast
      have "(D, b) \<in> live rs'" using b(1) A(3) by blast
      from served_by_one [OF inv' this b(3,2) A(2) r(3)] b(1) A(1) show False by simp
    qed
    then have new: "p \<notin> dom P" by auto
    have "account_inv s rs P \<longrightarrow> account_inv s' rs' (P(p \<mapsto> unat req))"
      using added_account [OF _ r(1) new r(3) _ r(4,5)] by simp
    moreover note client_add [OF carried p new]
    ultimately have "\<exists>rs' B off. client_inv s' rs' (P(p \<mapsto> unat req)) C \<and>
       (account_inv s rs P \<longrightarrow> account_inv s' rs' (P(p \<mapsto> unat req))) \<and>
       added (chosen s rs req) rs B (off, unat req + 32) rs' \<and>
       (\<forall>x. outside_all rs' x \<longrightarrow> mem s' x = mem s x) \<and>
       pm_stack_idx s' = (if some_fits rs req then pm_stack_idx s else supply_idx s (request_pages req))"
      using r(1,7) idx by blast
    with new holds_nonzero(1) [OF inv' p] k log stk show ?thesis by auto
  next
    case False
    then have n: "p = 0" "heap_ok s' rs" "mem s' = mem s" "l_inuse s' = l_inuse s"
      "klog s' = klog s @ supply_log s (request_pages req) @ no_memory_log rs (request_pages req) (req + 32)"
      using R by (simp_all only: if_False)
    have "set (klog s') \<subseteq> set (klog s) \<union> supply_lines"
      unfolding n(5) using supply_lines(1,2) [of _ "request_pages req"] by simp blast
    moreover
    have "client_inv s' rs P C"
      using inv n W wf unfolding client_inv_def by simp
    ultimately show ?thesis using k n stk False by (auto simp: account_inv_def)
  qed
qed

lemma supply_okD: "supply_ok s req \<Longrightarrow> client_inv s rs P C \<Longrightarrow> supplied s rs req"
  by (simp add: supply_ok_def client_inv_def)

text \<open>The block of an allocation, as its header names it.\<close>

definition block_of :: "'a pmm_state_scheme \<Rightarrow> u64 \<Rightarrow> u64" where
  "block_of s p = min_block (mem s) (UNALIGN p (mem s) - sizeof_minor)"

lemma served_block:
  assumes inv: "heap_inv s rs" and b: "(B, b) \<in> live rs" "serves (mem s) B b n p"
  shows "block_of s p = B"
proof -
  obtain hi bs where r: "(B, hi, bs) \<in> set rs" "b \<in> set bs" using live_region [OF b(1)] by blast
  have "region_ok (mem s) (B, hi, bs)" using inv chained_region [OF _ r(1)] unfolding heap_inv_def by blast
  then have blk: "block (mem s) B hi bs" by (simp add: region_ok_def)
  obtain us ws where "bs = us @ b # ws" using split_list [OF r(2)] by blast
  then have "min_block (mem s) (bptr B b) = B" using blk by (auto simp: block_def linked_append header_def)
  then show ?thesis using serves_pointer(2) [OF blk r(2) b(2)] by (simp add: block_of_def sizeof_minor_def)
qed

lemma kfree_client:
  assumes inv: "client_inv s rs P C" and p: "P p = Some n"
  shows "\<exists>s' rs'. kfree p s = Some (Ret () s') \<and> client_inv s' rs' (P(p := None)) (C |` {a. n \<le> unat (a - p)}) \<and>
    (account_inv s rs P \<longrightarrow> account_inv s' rs' (P(p := None))) \<and>
    set (klog s') \<subseteq> set (klog s) \<union> supply_lines \<and>
    ((\<exists>q \<in> dom P - {p}. block_of s q = block_of s p) \<longrightarrow>
      same_stack s s' \<and> pm_stack_idx s' = pm_stack_idx s \<and> outside_all rs' = outside_all rs \<and>
      (\<forall>y. outside_all rs y \<longrightarrow> mem s' y = mem s y))"
proof -
  have ok: "heap_ok s rs" and wf: "stack_wf s" and apart: "\<And>y. pgno y \<in> stack_region s \<Longrightarrow> outside_all rs y"
    and range: "\<And>a v. C a = Some v \<Longrightarrow> \<exists>p n. P p = Some n \<and> unat (a - p) < n"
    using inv unfolding client_inv_def by blast+
  have hinv: "heap_inv s rs" using ok by (simp add: heap_ok_def)
  obtain B x where x: "(B, x) \<in> live rs" "snd x = n + 32" "serves (mem s) B x n p"
    using inv p unfolding client_inv_def holds_def by blast
  obtain hi bs where r: "(B, hi, bs) \<in> set rs" "x \<in> set bs" using live_region [OF x(1)] by blast
  obtain as cs where rs: "rs = as @ (B, hi, bs) # cs" using split_list [OF r(1)] by blast
  obtain us ws where bs: "bs = us @ x # ws" using split_list [OF r(2)] by blast
  define rs' where "rs' = as @ region_minus B hi (us @ ws) @ cs"
  obtain s' where f: "kfree p s = Some (Ret () s')" "heap_ok s' rs'" "preserved (mem s) (mem s') (live rs')"
    "stack_wf s'" "stack_region s' = stack_region s" "l_inuse s' = l_inuse s - of_nat (snd x)"
    "klog s' = klog s @ (if us @ ws = [] then overflow_log s (hi div 4096) else [])"
    "us @ ws \<noteq> [] \<Longrightarrow> same_stack s s' \<and> pm_stack_idx s' = pm_stack_idx s \<and> (\<forall>y. outside_all rs y \<longrightarrow> mem s' y = mem s y)"
    using kfree_any [OF ok [unfolded rs bs] x(3) wf apart [unfolded rs bs]] unfolding rs'_def rs bs by blast
  have live: "live rs = insert (B, x) (live rs')"
    unfolding rs'_def region_minus_live by (auto simp: rs bs live_append live_Cons)
  have "client_inv s' rs' (P(p := None)) (C |` {a. n \<le> unat (a - p)})"
  proof (rule client_carry [OF inv f(2,4)])
    show "outside_all rs' y" if "pgno y \<in> stack_region s'" for y
      using apart [of y] that f(5) by (auto simp: rs bs rs'_def region_minus_def outside_all_def)
    show "preserved (mem s) (mem s') (live rs \<inter> live rs')" using f(3) live by (simp add: inf_absorb2 subset_insertI)
    show "(D, b) \<in> live rs'" if q: "(P(p := None)) q = Some k" "(D, b) \<in> live rs" "serves (mem s) D b k q" for q k D b
    proof (rule ccontr)
      assume "(D, b) \<notin> live rs'"
      then have "(D, b) = (B, x)" using q(2) live by blast
      then have "q = p" using serves_unique [OF x(3)] q(3) by blast
      with q(1) show False by simp
    qed
    show "\<exists>q k. (P(p := None)) q = Some k \<and> unat (a - q) < k" if "(C |` {a. n \<le> unat (a - p)}) a = Some v" for a v
    proof -
      have a: "n \<le> unat (a - p)" "C a = Some v" using that by (auto simp: restrict_map_def split: if_splits)
      obtain q k where q: "P q = Some k" "unat (a - q) < k" using range [OF a(2)] by blast
      have "q \<noteq> p" using q p a(1) by auto
      with q show ?thesis by auto
    qed
  qed (auto simp: map_le_def restrict_map_def)
  moreover have "account_inv s' rs' (P(p := None))" if acc: "account_inv s rs P"
    unfolding account_inv_def
  proof (intro conjI allI impI)
    note A = acc [unfolded account_inv_def]
    show "\<forall>r \<in> set rs'. rlist r \<noteq> []" using A by (auto simp: rs rs'_def region_minus_def)
    have "added None (as @ (B, hi, us @ ws) # cs) B x rs" unfolding rs bs added.simps by blast
    from added_fresh(1) [OF hinv this] have gone: "(B, x) \<notin> live rs'" by (simp add: rs'_def region_minus_live)
    show "\<exists>q k. (P(p := None)) q = Some k \<and> snd b = k + 32 \<and> serves (mem s') D b k q" if b: "(D, b) \<in> live rs'" for D b
    proof -
      have old: "(D, b) \<in> live rs" using b live by blast
      then obtain q k where q: "P q = Some k" "snd b = k + 32" "serves (mem s) D b k q" using A by blast
      have "q \<noteq> p"
      proof
        assume "q = p"
        then have "(D, b) = (B, x)" using served_by_one [OF hinv old q(3,2) x(1) _ x(2)] x(3) by blast
        with b gone show False by simp
      qed
      with q preserved_serves(1) [OF f(3) b q(3)] show ?thesis by (intro exI [of _ q] exI [of _ k]) simp
    qed
    show "finite (dom (P(p := None)))" using A by simp
    show "l_inuse s' = of_nat (held_size (P(p := None)))" using A held_size_remove [of P p n] p f(6) x(2) by simp
  qed
  moreover have "set (klog s') \<subseteq> set (klog s) \<union> supply_lines"
    unfolding f(7) using supply_lines(3) [of s "hi div 4096"] by auto
  moreover have "same_stack s s' \<and> pm_stack_idx s' = pm_stack_idx s \<and> outside_all rs' = outside_all rs \<and>
      (\<forall>y. outside_all rs y \<longrightarrow> mem s' y = mem s y)"
    if q: "q \<in> dom P - {p}" "block_of s q = block_of s p" for q
  proof -
    obtain D b k where b: "(D, b) \<in> live rs" "serves (mem s) D b k q" using inv q(1) unfolding client_inv_def holds_def by blast
    have "D = B" using served_block [OF hinv b] served_block [OF hinv x(1,3)] q(2) by simp
    have "b \<noteq> x" using serves_unique [OF x(3), of k q] b(2) \<open>D = B\<close> q(1) by auto
    obtain hi' bs' where r': "(B, hi', bs') \<in> set rs" "b \<in> set bs'" using live_region [OF b(1)] \<open>D = B\<close> by blast
    have ok': "region_ok (mem s) r" if "r \<in> set rs" for r using hinv chained_region [OF _ that] unfolding heap_inv_def by blast
    have "(B, hi', bs') = (B, hi, bs)"
      using same_base(2) [OF ok' _ r'(1) r(1)] hinv by (auto simp: heap_inv_def)
    then have ne: "us @ ws \<noteq> []" using r'(2) \<open>b \<noteq> x\<close> bs by auto
    then have "outside_all rs' = outside_all rs"
      by (auto simp: rs rs'_def region_minus_def outside_all_def fun_eq_iff)
    with f(8) [OF ne] show ?thesis by blast
  qed
  ultimately show ?thesis using f(1) by blast
qed

lemma store_client:
  assumes inv: "client_inv s rs P C" and p: "P p = Some n" and i: "i < n"
  shows "client_inv (s\<lparr>mem := st8 (p + of_nat i) v (mem s)\<rparr>) rs P (C(p + of_nat i \<mapsto> v)) \<and>
    (account_inv s rs P \<longrightarrow> account_inv (s\<lparr>mem := st8 (p + of_nat i) v (mem s)\<rparr>) rs P)"
proof -
  let ?m = "st8 (p + of_nat i) v (mem s)"
  have ok: "heap_ok s rs" using inv by (simp add: client_inv_def)
  then have hinv: "heap_inv s rs" by (simp add: heap_ok_def)
  then have ch: "chained (mem s) 0 rs 0" and sorted: "sorted_wrt region_disj rs" by (simp_all add: heap_inv_def)
  obtain B x where x: "(B, x) \<in> live rs" "snd x = n + 32" "serves (mem s) B x n p"
    using inv p unfolding client_inv_def holds_def by blast
  obtain hi bs where r: "(B, hi, bs) \<in> set rs" "x \<in> set bs" using live_region [OF x(1)] by blast
  obtain as cs where rs: "rs = as @ (B, hi, bs) # cs" using split_list [OF r(1)] by blast
  obtain k where k: "k \<le> 31" "p = bptr B x + 40 + of_nat k" using x(3) unfolding serves_def by blast
  have q: "p + of_nat i = bptr B x + 40 + of_nat (k + i)" "k + i < snd x" using k i x(2) by (simp_all add: add.assoc)
  have rok: "region_ok (mem s) (B, hi, bs)" by (rule chained_region [OF ch r(1)])
  then have blk: "block (mem s) B hi bs" by (simp add: region_ok_def)
  have n: "n < 2 ^ 32" using bptr_unat(4) [OF blk r(2)] blk x(2) by (simp add: block_def)
  then have at: "unat (p + of_nat i - p) = i" using i by (simp add: unat_of_nat_small)
  have other: "?m a = mem s a" if "n \<le> unat (a - p)" for a using that at i by (auto simp: st8_apply)
  note W = serves_write [OF blk r(2) x(3) other]
  obtain us ws where bs: "bs = us @ x # ws" using split_list [OF r(2)] by blast
  have "spaced 40 (us @ x # ws) hi" "hi < 2 ^ 32" using blk by (simp_all add: block_def bs)
  from spaced_disj_byte(1) [OF this q(2), of B] have "disj B 40 (p + of_nat i) 1" unfolding q(1) .
  then have pages: "maj_pages ?m B = maj_pages (mem s) B" by (rule header_st8)
  have "chained ?m 0 (as @ (B, hi, bs) # cs) 0"
  proof (rule chained_update [OF ch [unfolded rs] sorted [unfolded rs]])
    show "region_ok ?m (B, hi, bs)" using rok W(1) pages by (simp add: region_ok_def)
  qed (use W(4-6) in simp_all)
  then have ok': "heap_ok (s\<lparr>mem := ?m\<rparr>) rs" using ok by (simp add: heap_ok_def heap_inv_def rs)
  have keep: "preserved (mem s) ?m (live rs - {(B, x)})"
    unfolding preserved_def
  proof (intro ballI allI impI)
    fix c j assume c: "c \<in> live rs - {(B, x)}" and j: "j < snd (snd c)"
    have "(fst c, snd c) \<in> live rs" "(fst c, snd c) \<noteq> (B, x)" using c by auto
    from live_apart [OF hinv this(1) j x(1) q(2) this(2)]
    show "?m (bptr (fst c) (snd c) + 40 + of_nat j) = mem s (bptr (fst c) (snd c) + 40 + of_nat j)"
      unfolding q(1) by (simp add: st8_apply)
  qed
  have served: "serves ?m D b k' q'" if b: "(D, b) \<in> live rs" "snd b = k' + 32" "serves (mem s) D b k' q'" for D b k' q'
  proof (cases "(D, b) = (B, x)")
    case True
    then have "k' = n" "q' = p" using b x serves_unique [OF x(3)] by auto
    then show ?thesis using W(2) True by simp
  next
    case False
    then have "(D, b) \<in> live rs - {(B, x)}" using b(1) by blast
    from preserved_serves(1) [OF keep this b(3)] show ?thesis .
  qed
  then have "holds ?m rs q' k'" if "P q' = Some k'" for q' k'
    using inv that unfolding client_inv_def holds_def by blast
  moreover have "?m a = w \<and> (\<exists>q' k'. P q' = Some k' \<and> unat (a - q') < k')"
    if a: "(C(p + of_nat i \<mapsto> v)) a = Some w" for a w
  proof (cases "a = p + of_nat i")
    case True
    then have "unat (a - p) < n" "w = v" using a at i by simp_all
    with True p show ?thesis by (intro conjI exI [of _ p] exI [of _ n]) (simp_all add: st8_apply)
  next
    case False
    then have "C a = Some w" using a by simp
    then have "mem s a = w \<and> (\<exists>q' k'. P q' = Some k' \<and> unat (a - q') < k')"
      using inv unfolding client_inv_def by blast
    then show ?thesis using False by (simp add: st8_apply)
  qed
  moreover have "account_inv s rs P \<longrightarrow> account_inv (s\<lparr>mem := ?m\<rparr>) rs P"
  proof
    assume acc: "account_inv s rs P"
    have "\<exists>q' k'. P q' = Some k' \<and> snd b = k' + 32 \<and> serves ?m D b k' q'" if "(D, b) \<in> live rs" for D b
      using served [OF that] acc that unfolding account_inv_def by blast
    with acc show "account_inv (s\<lparr>mem := ?m\<rparr>) rs P" by (simp add: account_inv_def del: split_paired_All)
  qed
  ultimately show ?thesis
    using inv ok' unfolding client_inv_def by (simp add: stack_wf_def stack_region_def)
qed

lemma frames_client:
  assumes inv: "client_inv s rs P C" and r: "pmm_request_pages k s = (q, t)"
  shows "client_inv t rs P C \<and> (account_inv s rs P \<longrightarrow> account_inv t rs P)"
proof -
  note f = request_heap_fields [OF r] and W = same_stack_wf [OF request_same_stack [OF r]]
  have "heap_ok t rs" using inv f by (simp add: client_inv_def heap_ok_def heap_inv_def)
  moreover have "l_inuse t = l_inuse s" using r by (auto simp: pmm_request_pages_def Let_def split: if_splits)
  ultimately show ?thesis using inv f W by (simp add: client_inv_def account_inv_def)
qed

lemma heap_run_invs: "heap_run s P C \<Longrightarrow> \<exists>rs. client_inv s rs P C \<and> account_inv s rs P"
proof (induction rule: heap_run.induct)
  case (start s)
  then show ?case
    by (intro exI [of _ "[]"]) (simp add: client_inv_def account_inv_def outside_all_def live_Nil held_size_def)
next
  case (malloc s P C req p s')
  then obtain rs where rs: "client_inv s rs P C" "account_inv s rs P" by blast
  from kmalloc_client [OF rs(1) malloc.hyps(2) supply_okD [OF malloc.hyps(3) rs(1)]] malloc.hyps(4,5) rs(2)
  have "\<exists>rs'. client_inv s' rs' (P(p \<mapsto> unat req)) C \<and> account_inv s' rs' (P(p \<mapsto> unat req))"
    by (simp del: fun_upd_apply) blast
  then show ?case .
next
  case (malloc_null s P C req s')
  then obtain rs where rs: "client_inv s rs P C" "account_inv s rs P" by blast
  from kmalloc_client [OF rs(1) malloc_null.hyps(2) supply_okD [OF malloc_null.hyps(3) rs(1)]] malloc_null.hyps(4) rs(2) show ?case by auto
next
  case (free s P C p n s')
  then obtain rs where rs: "client_inv s rs P C" "account_inv s rs P" by blast
  from kfree_client [OF rs(1) free.hyps(2)] free.hyps(3) rs(2) show ?case by (auto simp del: fun_upd_apply)
next
  case (store s P C p n i v)
  then show ?case using store_client by blast
next
  case (frames s P C k q s')
  then show ?case using frames_client by blast
qed

text \<open>The log of a run has no other lines.\<close>

lemma heap_run_log: "heap_run s P C \<Longrightarrow> set (klog s) \<subseteq> supply_lines"
proof (induction rule: heap_run.induct)
  case (malloc s P C req p s')
  from heap_run_invs [OF malloc.hyps(1)] obtain rs where "client_inv s rs P C" by blast
  from kmalloc_client [OF this malloc.hyps(2) supply_okD [OF malloc.hyps(3) this]] malloc.hyps(4) malloc.IH show ?case by auto
next
  case (malloc_null s P C req s')
  from heap_run_invs [OF malloc_null.hyps(1)] obtain rs where "client_inv s rs P C" by blast
  from kmalloc_client [OF this malloc_null.hyps(2) supply_okD [OF malloc_null.hyps(3) this]] malloc_null.hyps(4) malloc_null.IH show ?case by auto
next
  case (free s P C p n s')
  from heap_run_invs [OF free.hyps(1)] obtain rs where "client_inv s rs P C" by blast
  from kfree_client [OF this free.hyps(2)] free.hyps(3) free.IH show ?case by auto
next
  case (frames s P C k q s')
  then show ?case by (auto simp: pmm_request_pages_def supply_lines_def Let_def split: if_splits)
qed simp_all

lemma heap_run_inv: "heap_run s P C \<Longrightarrow> \<exists>rs. client_inv s rs P C"
  using heap_run_invs by blast

section \<open>What the client can rely on\<close>




text \<open>A run of one request and one write, from a machine that has no heap yet.\<close>

lemma bare_heap_run: "heap_run bare_heap Map.empty Map.empty"
  by (rule heap_run.start) (simp_all add: bare_heap_def fresh_heap_def heap_ok_def heap_inv_def root_of_def stack_wf_def aligned_dvd)

lemma bare_heap_supply: "supply_ok bare_heap 100" "fst (new_block bare_heap 100) = 0xffff800000000000"
proof -
  have pages: "request_pages 100 = 16"
    by (simp add: request_pages_def page_count_def l_pageSize_def l_pageCount_def sizeof_major_def sizeof_minor_def)
  have list: "free_list bare_heap = []" by (simp add: bare_heap_def fresh_heap_def free_list_def)
  have "pmm_request_pages 16 bare_heap = (0, report (out_of_pages 16) bare_heap)"
    by (rule request_none) (simp_all add: list del: length_free_list)
  then have alloc: "fst (liballoc_alloc 16 bare_heap) = 0xffff800000000000"
    by (simp add: liballoc_alloc_def bare_heap_def)
  then show "fst (new_block bare_heap 100) = 0xffff800000000000" by (simp add: new_block_def pages)
  have "rs = []" if "heap_ok bare_heap rs" for rs
  proof (cases rs)
    case (Cons r rs')
    with that have "region_ok (mem bare_heap) r" "rbase r = 0"
      by (simp_all add: heap_ok_def heap_inv_def root_of_def bare_heap_def fresh_heap_def)
    then show ?thesis using region_nonempty by blast
  qed simp
  moreover have "supplies bare_heap [] 16" by (simp add: supplies_def alloc aligned_dvd)
  moreover have "stack_region bare_heap = {}" by (simp add: stack_region_def bare_heap_def fresh_heap_def)
  ultimately show "supply_ok bare_heap 100" unfolding supply_ok_def supplied_def pages by blast
qed

lemma bare_heap_malloc:
  "\<exists>p s. kmalloc 100 bare_heap = Some (p, s) \<and> heap_run s [p \<mapsto> 100] Map.empty"
proof -
  have ok: "heap_ok bare_heap []" by (simp add: bare_heap_def fresh_heap_def heap_ok_def heap_inv_def root_of_def)
  have "some_fits [] 100 \<or> supplies bare_heap [] (request_pages 100)"
    using bare_heap_supply(1) ok unfolding supply_ok_def supplied_def by blast
  from kmalloc_any [OF ok _ this] bare_heap_supply(2)
  obtain p s rs B off where r: "kmalloc 100 bare_heap = Some (p, s)" "heap_ok s rs"
    "added (chosen bare_heap [] 100) [] B (off, 132) rs" "serves (mem s) B (off, 132) 100 p"
    by (auto simp: new_block_def)
  have k: "kmalloc 100 bare_heap = Some (p, s)" "heap_inv s rs" "(B, (off, 132)) \<in> live rs"
    "serves (mem s) B (off, 132) 100 p"
    using r live_added [OF r(3)] by (simp_all add: heap_ok_def)
  then have "holds (mem s) rs p 100" by (auto simp: holds_def)
  then have "p \<noteq> 0" by (rule holds_nonzero(1) [OF k(2)])
  with heap_run.malloc [OF bare_heap_run _ bare_heap_supply(1) k(1)] k(1) show ?thesis by auto
qed




end
