(* ===== verification/HeapDump.thy ===== *)
theory HeapDump
  imports HeapGrow
begin

text \<open>
  The dump of the debug build on a well-formed heap: it returns, and its lines are the counters
  and then, block by block in the order of the list, the block and its allocations.
\<close>

text \<open>What the dump says of one region.\<close>

definition alloc_line :: "u64 \<Rightarrow> alloc \<Rightarrow> log_line" where
  "alloc_line maj b = INFO (''liballoc:    %x: %i bytes'' @ nl) [Slot (bptr maj b), Slot (of_nat (snd b))]"

definition region_lines :: "region \<Rightarrow> log_line list" where
  "region_lines r =
     INFO (''liballoc: %x: total = %i, used = %i'' @ nl)
       [Slot (rbase r), Slot (of_nat (rsize r)), Slot (of_nat (used (rlist r)))] #
     map (alloc_line (rbase r)) (rlist r)"

lemma ucast_of_nat: "unat (w :: u32) = n \<Longrightarrow> ucast w = (of_nat n :: u64)"
  by (metis of_nat_unat)

lemma dump_minors_linked:
  assumes "linked m maj pv bs 0" "\<And>b. b \<in> set bs \<Longrightarrow> bptr maj b \<noteq> 0"
  shows "dump_minors m (first_ptr maj bs 0) = Some (map (alloc_line maj) bs)"
  using assms
proof (induction bs arbitrary: pv)
  case Nil
  then show ?case by (simp add: first_ptr_def dump_minors.simps)
next
  case (Cons b bs)
  have b: "min_next m (bptr maj b) = first_ptr maj bs 0" "unat (min_size m (bptr maj b)) = snd b"
    using Cons.prems(1) by (simp_all add: header_def)
  have "dump_minors m (first_ptr maj bs 0) = Some (map (alloc_line maj) bs)"
    using Cons.prems by (intro Cons.IH) auto
  then show ?case
    using Cons.prems(2) b(1) ucast_of_nat [OF b(2)]
    by (subst dump_minors.simps) (simp add: first_ptr_def [of _ "b # bs"] alloc_line_def [of _ b])
qed

lemma dump_majors_chained:
  assumes "chained m pv rs 0"
  shows "dump_majors m (root_of rs 0) = Some (concat (map region_lines rs))"
  using assms
proof (induction rs arbitrary: pv)
  case Nil
  then show ?case by (simp add: root_of_def dump_majors.simps)
next
  case (Cons r rs)
  let ?B = "rbase r"
  have blk: "block m ?B (rsize r) (rlist r)" and nx: "maj_next m ?B = root_of rs 0" and ch: "chained m ?B rs 0"
    using Cons.prems by (simp_all add: region_ok_def)
  have B: "?B \<noteq> 0" "unat (maj_size m ?B) = rsize r" "unat (maj_usage m ?B) = used (rlist r)"
    "maj_first m ?B = first_ptr ?B (rlist r) 0" and ln: "linked m ?B 0 (rlist r) 0"
    using blk by (simp_all add: block_def)
  have "dump_minors m (maj_first m ?B) = Some (map (alloc_line ?B) (rlist r))"
    unfolding B(4) using bptr_unat(2) [OF blk] by (intro dump_minors_linked [OF ln]) blast
  with Cons.IH [OF ch] show ?case
    using B(1) nx ucast_of_nat [OF B(2)] ucast_of_nat [OF B(3)]
    by (subst dump_majors.simps) (simp add: root_of_def [of "r # rs"] region_lines_def [of r])
qed

text \<open>
  C40. On every well-formed heap the dump of the debug build returns. It changes nothing but the
  log, and its lines are the five counters and, for every block in the order of the list, the
  block's address, size and bytes used and each of its allocations.
\<close>

theorem dump_lists_heap:
  assumes "heap_ok s rs"
  shows "liballoc_dump_debug s = Some (s\<lparr>klog := klog s @ dump_header s @ concat (map region_lines rs)\<rparr>)"
proof -
  have "chained (mem s) 0 rs 0" "l_memRoot s = root_of rs 0"
    using assms by (simp_all add: heap_ok_def heap_inv_def)
  then show ?thesis by (simp add: liballoc_dump_debug_def dump_majors_chained)
qed

lemma dump_lists_heap_witness:
  "\<exists>t. liballoc_dump_debug single_heap = Some t \<and> drop 6 (klog t) =
     [INFO (''liballoc: %x: total = %i, used = %i'' @ nl) [Slot 0x10000, Slot 65536, Slot 212],
      INFO (''liballoc:    %x: %i bytes'' @ nl) [Slot 0x10028, Slot 132]]"
  using dump_lists_heap [OF single_heap_ok]
  by (simp add: region_lines_def alloc_line_def used_def bptr_def dump_header_def single_heap_def fresh_heap_def)

end
