(* ===== verification/Boot.thy ===== *)
theory Boot
  imports Interrupts
begin

text \<open>
  The kernel's entry point, \<^verbatim>\<open>olive/src/olive.c\<close>: it takes the boot loader's
  answers, starts the terminal, the descriptor tables, the console and the two memory
  managers, tries one allocation and stops the processor. The answers of the boot loader are
  arguments, the terminal library's entry points are the parameter \<open>terminal\<close>, CPUID, the
  linker's symbols and the interrupt stubs are parameters as in the theories they belong to.
\<close>

section \<open>The boot loader's answers\<close>

record limine_framebuffer =
  fb_address :: u64
  fb_width :: u64
  fb_height :: u64
  fb_pitch :: u64
  red_mask_size :: u8
  red_mask_shift :: u8
  green_mask_size :: u8
  green_mask_shift :: u8
  blue_mask_size :: u8
  blue_mask_shift :: u8

text \<open>A missing response is \<open>None\<close>; the kernel address is the pair of virtual and physical base.\<close>

record limine_responses =
  base_revision_supported :: bool
  framebuffer_response :: "limine_framebuffer list option"
  memmap_response :: "limine_memmap_entry list option"
  hhdm_response :: "u64 option"
  kernel_address_response :: "(u64 \<times> u64) option"

text \<open>What the boot code uses of flanterm: the constructor, the cursor flag, the refresh.\<close>

record 's terminal =
  flanterm_fb_init :: "limine_framebuffer \<Rightarrow> 's \<Rightarrow> u64 \<times> 's"
  cursor_disable :: "u64 \<Rightarrow> 's \<Rightarrow> 's"
  full_refresh :: "u64 \<Rightarrow> 's \<Rightarrow> 's"

section \<open>Ends and steps\<close>

text \<open>
  \<open>olive_entry\<close> does not return. It ends in \<open>hcf\<close>, interrupts off, or in \<open>hlt\<close>, waiting for
  interrupts; an assertion in the memory managers also ends in \<open>hcf\<close>. What the memory managers
  and the heap log goes through the console at the end of each of their calls (\<open>flush_log\<close>).
\<close>

datatype 's boot_end = Hcf 's | Hlt 's

definition bs :: string where "bs = [CHR 0x5C]"

definition logo :: "string list" where
  "logo =
    [''  ___  _ _                 '',
     '' / _ '' @ bs @ ''| (_)_   _____      '',
     ''| | | | | '' @ bs @ '' '' @ bs @ '' / / _ '' @ bs @ ''   '',
     ''| |_| | | |'' @ bs @ '' V /  __/     '',
     '' '' @ bs @ ''___/|_|_| '' @ bs @ ''_/ '' @ bs @ ''___|   '']"

primrec print_logo :: "string list \<Rightarrow> 'a con_state_scheme \<Rightarrow> 'a con_state_scheme option" where
  "print_logo [] s = Some s"
| "print_logo (l # ls) s =
     Option.bind (printf (''%s'' @ nl) [Str l] s) (\<lambda>(_, s'). print_logo ls s')"

definition print_banner :: "u32 \<Rightarrow> u32 \<Rightarrow> u32 \<Rightarrow> 'a con_state_scheme \<Rightarrow> 'a con_state_scheme option" where
  "print_banner major minor patch s =
     Option.bind (print_logo logo s) (\<lambda>s1.
     Option.bind (printf nl [] s1) (\<lambda>(_, s2).
     Option.bind (printf (''(Olive v%d.%d.%d-%s (%s))'' @ nl)
        [Slot (scast major), Slot (scast minor), Slot (scast patch), Str ''release'', Str ''no trace''] s2) (\<lambda>(_, s3).
     map_option snd (printf nl [] s3))))"

text \<open>\<open>FATAL\<close> with a message, then \<open>hcf\<close>.\<close>

definition die :: "string \<Rightarrow> 'a cpu_state_scheme \<Rightarrow> 'a cpu_state_scheme boot_end option" where
  "die msg s =
     map_option (\<lambda>s'. case hcf s' of Halt t \<Rightarrow> Hcf t | Ret _ t \<Rightarrow> Hcf t)
       (log_lines [FATAL (msg @ nl) []] s)"

text \<open>The test allocation at the end: one byte, written, printed and freed.\<close>

definition try_heap :: "'a cpu_state_scheme \<Rightarrow> 'a cpu_state_scheme boot_end option" where
  "try_heap s =
     Option.bind (kmalloc 1 s) (\<lambda>(a, s0).
     Option.bind (flush_log s0) (\<lambda>s1.
       if a = 0
       then die ''Failed to allocate memory for test malloc, failed to use liballoc'' s1
       else
         let s2 = upd (st8 a 65) s1 in
         Option.bind (log_lines [INFO (''Allocated 1 byte at %p (%c)'' @ nl)
             [Slot a, Slot (scast (ld8 (mem s2) a))]] s2) (\<lambda>s3.
           Option.bind (kfree a s3) (\<lambda>r. case r of
               Ret _ s4 \<Rightarrow> map_option (\<lambda>s5. case hlt s5 of Halt t \<Rightarrow> Hlt t | Ret _ t \<Rightarrow> Hlt t) (flush_log s4)
             | Halt s4 \<Rightarrow> map_option Hcf (flush_log s4)))))"

section \<open>The memory managers\<close>

definition start_vmm ::
  "(u32 \<Rightarrow> u32 \<times> u32 \<times> u32 \<times> u32) \<Rightarrow> kernel_image \<Rightarrow> limine_responses \<Rightarrow> 'a cpu_state_scheme \<Rightarrow>
     'a cpu_state_scheme boot_end option" where
  "start_vmm cpuid img r s =
     (case kernel_address_response r of
        None \<Rightarrow> die ''Failed to get kernel address (virt and phys)'' s
      | Some (virtual_base, physical_base) \<Rightarrow>
          if virtual_base = 0 \<or> physical_base = 0
          then die ''Failed to get kernel address (virt and phys)'' s
          else
            Option.bind (vmm_init cpuid img virtual_base physical_base s) (\<lambda>(res, s0).
            Option.bind (flush_log s0) (\<lambda>s1.
              if res \<noteq> 0 then die ''Failed to initialize Virtual Memory Manager'' s1
              else try_heap s1)))"

definition start_memory ::
  "(u32 \<Rightarrow> u32 \<times> u32 \<times> u32 \<times> u32) \<Rightarrow> kernel_image \<Rightarrow> limine_responses \<Rightarrow> 'a cpu_state_scheme \<Rightarrow>
     'a cpu_state_scheme boot_end option" where
  "start_memory cpuid img r s =
     (case memmap_response r of
        None \<Rightarrow> die ''No memory map available'' s
      | Some es \<Rightarrow>
          if es = [] then die ''No memory map available'' s
          else
            case hhdm_response r of
              None \<Rightarrow> die ''No HHDM offset available'' s
            | Some offset \<Rightarrow>
                if offset = 0 then die ''No HHDM offset available'' s
                else
                  case pmm_init (Some es) offset s of (res, s0) \<Rightarrow>
                  Option.bind (flush_log s0) (\<lambda>s1.
                    if res \<noteq> 0 then die ''Failed to initialize Physical Memory Manager'' s1
                    else start_vmm cpuid img r s1))"

section \<open>The entry point\<close>

record build_version =
  version_major :: u32
  version_minor :: u32
  version_patch :: u32

definition start_tables ::
  "(nat \<Rightarrow> u64) \<Rightarrow> 'a cpu_state_scheme \<Rightarrow>
     ('a cpu_state_scheme \<Rightarrow> 'a cpu_state_scheme boot_end option) \<Rightarrow> 'a cpu_state_scheme boot_end option" where
  "start_tables isr_table s continue =
     (case gdt_init s of (r1, s1) \<Rightarrow>
        if r1 \<noteq> 0 then die ''Failed to initialize GDT'' s1
        else case idt_init isr_table s1 of (r2, s2) \<Rightarrow>
          if r2 \<noteq> 0 then die ''Failed to initialize IDT'' s2
          else continue s2)"

definition olive_entry ::
  "'a cpu_state_scheme terminal \<Rightarrow> (nat \<Rightarrow> u64) \<Rightarrow> (u32 \<Rightarrow> u32 \<times> u32 \<times> u32 \<times> u32) \<Rightarrow>
   kernel_image \<Rightarrow> build_version \<Rightarrow> limine_responses \<Rightarrow> 'a cpu_state_scheme \<Rightarrow>
     'a cpu_state_scheme boot_end option" where
  "olive_entry term isr_table cpuid img ver r s =
     (let stop = (\<lambda>s. Some (case hcf s of Halt t \<Rightarrow> Hcf t | Ret _ t \<Rightarrow> Hcf t)) in
      if \<not> base_revision_supported r then stop s
      else case framebuffer_response r of
        None \<Rightarrow> stop s
      | Some [] \<Rightarrow> stop s
      | Some (fb # _) \<Rightarrow>
          (case flanterm_fb_init term fb s of (ctx, s1) \<Rightarrow>
             let s2 = s1\<lparr>ft_ctx := ctx\<rparr> in
             if ctx = 0 then stop s2
             else
               let s3 = full_refresh term ctx (cursor_disable term ctx s2) in
               start_tables isr_table s3 (\<lambda>s4.
                 Option.bind
                   (print_banner (version_major ver) (version_minor ver) (version_patch ver) s4)
                   (start_memory cpuid img r))))"

end
