(* ===== verification/BootProps.thy ===== *)
theory BootProps
  imports InterruptProps Boot
begin

text \<open>
  What the entry point does when the boot loader's answers are not enough: without a supported
  protocol revision or a framebuffer it stops silently, without a memory map or the offset of
  the higher half it stops with the tables loaded, the banner printed and one line that says
  what is missing.
\<close>

section \<open>The banner\<close>

definition version_line :: "build_version \<Rightarrow> va list" where
  "version_line ver = [Slot (scast (version_major ver)), Slot (scast (version_minor ver)),
     Slot (scast (version_patch ver)), Str ''release'', Str ''no trace'']"

definition version_text :: "build_version \<Rightarrow> string" where
  "version_text ver = the (npf_text (''(Olive v%d.%d.%d-%s (%s))'' @ nl) (version_line ver))"

definition banner_text :: "build_version \<Rightarrow> string" where
  "banner_text ver = concat (map (\<lambda>l. l @ nl) logo) @ nl @ cut (version_text ver) @ nl"

lemma line_prints: "npf_text (''%s'' @ nl) [Str l] = Some (c_string l @ nl)"
proof -
  have "npf_parse_format_spec (''s'' @ nl) =
      Some (empty_spec\<lparr>conv_spec := NPF_FMT_SPEC_CONV_STRING\<rparr>, nl)"
    by code_simp
  moreover have "c_string (''%s'' @ nl) = ''%s'' @ nl" "text_loop nl [] = Some nl" by code_simp+
  ultimately show ?thesis
    by (simp add: npf_text_def star_width_def star_prec_def
        empty_spec_def npf_convert_def layout_def pad_char_def opt_char_def Let_def)
qed

lemma logo_lines: "list_all (\<lambda>l. c_string l = l \<and> length (l @ nl) < 1024) logo"
  by code_simp

lemma nl_prints: "npf_text nl [] = Some nl" "cut nl = nl"
  by code_simp+

lemma print_logo_emits:
  assumes "ready s" "list_all (\<lambda>l. c_string l = l \<and> length (l @ nl) < 1024) ls"
  shows "\<exists>s'. print_logo ls s = Some s' \<and> emitted (concat (map (\<lambda>l. l @ nl) ls)) s s'"
  using assms
proof (induction ls arbitrary: s)
  case (Cons l ls)
  then have l: "c_string l = l" "cut (l @ nl) = l @ nl" by (simp_all add: cut_def)
  from printf_emits [OF Cons.prems(1) line_prints [of l]] l obtain s1
    where s1: "printf (''%s'' @ nl) [Str l] s = Some (int (length (l @ nl)), s1)" "emitted (l @ nl) s s1" by auto
  from Cons.IH [of s1] emitted_fields(5) [OF s1(2)] Cons.prems obtain s2
    where s2: "print_logo ls s1 = Some s2" "emitted (concat (map (\<lambda>l. l @ nl) ls)) s1 s2" by auto
  from emitted_trans [OF s1(2) s2(2)] s1(1) s2(1) show ?case by simp
qed (simp add: emitted_refl)

lemma version_fits: "npf_text (''(Olive v%d.%d.%d-%s (%s))'' @ nl) (version_line ver) = Some (version_text ver)"
proof -
  have "fits (c_string (''(Olive v%d.%d.%d-%s (%s))'' @ nl)) (map is_slot (version_line ver))"
    unfolding version_line_def by code_simp
  then show ?thesis unfolding version_text_def using npf_text_fits by auto
qed

lemma print_banner_emits:
  assumes "ready s"
  shows "\<exists>s'. print_banner (version_major ver) (version_minor ver) (version_patch ver) s = Some s' \<and>
    emitted (banner_text ver) s s'"
proof -
  from print_logo_emits [OF assms logo_lines] obtain s1
    where s1: "print_logo logo s = Some s1" "emitted (concat (map (\<lambda>l. l @ nl) logo)) s s1" by blast
  have r1: "ready s1" using assms emitted_fields(5) [OF s1(2)] by simp
  from printf_emits [OF r1 nl_prints(1)] obtain s2
    where s2: "printf nl [] s1 = Some (int (length nl), s2)" "emitted nl s1 s2" by (auto simp: nl_prints(2))
  have r2: "ready s2" using r1 emitted_fields(5) [OF s2(2)] by simp
  from printf_emits [OF r2 version_fits [of ver]] obtain n s3
    where s3: "printf (''(Olive v%d.%d.%d-%s (%s))'' @ nl) (version_line ver) s2 = Some (n, s3)"
      "emitted (cut (version_text ver)) s2 s3" by blast
  have r3: "ready s3" using r2 emitted_fields(5) [OF s3(2)] by simp
  from printf_emits [OF r3 nl_prints(1)] obtain s4
    where s4: "printf nl [] s3 = Some (int (length nl), s4)" "emitted nl s3 s4" by (auto simp: nl_prints(2))
  from emitted_trans [OF emitted_trans [OF emitted_trans [OF s1(2) s2(2)] s3(2)] s4(2)]
  have "emitted (banner_text ver) s s4" by (simp only: banner_text_def append_assoc)
  moreover have "print_banner (version_major ver) (version_minor ver) (version_patch ver) s = Some s4"
    using s1(1) s2(1) s3(1) s4(1) by (simp only: print_banner_def version_line_def Option.bind.simps prod.case option.map snd_conv)
  ultimately show ?thesis by blast
qed

section \<open>Refusals\<close>

lemma die_emits:
  assumes "ready s" "line_ok (FATAL (msg @ nl) [])" "line_text (FATAL (msg @ nl) []) = ''[FATAL]: '' @ msg @ nl"
  shows "\<exists>s'. die msg s = Some (Hcf (s'\<lparr>interrupts_on := False\<rparr>)) \<and> emitted (''[FATAL]: '' @ msg @ nl) s s'"
proof -
  from one_line [OF assms(1,2)] obtain s' where "log_lines [FATAL (msg @ nl) []] s = Some s'"
    "emitted (''[FATAL]: '' @ msg @ nl) s s'"
    unfolding assms(3) by blast
  then show ?thesis by (intro exI [of _ s']) (simp add: die_def hcf_def hlt_def del: log_lines.simps)
qed

lemma boot_messages:
  "line_ok (FATAL (''No memory map available'' @ nl) [])"
  "line_text (FATAL (''No memory map available'' @ nl) []) = ''[FATAL]: '' @ ''No memory map available'' @ nl"
  "line_ok (FATAL (''No HHDM offset available'' @ nl) [])"
  "line_text (FATAL (''No HHDM offset available'' @ nl) []) = ''[FATAL]: '' @ ''No HHDM offset available'' @ nl"
  by code_simp+

text \<open>The state after the two descriptor tables are loaded.\<close>

definition with_tables :: "(nat \<Rightarrow> u64) \<Rightarrow> 'a cpu_state_scheme \<Rightarrow> 'a cpu_state_scheme" where
  "with_tables isr_table s = snd (idt_init isr_table (snd (gdt_init s)))"

lemma start_tables_continue: "start_tables isr_table s k = k (with_tables isr_table s)"
  by (simp add: start_tables_def with_tables_def gdt_init_def idt_init_def Let_def)

lemma with_tables_ready [simp]: "ready (with_tables isr_table s) = ready s"
  by (simp add: with_tables_def gdt_init_def idt_init_def gdt_flush_def idt_load_def ready_def Let_def)

definition no_memmap :: "limine_responses \<Rightarrow> bool" where
  "no_memmap r \<longleftrightarrow> memmap_response r = None \<or> memmap_response r = Some []"

definition no_hhdm :: "limine_responses \<Rightarrow> bool" where
  "no_hhdm r \<longleftrightarrow> hhdm_response r = None \<or> hhdm_response r = Some 0"

lemma start_memory_refuses:
  "no_memmap r \<Longrightarrow> start_memory cpuid img r s = die ''No memory map available'' s"
  "\<not> no_memmap r \<Longrightarrow> no_hhdm r \<Longrightarrow> start_memory cpuid img r s = die ''No HHDM offset available'' s"
  by (auto simp: start_memory_def no_memmap_def no_hhdm_def split: option.splits)


text \<open>A terminal that only hands out a context, and a loader that offers nothing but a framebuffer.\<close>

definition plain_terminal :: "cpu_state terminal" where
  "plain_terminal = \<lparr>flanterm_fb_init = \<lambda>fb s. (0x7000, s), cursor_disable = \<lambda>_ s. s, full_refresh = \<lambda>_ s. s\<rparr>"

definition bare_responses :: limine_responses where
  "bare_responses = \<lparr>base_revision_supported = True,
     framebuffer_response = Some [\<lparr>fb_address = 0xA0000, fb_width = 640, fb_height = 480, fb_pitch = 2560,
       red_mask_size = 8, red_mask_shift = 16, green_mask_size = 8, green_mask_shift = 8,
       blue_mask_size = 8, blue_mask_shift = 0\<rparr>],
     memmap_response = None, hhdm_response = None, kernel_address_response = None\<rparr>"

definition no_image :: kernel_image where
  "no_image = \<lparr>text_start_sym = 0, text_end_sym = 0, rodata_start_sym = 0, rodata_end_sym = 0,
     data_start_sym = 0, data_end_sym = 0\<rparr>"

definition first_version :: build_version where
  "first_version = \<lparr>version_major = 0, version_minor = 1, version_patch = 0\<rparr>"


end
