(* ===== verification/HeapRest.thy ===== *)
theory HeapRest
  imports HeapFree
begin

text \<open>
  What the heap does not touch: the state of the virtual memory manager and whatever the
  record holds beyond the heap's own fields. Every operation of the heap keeps it, on every
  heap, well-formed or not.
\<close>

definition rest ::
  "'a heap_state_scheme \<Rightarrow>
     (u64 \<times> limine_memmap_entry list \<times> pagemap_t \<times> u64 \<times> u64 \<times> spinlock_t \<times> u64 \<times> nat) \<times> 'a" where
  "rest s =
     ((hhdm_offset s, memmap s, kernel_pm s, physical_address_width s, linear_address_width s,
       map_lock s, cr3 s, tlb_flushes s), heap_state.more s)"

lemma rest_simps [simp]:
  "rest (s\<lparr>mem := m\<rparr>) = rest s" "rest (s\<lparr>pm_stack_idx := i\<rparr>) = rest s"
  "rest (s\<lparr>pm_free_pages := u\<rparr>) = rest s" "rest (s\<lparr>pm_used_pages := u\<rparr>) = rest s"
  "rest (s\<lparr>l_memRoot := p\<rparr>) = rest s" "rest (s\<lparr>l_bestBet := p\<rparr>) = rest s"
  "rest (s\<lparr>l_allocated := p\<rparr>) = rest s" "rest (s\<lparr>l_inuse := p\<rparr>) = rest s"
  "rest (s\<lparr>l_warningCount := p\<rparr>) = rest s" "rest (s\<lparr>l_errorCount := p\<rparr>) = rest s"
  "rest (s\<lparr>l_possibleOverruns := p\<rparr>) = rest s" "rest (s\<lparr>liballoc_lock_var := l\<rparr>) = rest s"
  "rest (s\<lparr>klog := ls\<rparr>) = rest s"
  by (simp_all add: rest_def)

section \<open>The frames\<close>

lemma request_rest: "pmm_request_pages n s = (p, s') \<Longrightarrow> rest s' = rest s"
  by (auto simp: pmm_request_pages_def Let_def split: if_splits)

lemma alloc_rest: "liballoc_alloc n s = (p, s') \<Longrightarrow> rest s' = rest s"
  by (auto simp: liballoc_alloc_def split: prod.splits dest: request_rest)

lemma free_loop_rest: "pm_free_loop a i n s = (b, s') \<Longrightarrow> rest s' = rest s"
proof (induction a i n s rule: pm_free_loop.induct)
  case (1 a i n s)
  then show ?case by (subst (asm) (2) pm_free_loop.simps) (auto simp: pm_push_def split: if_splits)
qed

lemma free_pages_rest: "pmm_free_pages p n s = Ret u s' \<Longrightarrow> rest s' = rest s"
  by (auto simp: pmm_free_pages_def assert_failed_def split: if_splits prod.splits bool.splits dest: free_loop_rest)

section \<open>Allocation\<close>

lemma unlock_rest [simp]: "rest (liballoc_unlock s) = rest s"
  by (simp add: liballoc_unlock_def)

lemma lock_rest: "liballoc_lock s = Some s' \<Longrightarrow> rest s' = rest s"
  by (auto simp: liballoc_lock_def)

lemma new_page_rest: "allocate_new_page sz s = (p, s') \<Longrightarrow> rest s' = rest s"
  by (auto simp: allocate_new_page_def Let_def split: prod.splits if_splits dest: alloc_rest)

lemma append_rest: "append_page sz maj s = (p, s') \<Longrightarrow> rest s' = rest s"
  by (auto simp: append_page_def Let_def split: prod.splits if_splits dest: new_page_rest)

lemma malloc_failed_rest [simp]: "rest (snd (malloc_failed sz s)) = rest s"
  by (simp add: malloc_failed_def liballoc_dump_def)

lemma claim_rest: "claim q sz s = (p, s') \<Longrightarrow> rest s' = rest s"
  by (auto simp: claim_def ALIGN_def Let_def)

lemma cases_rest:
  "rest (snd (case2 sz req maj s)) = rest s" "rest (snd (case3 sz req maj s)) = rest s"
  "rest (snd (case41 sz req maj q s)) = rest s" "rest (snd (case42 sz req maj q s)) = rest s"
  by (simp_all add: case2_def case3_def case41_def case42_def claim_def ALIGN_def Let_def)

lemma scan_rest:
  assumes "scan_minors sz req maj q s = Some y"
  shows "rest (snd y) = rest s"
proof (rule scan_minors.raw_induct [where P = "\<lambda>sz req maj q s y. rest (snd y) = rest s", OF _ assms])
  fix scan and sz req maj q and s :: "'a heap_state_scheme" and y
  assume IH: "\<And>sz req maj q s y. scan sz req maj q s = Some y \<Longrightarrow> rest (snd y) = (rest s :: _ \<times> 'a)"
    and eq: "(if q = 0 then Some (None, s)
      else if min_next (mem s) q = 0 \<and>
          sz + sizeof_minor \<le> room_after (mem s) q (maj + ucast (maj_size (mem s) maj))
      then Some (apfst Some (case41 sz req maj q s))
      else if min_next (mem s) q \<noteq> 0 \<and> sz + sizeof_minor \<le> room_after (mem s) q (min_next (mem s) q)
      then Some (apfst Some (case42 sz req maj q s))
      else scan sz req maj (min_next (mem s) q) s) = Some y"
  show "rest (snd y) = rest s"
    using eq IH [of sz req maj "min_next (mem s) q" s y] by (auto simp: cases_rest split: if_splits)
qed

lemma try_block_rest: "try_block sz req maj s = Some y \<Longrightarrow> rest (snd y) = rest s"
  using scan_rest [of sz req maj _ s y] by (auto simp: try_block_def cases_rest split: if_splits)

lemma step_rest: "rest (snd (case1 sz maj bet s)) = rest s" "rest (snd (case5 sz maj bet s)) = rest s"
  by (auto simp: case1_def case5_def split: prod.splits dest: append_rest)

lemma malloc_loop_rest:
  assumes "malloc_loop sz req maj bet best s = Some y"
  shows "rest (snd y) = rest s"
proof (rule malloc_loop.raw_induct [where P = "\<lambda>sz req maj bet best s y. rest (snd y) = rest s", OF _ assms])
  fix loop and sz req maj bet best and s :: "'a heap_state_scheme" and y
  assume IH: "\<And>sz req maj bet best s y. loop sz req maj bet best s = Some y \<Longrightarrow> rest (snd y) = (rest s :: _ \<times> 'a)"
    and body: "(if maj = 0 then Some (malloc_failed sz s)
      else
        let diff = free_space (mem s) maj;
            s1 = (if best < diff then s\<lparr>l_bestBet := maj\<rparr> else s);
            best = (if best < diff then diff else best)
        in case case1 sz maj bet s1 of
             (Break, s2) \<Rightarrow> Some (malloc_failed sz s2)
           | (Continue maj' bet, s2) \<Rightarrow> loop sz req maj' bet best s2
           | (Here maj', s2) \<Rightarrow>
               Option.bind (try_block sz req maj' s2) (\<lambda>(r, s3).
                 case r of
                   Some p \<Rightarrow> Some (p, liballoc_unlock s3)
                 | None \<Rightarrow>
                     (case case5 sz maj' bet s3 of
                        (Continue maj'' bet, s4) \<Rightarrow> loop sz req maj'' bet best s4
                      | (_, s4) \<Rightarrow> Some (malloc_failed sz s4)))) = Some y"
  define s1 where "s1 = (if best < free_space (mem s) maj then s\<lparr>l_bestBet := maj\<rparr> else s)"
  define b where "b = (if best < free_space (mem s) maj then free_space (mem s) maj else best)"
  obtain st s2 where c1: "case1 sz maj bet s1 = (st, s2)" by fastforce
  have r2: "rest s2 = rest s" using step_rest(1) [of sz maj bet s1] c1 by (simp add: s1_def)
  note eq = body [unfolded Let_def, folded s1_def b_def, unfolded c1 prod.case]
  show "rest (snd y) = rest s"
  proof (cases "maj = 0")
    case True
    then show ?thesis using body by auto
  next
    case False
    show ?thesis
    proof (cases st)
      case (Continue maj' bet')
      then have "loop sz req maj' bet' b s2 = Some y" using eq False by simp
      from IH [OF this] r2 show ?thesis by simp
    next
      case (Here maj')
      then obtain r s3 where tr: "try_block sz req maj' s2 = Some (r, s3)"
        using eq False by (cases "try_block sz req maj' s2") auto
      have r3: "rest s3 = rest s" using try_block_rest [OF tr] r2 by simp
      show ?thesis
      proof (cases r)
        case None
        obtain st' s4 where c5: "case5 sz maj' bet s3 = (st', s4)" by fastforce
        have r4: "rest s4 = rest s" using step_rest(2) [of sz maj' bet s3] c5 r3 by simp
        show ?thesis
        proof (cases st')
          case (Continue maj'' bet'')
          then have "loop sz req maj'' bet'' b s4 = Some y" using eq False Here tr None c5 by simp
          from IH [OF this] r4 show ?thesis by simp
        qed (use eq False Here tr None c5 r4 in auto)
      qed (use eq False Here tr r3 in auto)
    next
      case Break
      then show ?thesis using eq False r2 by auto
    qed
  qed
qed

lemma malloc_locked_rest: "malloc_locked sz req s = Some y \<Longrightarrow> rest (snd y) = rest s"
proof -
  assume a: "malloc_locked sz req s = Some y"
  obtain r s' where n: "allocate_new_page (ucast sz) s = (r, s')" by fastforce
  define s1 where "s1 = (if l_memRoot s = 0 then s'\<lparr>l_memRoot := r\<rparr> else s)"
  have "rest s1 = rest s" using new_page_rest [OF n] by (simp add: s1_def)
  moreover have "rest (snd y) = rest s1"
    using a [unfolded malloc_locked_def n prod.case Let_def, folded s1_def] malloc_loop_rest [of sz req _ _ _ s1 y]
    by (cases "l_memRoot s1 = 0") auto
  ultimately show ?thesis by simp
qed

lemma kmalloc_rest: "kmalloc req s = Some (p, s') \<Longrightarrow> rest s' = rest s"
  by (auto simp: kmalloc_def split: bind_splits if_splits dest!: lock_rest malloc_locked_rest)

section \<open>Freeing\<close>

lemma release_rest: "release_major maj s = Ret u s' \<Longrightarrow> rest s' = rest s"
  by (auto simp: release_major_def liballoc_free_def Let_def dest!: free_pages_rest)

lemma update_bet_rest [simp]: "rest (update_bet maj s) = rest s"
  by (simp add: update_bet_def)

lemma bad_magic_rest [simp]: "rest (bad_magic level prefix magic ptr s) = rest s"
  by (simp add: bad_magic_def Let_def)

lemma kfree_rest: "kfree p s = Some (Ret u s') \<Longrightarrow> rest s' = rest s"
  by (auto simp: kfree_def Let_def split: bind_splits if_splits outcome.splits dest!: lock_rest release_rest)

end
