(* ===== verification/BootHeap.thy ===== *)
theory BootHeap
  imports BootProps VmmProps HeapRuns HeapRest
begin

text \<open>
  A boot that succeeds. The test allocation at the end of the entry point: one block from the
  physical memory manager, one byte written, printed and read back, and the block handed back
  with nothing left in the heap.
\<close>

section \<open>The line it prints\<close>

definition heap_line :: "u64 \<Rightarrow> log_line" where
  "heap_line a = INFO (''Allocated 1 byte at %p (%c)'' @ nl) [Slot a, Slot 65]"

definition heap_text :: "u64 \<Rightarrow> string" where
  "heap_text a = ''[INFO]: Allocated 1 byte at 0x'' @ rev (the (npf_utoa_rev a 16 32)) @ '' (A)'' @ nl"

lemma heap_line_ok: "line_ok (heap_line a)"
  unfolding heap_line_def by code_simp

lemma heap_line_text: "line_text (heap_line a) = heap_text a"
proof -
  let ?f = "''Allocated 1 byte at %p (%c)'' @ nl"
  have c: "c_string ?f = ?f" "c_string ''INFO'' = ''INFO''" by code_simp+
  have p: "npf_parse_format_spec (''p (%c)'' @ nl) = Some (empty_spec\<lparr>conv_spec := NPF_FMT_SPEC_CONV_POINTER\<rparr>, '' (%c)'' @ nl)"
    "npf_parse_format_spec (''c)'' @ nl) = Some (empty_spec\<lparr>conv_spec := NPF_FMT_SPEC_CONV_CHAR\<rparr>, '')'' @ nl)"
    by code_simp+
  have A: "char_of (65 :: int) = CHR ''A''" "char_of (65 :: nat) = CHR ''A''"
    by code_simp+
  obtain ds where ds: "npf_utoa_rev a 16 32 = Some ds" "length ds \<le> 22"
    by (rule utoa_some [of 16 a 32]) auto
  have "npf_text ?f [Slot a, Slot 65] = Some (''Allocated 1 byte at 0x'' @ rev ds @ '' (A)'' @ nl)"
    unfolding npf_text_def c using p ds(1)
    by (simp add: A star_width_def star_prec_def empty_spec_def npf_convert_def layout_def pad_char_def
        prec_pad_def opt_char_def Let_def nl_def NUL_def)
  then show ?thesis
    using ds by (simp add: line_text_def heap_line_def heap_text_def c cut_def nl_def)
qed

section \<open>A heap and the rest of memory\<close>

text \<open>A well-formed heap stays so when memory changes outside its blocks.\<close>

lemma heap_ok_cong:
  assumes ok: "heap_ok s rs" and same: "\<And>x. \<not> outside_all rs x \<Longrightarrow> mem t x = mem s x"
    and glob: "l_memRoot t = l_memRoot s" "l_bestBet t = l_bestBet s" "liballoc_lock_var t = liballoc_lock_var s"
  shows "heap_ok t rs" "(B, x) \<in> live rs \<Longrightarrow> serves (mem s) B x n p \<Longrightarrow> serves (mem t) B x n p"
proof -
  have ch: "chained (mem s) 0 rs 0" using ok by (simp add: heap_ok_def heap_inv_def)
  have inside: "mem t (rbase r + of_nat i) = mem s (rbase r + of_nat i)" if "r \<in> set rs" "i < rsize r" for r i
  proof (rule same)
    have "region_ok (mem s) r" by (rule chained_region [OF ch that(1)])
    then have "rsize r < 2 ^ 32" by (simp add: region_ok_def block_def)
    then have "unat (rbase r + of_nat i - rbase r) = i" using that(2) by (simp add: unat_of_nat_small)
    then show "\<not> outside_all rs (rbase r + of_nat i)" using that
      unfolding outside_all_def by (metis leD)
  qed
  show "heap_ok t rs"
    using ok chained_cong [OF ch inside] glob by (simp add: heap_ok_def heap_inv_def)
  assume x: "(B, x) \<in> live rs" and sv: "serves (mem s) B x n p"
  obtain hi bs where r: "(B, hi, bs) \<in> set rs" "x \<in> set bs" using live_region [OF x] by blast
  have rok: "region_ok (mem s) (B, hi, bs)" by (rule chained_region [OF ch r(1)])
  have "mem t (B + of_nat i) = mem s (B + of_nat i)" if "i < hi" for i
    using inside [OF r(1)] that by simp
  then have "mem t (bptr B x + 40 + of_nat j) = mem s (bptr B x + 40 + of_nat j)" if "j < snd x" for j
    using region_cong(4) [OF rok, of "mem t"] r(2) that by simp
  from serves_cong(1) [OF sv this] show "serves (mem t) B x n p" .
qed

lemma shown_rest: "rest s = rest s' \<Longrightarrow> rest (shown t s) = rest (shown t s')"
  by (cases s; cases s') (simp add: rest_def shown_def Let_def)

lemma emitted_rest: "emitted t s s' \<Longrightarrow> rest s' = rest (shown t s)"
proof -
  assume "emitted t s s'"
  then have "rest s' = rest ((shown t s)\<lparr>mem := mem s'\<rparr>)" by (metis emitted_def)
  then show ?thesis by simp
qed

lemma emitted_heap:
  assumes "emitted t s s'"
  shows "l_memRoot s' = l_memRoot s" "l_bestBet s' = l_bestBet s" "liballoc_lock_var s' = liballoc_lock_var s"
    "stack_wf s' = stack_wf s" "stack_region s' = stack_region s" "klog s' = klog s"
    "pm_stack_idx s' = pm_stack_idx s" "pm_total_pages s' = pm_total_pages s"
proof -
  have eq: "s' = (shown t s)\<lparr>mem := mem s'\<rparr>" using assms by (simp add: emitted_def)
  show "l_memRoot s' = l_memRoot s" "l_bestBet s' = l_bestBet s" "liballoc_lock_var s' = liballoc_lock_var s"
    "stack_wf s' = stack_wf s" "stack_region s' = stack_region s" "klog s' = klog s"
    "pm_stack_idx s' = pm_stack_idx s" "pm_total_pages s' = pm_total_pages s"
    by (subst eq, simp add: shown_def Let_def stack_wf_def stack_region_def)+
qed

lemma rest_console:
  assumes "rest s = rest s'"
  shows "ready s = ready s'" "in_buffer s = in_buffer s'"
  using assms by (cases s; cases s'; simp add: rest_def ready_def in_buffer_def fun_eq_iff)+

lemma flush_nothing: "klog s = [] \<Longrightarrow> flush_log s = Some s"
  by (simp add: flush_log_def)

section \<open>The test allocation\<close>

lemma sixteen_for_one: "request_pages 1 = 16"
  by (simp add: request_pages_def page_count_def l_pageSize_def l_pageCount_def sizeof_major_def sizeof_minor_def)

text \<open>The first request gets a block of its own, and the byte can be written.\<close>

lemma first_byte:
  assumes ok: "heap_ok s []" and wf: "stack_wf s"
    and q: "fst (liballoc_alloc 16 s) = q" "q \<noteq> 0" "aligned q" "unat q + 65536 < 2 ^ 64" "16 \<le> pm_stack_idx s"
    and stack: "\<And>y. pgno y \<in> stack_region s \<Longrightarrow> 65536 \<le> unat (y - q)"
  shows "\<exists>a off s1. kmalloc 1 s = Some (a, s1) \<and> a \<noteq> 0 \<and> unat (a - q) < 65536 \<and>
    rest (upd (st8 a 65) s1) = rest s \<and> same_stack s (upd (st8 a 65) s1) \<and>
    heap_ok (upd (st8 a 65) s1) [(q, 65536, [(off, 33)])] \<and> serves (mem (upd (st8 a 65) s1)) q (off, 33) 1 a \<and>
    (\<forall>x. 65536 \<le> unat (x - q) \<longrightarrow> mem (upd (st8 a 65) s1) x = mem s x) \<and>
    klog s1 = klog s \<and> pm_stack_idx s1 = pm_stack_idx s - 16"
proof -
  have block: "new_block s 1 = (q, 65536)" by (simp add: new_block_def sixteen_for_one q(1))
  have none: "\<not> some_fits [] 1" by (simp add: some_fits_def)
  have sup: "some_fits [] 1 \<or> supplies s [] (request_pages 1)"
    using q by (simp add: supplies_def sixteen_for_one)
  have ch: "chosen s [] 1 = Some (q, 65536)" by (simp add: chosen_def none block)
  obtain a s1 rs B off where k: "kmalloc 1 s = Some (a, s1)" "added (Some (q, 65536)) [] B (off, 33) rs" "heap_ok s1 rs"
    "serves (mem s1) B (off, 33) 1 a" "\<And>x. outside_all rs x \<Longrightarrow> mem s1 x = mem s x" "same_stack s s1"
    "klog s1 = klog s @ supply_log s 16" "pm_stack_idx s1 = supply_idx s 16"
    using kmalloc_any [OF ok _ sup] none q(2) by (simp add: ch sixteen_for_one q(1)) blast
  have B: "B = q" and rs: "rs = [(q, 65536, [(off, 33)])]" using k(2) by simp_all
  have "block (mem s1) q 65536 [(off, 33)]" using k(3) by (simp add: heap_ok_def heap_inv_def rs region_ok_def)
  then have off: "off + 73 \<le> 65536" using bptr_unat(4) [of "mem s1" q 65536 "[(off, 33)]" "(off, 33)"] by simp
  obtain j where j: "j \<le> 31" "a = bptr q (off, 33) + 40 + of_nat j" using k(4) B by (auto simp: serves_def)
  have "a - q = of_nat (off + 40 + j)" using j(2) by (simp add: bptr_def)
  moreover have "off + 40 + j < 65536" using off j(1) by linarith
  ultimately have at: "unat (a - q) < 65536" using unat_of_nat_le [of "off + 40 + j"] by simp
  have live: "live rs = {(q, (off, 33))}" by (simp add: live_def rs)
  have holds: "holds (mem s1) rs a 1" using k(4) B by (simp add: holds_def live)
  have clear: "outside_all rs y" if "65536 \<le> unat (y - q)" for y using that by (simp add: outside_all_def rs)
  have "client_inv s1 rs [a \<mapsto> 1] Map.empty"
    using k(3) same_stack_wf [OF k(6)] wf stack clear holds by (simp add: client_inv_def)
  from store_client [OF this, of a 1 0 65] have "client_inv (upd (st8 a 65) s1) rs [a \<mapsto> 1] [a \<mapsto> 65]" by simp
  then have "heap_ok (upd (st8 a 65) s1) rs" "serves (mem (upd (st8 a 65) s1)) q (off, 33) 1 a"
    by (simp_all add: client_inv_def holds_def live)
  moreover have "a \<noteq> 0" using holds_nonzero(1) [OF _ holds] k(3) by (simp add: heap_ok_def)
  moreover have "mem (upd (st8 a 65) s1) x = mem s x" if "65536 \<le> unat (x - q)" for x
    using k(5) [OF clear [OF that]] at that by (auto simp: st8_apply)
  moreover have "rest (upd (st8 a 65) s1) = rest s" using kmalloc_rest [OF k(1)] by simp
  moreover have "same_stack s (upd (st8 a 65) s1)" using k(6) by (simp add: same_stack_def)
  moreover have "klog s1 = klog s" "pm_stack_idx s1 = pm_stack_idx s - 16"
    using k(7,8) q(5) by (simp_all add: supply_log_def supply_idx_def)
  ultimately show ?thesis using k(1) at unfolding rs by blast
qed

lemma try_heap_runs:
  assumes ok: "heap_ok s []" and wf: "stack_wf s" and ready: "ready s" and log: "klog s = []"
    and q: "fst (liballoc_alloc 16 s) = q" "q \<noteq> 0" "aligned q" "unat q + 65536 < 2 ^ 64" "16 \<le> pm_stack_idx s"
    and stack: "\<And>y. pgno y \<in> stack_region s \<Longrightarrow> 65536 \<le> unat (y - q)"
    and buffer: "\<And>x. in_buffer s x \<Longrightarrow> 65536 \<le> unat (x - q)"
  shows "\<exists>a s'. try_heap s = Some (Hlt s') \<and> unat (a - q) < 65536 \<and> heap_ok s' [] \<and>
    rest s' = rest (shown (heap_text a) s) \<and> klog s' = [] \<and>
    (\<forall>x. 65536 \<le> unat (x - q) \<and> \<not> in_buffer s x \<and> pgno x \<notin> stack_region s \<longrightarrow> mem s' x = mem s x)"
proof -
  obtain a off s1 where k: "kmalloc 1 s = Some (a, s1)" "a \<noteq> 0" "unat (a - q) < 65536"
    and r: "rest (upd (st8 a 65) s1) = rest s" "same_stack s (upd (st8 a 65) s1)"
    and h: "heap_ok (upd (st8 a 65) s1) [(q, 65536, [(off, 33)])]" "serves (mem (upd (st8 a 65) s1)) q (off, 33) 1 a"
    and m2: "\<And>x. 65536 \<le> unat (x - q) \<Longrightarrow> mem (upd (st8 a 65) s1) x = mem s x"
    and l: "klog s1 = klog s" "pm_stack_idx s1 = pm_stack_idx s - 16"
    using first_byte [OF ok wf q stack] by blast
  define s2 where "s2 = upd (st8 a 65) s1"
  note h2 = h [folded s2_def] and r2 = r(1) [folded s2_def] and W = same_stack_wf [OF r(2) [folded s2_def]]
  let ?rs = "[(q, 65536, [(off, 33)])] :: region list"
  have clear: "outside_all ?rs y" if "65536 \<le> unat (y - q)" for y using that by (simp add: outside_all_def)
  have "ready s2" using rest_console(1) [OF r2] ready by simp
  from one_line [OF this heap_line_ok, of a] obtain s3 where s3: "log_lines [heap_line a] s2 = Some s3"
    "emitted (heap_text a) s2 s3" unfolding heap_line_text by blast
  note E = emitted_heap [OF s3(2)]
  have m3: "mem s3 x = mem s2 x" if "\<not> in_buffer s x" for x
    using s3(2) that by (simp add: emitted_def rest_console(2) [OF r2])
  have inside: "mem s3 x = mem s2 x" if "\<not> outside_all ?rs x" for x
    using m3 buffer clear that by blast
  have "heap_ok s3 ?rs" by (rule heap_ok_cong(1) [OF h2(1) _ E(1-3)]) (rule inside)
  then have h3: "heap_ok s3 ([] @ (q, 65536, [] @ (off, 33) # []) # [])" by simp
  have "(q, (off, 33)) \<in> live ?rs" by (simp add: live_def)
  then have sv: "serves (mem s3) q (off, 33) 1 a"
    using heap_ok_cong(2) [OF h2(1) inside E(1-3), of q "(off, 33)" 1 a] h2(2) by blast
  have st3: "stack_wf s3" "stack_region s3 = stack_region s" using E(4,5) W wf by simp_all
  have away: "outside_all ([] @ (q, 65536, [] @ (off, 33) # []) # []) y" if "pgno y \<in> stack_region s3" for y
    using clear stack that st3(2) by simp
  from kfree_any [OF h3 sv st3(1) away] obtain s4 where f: "kfree a s3 = Some (Ret () s4)" "heap_ok s4 []"
    "\<And>y. outside_all ?rs y \<Longrightarrow> pgno y \<notin> stack_region s \<Longrightarrow> mem s4 y = mem s3 y"
    "klog s4 = klog s3 @ overflow_log s3 16"
    by (auto simp: region_minus_def st3(2))
  have l3: "klog s3 = []" using E(6) l(1) log by (simp add: s2_def)
  have "overflow_log s3 16 = []"
  proof -
    have "pm_stack_idx s3 = pm_stack_idx s - 16" "pm_total_pages s3 = pm_total_pages s"
      using E(7,8) l(2) r(2) by (simp_all add: s2_def same_stack_def)
    moreover have "unat (pm_stack_idx s - 16) + 16 = unat (pm_stack_idx s)"
      using q(5) by (simp add: unat_sub word_le_nat_alt)
    ultimately show ?thesis using wf by (simp add: overflow_log_def stack_wf_def word_le_nat_alt)
  qed
  with f(4) l3 have l4: "klog s4 = []" by simp
  have "ld8 (mem s2) a = 65" by (simp add: s2_def)
  then have "try_heap s = Some (Hlt s4)"
    using k(1,2) s3(1) f(1) flush_nothing [of s1] flush_nothing [OF l4] l(1) log
    by (simp add: try_heap_def heap_line_def hlt_def Let_def del: log_lines.simps flip: s2_def)
  moreover have "rest s4 = rest (shown (heap_text a) s)"
    using kfree_rest [OF f(1)] emitted_rest [OF s3(2)] shown_rest [OF r2] by simp
  moreover have "mem s4 x = mem s x" if "65536 \<le> unat (x - q)" "\<not> in_buffer s x" "pgno x \<notin> stack_region s" for x
    using f(3) [OF clear [OF that(1)] that(3)] m3 [OF that(2)] m2 [OF that(1), folded s2_def] by simp
  ultimately show ?thesis using k(3) f(2) l4 by blast
qed

section \<open>The pages of a block\<close>

lemma block_page:
  assumes "aligned q" "unat (y - q) < 4096 * n" "n \<le> 2 ^ 40"
  shows "\<exists>k < n. pgno y = pgno (q + PAGE_SIZE * of_nat k)"
proof -
  let ?d = "unat (y - q)"
  let ?k = "?d div 4096"
  have k: "?k < n" using assms(2) by (simp add: less_mult_imp_div_less mult.commute)
  have "(of_nat ?d :: u64) = y - q" by (metis of_nat_unat ucast_id)
  then have "y - q = of_nat (4096 * ?k + ?d mod 4096)" by (simp only: mult_div_mod_eq)
  then have "y - q = PAGE_SIZE * of_nat ?k + of_nat (?d mod 4096)"
    by (simp only: of_nat_add of_nat_mult PAGE_SIZE_def of_nat_numeral)
  then have y: "y = (q + PAGE_SIZE * of_nat ?k) + of_nat (?d mod 4096)" by (simp add: algebra_simps)
  have "unat (of_nat (?d mod 4096) :: u64) < 4096" using unat_of_nat_le [of "?d mod 4096"] by (meson le_less_trans mod_less_divisor zero_less_numeral)
  then have "pgno y = pgno (q + PAGE_SIZE * of_nat ?k)"
    by (subst y) (intro pgno_offset aligned_add assms(1) aligned_mult_PAGE_SIZE)
  with k show ?thesis by blast
qed

text \<open>A block made of free frames in a row lies apart from the stack and from every table.\<close>

lemma block_of_frames:
  assumes ok: "tables_ok s root" and list: "free_list s = ps @ pages_from f n" and n: "n \<le> 2 ^ 40"
    and y: "unat (y - (f + hhdm_offset s)) < 4096 * n"
  shows "pgno y \<notin> stack_region s" "\<not> table_page s root y"
    "\<exists>p \<in> set (pages_from f n). pgno y = pgno (p + hhdm_offset s)"
proof -
  have pok: "pmm_ok s" by (rule tables_okD(1) [OF ok])
  have "0 < n" using y by (cases n) auto
  then have f: "f \<in> set (free_list s)" by (simp add: list pages_from_def image_iff) (auto intro: bexI [of _ 0])
  have "aligned (f + hhdm_offset s)" using pok f by (auto simp: pmm_ok_def frame_ok_def aligned_add)
  from block_page [OF this, of y n] y n obtain k where k: "k < n"
    "pgno y = pgno (f + hhdm_offset s + PAGE_SIZE * of_nat k)" by auto
  define p where "p = f + PAGE_SIZE * of_nat k"
  have p': "p \<in> set (pages_from f n)" using k(1) by (auto simp: pages_from_def p_def)
  then have p: "p \<in> set (free_list s)" by (simp add: list)
  have y_p: "pgno y = pgno (p + hhdm_offset s)" using k(2) by (simp add: p_def add.assoc add.commute [of "hhdm_offset s"])
  show "\<exists>p \<in> set (pages_from f n). pgno y = pgno (p + hhdm_offset s)" using p' y_p by blast
  show "pgno y \<notin> stack_region s" using pok p y_p by (simp add: pmm_ok_def frame_ok_def)
  show "\<not> table_page s root y"
    using free_frame_apart(1) [OF ok _ _ p] y_p unfolding table_page_def by metis
qed

section \<open>The physical memory manager at boot\<close>

lemma push_list_more:
  "pmm_state.more (pm_push_list vs s) = pmm_state.more s" "klog (pm_push_list vs s) = klog s"
  by (induction vs arbitrary: s) (simp_all add: pm_push_def)

lemma free_pages_pmm [simp]:
  "pmm_ok (s\<lparr>pm_free_pages := n\<rparr>) = pmm_ok s" "free_list (s\<lparr>pm_free_pages := n\<rparr>) = free_list s"
  by (simp_all add: pmm_ok_def stack_wf_def frame_ok_def free_list_def stack_region_def)

text \<open>The memory map with the stack's pages taken out of entry \<open>i\<close>.\<close>

definition placed :: "nat \<Rightarrow> limine_memmap_entry list \<Rightarrow> limine_memmap_entry list" where
  "placed i es = es[i := shrunk (stack_bytes es) (es ! i)]"

lemma pmm_init_boots:
  assumes "memmap_wf h es" "pm_total_pages s = 0" "pm_stack_idx s = 0"
    and "pm_find_room es (stack_bytes es) (length es) = Some i"
  shows "\<exists>t. pmm_init (Some es) h s = (0, t) \<and> free_list t = usable_pages (placed i es) \<and> pmm_ok t \<and>
    memmap t = placed i es \<and> hhdm_offset t = h \<and> pmm_state.more t = pmm_state.more s \<and> klog t = klog s"
proof -
  define t where "t = pm_push_list (usable_pages (placed i es)) (with_stack i es h s)"
  note P = pmm_init_placed [OF assms, folded placed_def, folded t_def]
  have "pmm_state.more t = pmm_state.more s" "klog t = klog s"
    by (simp_all add: t_def push_list_more with_stack_def with_memmap_def Let_def)
  moreover have "hhdm_offset t = h" by (simp add: t_def)
  ultimately show ?thesis using P by (intro exI [of _ "t\<lparr>pm_free_pages := pm_stack_idx t\<rparr>"]) simp
qed

section \<open>The boot after the console\<close>

lemma heap_globals:
  assumes "vmm_state.more t = vmm_state.more s"
  shows "l_memRoot t = l_memRoot s" "l_bestBet t = l_bestBet s" "liballoc_lock_var t = liballoc_lock_var s"
    "heap_state.more t = heap_state.more s"
  using assms by (cases s; cases t; simp)+

lemma console_globals:
  assumes "heap_state.more t = heap_state.more s"
  shows "ready t = ready s" "in_buffer t = in_buffer s" "heap_state.more (shown u t) = heap_state.more (shown u s)"
  using assms by (cases s; cases t; simp add: ready_def in_buffer_def fun_eq_iff shown_def Let_def)+

text \<open>
  The print buffer is kernel memory: no usable frame of the memory map holds a byte of it.
\<close>

definition buffer_apart :: "u64 \<Rightarrow> limine_memmap_entry list \<Rightarrow> 'a con_state_scheme \<Rightarrow> bool" where
  "buffer_apart h es s \<longleftrightarrow> (\<forall>x. in_buffer s x \<longrightarrow> (\<forall>p \<in> set (usable_pages es). pgno x \<noteq> pgno (p + h)))"

text \<open>
  What a successful boot needs of the memory map: it is well-formed, entry \<open>i\<close> has room for the
  stack, no mapping loop wraps round, and the topmost free frames are, from the top down, the
  root table, one frame for each table the mappings need, and sixteen in a row from \<open>f\<close> up for
  the first block of the heap.
\<close>

definition memory_suffices ::
  "kernel_image \<Rightarrow> u64 \<Rightarrow> u64 \<Rightarrow> u64 \<Rightarrow> limine_memmap_entry list \<Rightarrow> nat \<Rightarrow> u64 \<Rightarrow> u64 \<Rightarrow> bool" where
  "memory_suffices img kv kp h es i f root \<longleftrightarrow>
     memmap_wf h es \<and> pm_find_room es (stack_bytes es) (length es) = Some i \<and>
     list_all entry_ends (placed i es) \<and> unat h + unat f + 65536 < 2 ^ 64 \<and>
     (\<exists>ps ts. usable_pages (placed i es) = ps @ pages_from f 16 @ ts @ [root] \<and>
        length ts = tables_needed (boot_requests img kv kp h (placed i es)))"

text \<open>The kernel's globals as its image has them, with the locks free.\<close>

definition just_loaded :: "'a con_state_scheme \<Rightarrow> bool" where
  "just_loaded s \<longleftrightarrow>
     pm_total_pages s = 0 \<and> pm_stack_idx s = 0 \<and> locked (map_lock s) = 0 \<and>
     locked (liballoc_lock_var s) = 0 \<and> l_memRoot s = 0 \<and> l_bestBet s = 0 \<and> klog s = [] \<and> ready s"

text \<open>What the two managers leave behind for the heap.\<close>

definition managers_up ::
  "u64 \<Rightarrow> u64 \<Rightarrow> u64 \<Rightarrow> limine_memmap_entry list \<Rightarrow> (u64 \<Rightarrow> u64 option) \<Rightarrow> 'a vmm_state_scheme \<Rightarrow> bool" where
  "managers_up h root f es A s \<longleftrightarrow>
     kernel_pm s = \<lparr>pml4 = root + h\<rparr> \<and> cr3 s = root \<and> tables_ok s (root + h) \<and> locked (map_lock s) = 0 \<and> hhdm_offset s = h \<and>
     space (kernel_pm s) s = A \<and> (\<exists>ps. free_list s = ps @ pages_from f 16) \<and>
     set (free_list s) \<subseteq> set (usable_pages es) \<and>
     (\<forall>x. table_page s (root + h) x \<longrightarrow> (\<exists>p \<in> set (usable_pages es). pgno x = pgno (p + h)))"

lemma managers_start:
  fixes img :: kernel_image
  assumes "kv \<noteq> 0" "kp \<noteq> 0" and memory: "memory_suffices img kv kp h es i f root"
    and fresh: "pm_total_pages s = 0" "pm_stack_idx s = 0" and lock: "locked (map_lock s) = 0"
  defines "reqs \<equiv> boot_requests img kv kp h (placed i es)"
  shows "\<exists>s1 s2. pmm_init (Some es) h s = (0, s1) \<and> vmm_init cpuid img kv kp s1 = Some (0, s2) \<and>
    vmm_state.more s2 = vmm_state.more s \<and> klog s1 = klog s \<and> klog s2 = klog s \<and>
    managers_up h root f (placed i es) (fold (\<lambda>(v, p, f). page_set v (p OR f)) reqs (\<lambda>_. None)) s2"
proof -
  obtain ps ts where enough: "usable_pages (placed i es) = ps @ pages_from f 16 @ ts @ [root]" "length ts = tables_needed reqs"
    using memory unfolding memory_suffices_def reqs_def by blast
  have "memmap_wf h es" "pm_find_room es (stack_bytes es) (length es) = Some i" and ends: "list_all entry_ends (placed i es)"
    using memory by (simp_all add: memory_suffices_def)
  then obtain s1 where s1: "pmm_init (Some es) h s = (0, s1)" "free_list s1 = usable_pages (placed i es)" "pmm_ok s1"
    "memmap s1 = placed i es" "hhdm_offset s1 = h" "pmm_state.more s1 = pmm_state.more s"
    "klog s1 = klog s"
    using pmm_init_boots [OF _ fresh] by blast
  note V = vmm_more_eq [OF s1(6)]
  let ?pm = "\<lparr>pml4 = root + h\<rparr>" and ?fs = "ps @ pages_from f 16 @ ts"
  have fl: "free_list s1 = ?fs @ [root]" and lock1: "locked (map_lock s1) = 0"
    using s1(2) enough(1) V(3) lock by simp_all
  have fit: "tables_needed reqs \<le> length ?fs" "take (length ?fs - tables_needed reqs) ?fs = ps @ pages_from f 16"
    using enough(2) by simp_all
  have "list_all entry_ends (memmap s1)" using ends by (simp add: s1(4))
  from vmm_init_builds [OF s1(3) lock1 assms(1,2) fl this, of cpuid img] obtain s2 where
    v: "vmm_init cpuid img kv kp s1 = Some (0, s2)" "kernel_pm s2 = ?pm" "cr3 s2 = root" "vmm_ok (kernel_pm s2) s2"
      "hhdm_offset s2 = h" "vmm_state.more s2 = vmm_state.more s1"
      "\<forall>x. table_page s2 (root + h) x \<longrightarrow> (\<exists>q \<in> set (free_list s1). pgno x = pgno (q + h))"
      "tables_needed reqs \<le> length ?fs \<longrightarrow>
        space (kernel_pm s2) s2 = fold (\<lambda>(v, p, f). page_set v (p OR f)) reqs (\<lambda>_. None) \<and>
        free_list s2 = take (length ?fs - tables_needed reqs) ?fs \<and> klog s2 = klog s1"
    unfolding s1(4,5) reqs_def by blast
  note built = v(8) [rule_format, OF fit(1), unfolded fit(2)]
  have "set (free_list s2) \<subseteq> set (usable_pages (placed i es))" using built by (auto simp: enough(1))
  then have "managers_up h root f (placed i es) (fold (\<lambda>(v, p, f). page_set v (p OR f)) reqs (\<lambda>_. None)) s2"
    using v(2-5,7) built s1(2) unfolding managers_up_def by (auto simp: vmm_ok_def)
  then show ?thesis using s1(1,7) v(1) built trans [OF v(6) V(7)] by (metis (no_types, lifting))
qed

text \<open>The sixteen frames at the top of the list become the first block.\<close>

lemma first_block:
  assumes up: "managers_up h root f es A s" and top: "unat h + unat f + 65536 < 2 ^ 64"
  shows "fst (liballoc_alloc 16 s) = f + h" "f + h \<noteq> 0" "aligned (f + h)" "unat (f + h) + 65536 < 2 ^ 64"
    "16 \<le> pm_stack_idx s" and "pgno y \<in> stack_region s \<Longrightarrow> 65536 \<le> unat (y - (f + h))"
    and "table_page s (root + h) y \<Longrightarrow> 65536 \<le> unat (y - (f + h))"
    and "(\<And>p. p \<in> set (usable_pages es) \<Longrightarrow> pgno y \<noteq> pgno (p + h)) \<Longrightarrow> 65536 \<le> unat (y - (f + h))"
proof -
  obtain ps where list: "free_list s = ps @ pages_from f 16" and tok: "tables_ok s (root + h)"
    and h: "hhdm_offset s = h" and sub: "set (free_list s) \<subseteq> set (usable_pages es)"
    using up unfolding managers_up_def by blast
  have "pmm_request_pages 16 s = (free_list s ! (length (free_list s) - unat (16 :: u64)), popped 16 s)"
    by (rule request_some) (simp_all add: list del: length_free_list)
  moreover have "free_list s ! (length (free_list s) - unat (16 :: u64)) = f"
    by (simp add: list nth_append pages_from_def del: length_free_list)
  ultimately show "fst (liballoc_alloc 16 s) = f + h" by (simp add: liballoc_alloc_def popped_def h)
  have "unat (pm_stack_idx s) = length ps + 16" using arg_cong [OF list, of length] by (simp add: pages_from_def)
  then show "16 \<le> pm_stack_idx s" by (simp add: word_le_nat_alt)
  have f: "f \<in> set (free_list s)" by (simp add: list pages_from_def image_iff) (auto intro: bexI [of _ 0])
  have "unat (f + h) = unat f + unat h" using top by (intro unat_add_small) simp
  then show "f + h \<noteq> 0" "aligned (f + h)" "unat (f + h) + 65536 < 2 ^ 64"
    using tables_okD(1) [OF tok] f top h by (auto simp: pmm_ok_def frame_ok_def aligned_add)
  note B = block_of_frames [OF tok list, unfolded h, of y, simplified]
  show "pgno y \<in> stack_region s \<Longrightarrow> 65536 \<le> unat (y - (f + h))" using B(1) by (meson not_le)
  show "table_page s (root + h) y \<Longrightarrow> 65536 \<le> unat (y - (f + h))" using B(2) by (meson not_le)
  have "set (pages_from f 16) \<subseteq> set (usable_pages es)" using sub by (simp add: list)
  then show "(\<And>p. p \<in> set (usable_pages es) \<Longrightarrow> pgno y \<noteq> pgno (p + h)) \<Longrightarrow> 65536 \<le> unat (y - (f + h))"
    using B(3) by (meson not_le subsetD)
qed

lemma start_memory_boots:
  fixes img :: kernel_image
  assumes answers: "memmap_response r = Some es" "hhdm_response r = Some h" "kernel_address_response r = Some (kv, kp)"
      "kv \<noteq> 0" "kp \<noteq> 0"
    and memory: "memory_suffices img kv kp h es i f root" and loaded: "just_loaded s"
    and buffer: "buffer_apart h (placed i es) s"
  shows "\<exists>a s'. start_memory cpuid img r s = Some (Hlt s') \<and> unat (a - (f + h)) < 65536 \<and>
    cr3 s' = root \<and> space (kernel_pm s') s' =
      fold (\<lambda>(v, p, f). page_set v (p OR f)) (boot_requests img kv kp h (placed i es)) (\<lambda>_. None) \<and>
    l_memRoot s' = 0 \<and> klog s' = [] \<and> heap_state.more s' = heap_state.more (shown (heap_text a) s)"
proof -
  let ?A = "fold (\<lambda>(v, p, f). page_set v (p OR f)) (boot_requests img kv kp h (placed i es)) (\<lambda>_. None)"
  have "pm_total_pages s = 0" "pm_stack_idx s = 0" "locked (map_lock s) = 0" and l0: "klog s = []"
    using loaded by (simp_all add: just_loaded_def)
  from managers_start [OF answers(4,5) memory this(1-3), of cpuid] obtain s1 s2 where s12: "pmm_init (Some es) h s = (0, s1)"
    "vmm_init cpuid img kv kp s1 = Some (0, s2)" "vmm_state.more s2 = vmm_state.more s" "klog s1 = []" "klog s2 = []"
    and up: "managers_up h root f (placed i es) ?A s2" unfolding l0 by blast
  note U = up [unfolded managers_up_def]
  have tok: "tables_ok s2 (root + h)" and h2: "hhdm_offset s2 = h" and pm: "kernel_pm s2 = \<lparr>pml4 = root + h\<rparr>" using U by simp_all
  note G = heap_globals [OF s12(3)] and C = console_globals [OF heap_globals(4) [OF s12(3)]]
  have hok: "heap_ok s2 []" and rd: "ready s2"
    using G C(1) loaded by (simp_all add: just_loaded_def heap_ok_def heap_inv_def root_of_def)
  have swf: "stack_wf s2" using tables_okD(1) [OF tok] by (simp add: pmm_ok_def)
  have "unat h + unat f + 65536 < 2 ^ 64" using memory by (simp add: memory_suffices_def)
  note F = first_block [OF up this]
  have "65536 \<le> unat (x - (f + h))" if "in_buffer s2 x" for x
    using F(8) [of x] that buffer unfolding buffer_apart_def C(2) by blast
  from try_heap_runs [OF hok swf rd s12(5) F(1-5) F(6) this] obtain a s3 where
    s3: "try_heap s2 = Some (Hlt s3)" "unat (a - (f + h)) < 65536" "heap_ok s3 []" "rest s3 = rest (shown (heap_text a) s2)"
    "\<And>x. \<lbrakk>65536 \<le> unat (x - (f + h)); \<not> in_buffer s2 x; pgno x \<notin> stack_region s2\<rbrakk> \<Longrightarrow> mem s3 x = mem s2 x"
    "klog s3 = []" by blast
  have fields: "cr3 s3 = cr3 s2" "kernel_pm s3 = kernel_pm s2" "hhdm_offset s3 = hhdm_offset s2"
    "heap_state.more s3 = heap_state.more (shown (heap_text a) s)"
    using s3(4) C(3) by (simp_all add: rest_def shown_def Let_def)
  have "mem s3 x = mem s2 x" if x: "table_page s2 (root + h) x" for x
  proof (rule s3(5))
    show "65536 \<le> unat (x - (f + h))" using F(7) x .
    show "\<not> in_buffer s2 x" using U x buffer unfolding buffer_apart_def C(2) by metis
    obtain t qs where "valid_path qs" "walk (mem s2) h (root + h) qs = Some t" "pgno x = pgno t"
      using x by (auto simp: table_page_def h2)
    then show "pgno x \<notin> stack_region s2" using tables_okD(2) [OF tok, unfolded h2] by (simp add: table_ok_def)
  qed
  from translation_mem_cong [OF tok this, unfolded h2]
  have "space (kernel_pm s3) s3 = space (kernel_pm s2) s2" by (simp add: space_def fields pm h2 fun_eq_iff)
  then have "space (kernel_pm s3) s3 = ?A" using U by metis
  moreover have "start_memory cpuid img r s = Some (Hlt s3)"
    using answers memory s12(1,2) s3(1) flush_nothing [OF s12(4)] flush_nothing [OF s12(5)]
    by (auto simp: start_memory_def start_vmm_def memory_suffices_def memmap_wf_def)
  moreover have "l_memRoot s3 = 0" using s3(3) by (simp add: heap_ok_def heap_inv_def root_of_def)
  moreover have "cr3 s3 = root" using U fields(1) by simp
  ultimately show ?thesis using s3(2,6) fields(4) by blast
qed

lemma just_loaded_banner:
  assumes "emitted t (with_tables isr_table s) s'"
  shows "just_loaded s' = just_loaded s" "in_buffer s' = in_buffer s"
    "heap_state.more (shown u s') = heap_state.more (shown (t @ u) (with_tables isr_table s))"
    "interrupts_on (shown (t @ u) (with_tables isr_table s))"
proof -
  let ?w = "with_tables isr_table s"
  have eq: "s' = (shown t ?w)\<lparr>mem := mem s'\<rparr>" using assms by (simp add: emitted_def)
  have "just_loaded s' = just_loaded ?w"
    by (subst eq) (simp add: just_loaded_def shown_def ready_def Let_def)
  moreover have "just_loaded ?w = just_loaded s"
    by (simp add: just_loaded_def with_tables_def gdt_init_def idt_init_def gdt_flush_def idt_load_def ready_def Let_def)
  ultimately show "just_loaded s' = just_loaded s" by simp
  have "in_buffer ?w = in_buffer s"
    by (simp add: in_buffer_def with_tables_def gdt_init_def idt_init_def gdt_flush_def idt_load_def Let_def fun_eq_iff)
  then show "in_buffer s' = in_buffer s" using emitted_fields(4) [OF assms] by simp
  show "heap_state.more (shown u s') = heap_state.more (shown (t @ u) ?w)"
    by (subst eq) (simp add: shown_mem shown_shown)
  show "interrupts_on (shown (t @ u) ?w)"
    by (simp add: shown_def with_tables_def gdt_init_def idt_init_def gdt_flush_def idt_load_def Let_def)
qed

text \<open>
  C4. When the loader answers everything and the memory suffices, the kernel boots: it loads the
  descriptor tables, prints the banner, starts both memory managers, allocates one byte, prints
  its address and value, frees it and halts with interrupts on. Exactly these texts have gone
  to the console; the address lies in the block of the sixteen frames from \<open>f\<close> on; CR3 holds the
  root table and the address space is that of the boot mappings, which neither the heap nor
  the console has disturbed; no block is left in the heap, and neither the managers nor the
  heap had anything to report.
\<close>

theorem olive_entry_boots:
  fixes img :: kernel_image
  assumes init: "flanterm_fb_init ft fb s = (ctx, s1)" "ctx \<noteq> 0"
    and s2: "s2 = full_refresh ft ctx (cursor_disable ft ctx (s1\<lparr>ft_ctx := ctx\<rparr>))" "just_loaded s2"
    and answers: "base_revision_supported r" "framebuffer_response r = Some (fb # fbs)" "memmap_response r = Some es"
      "hhdm_response r = Some h" "kernel_address_response r = Some (kv, kp)" "kv \<noteq> 0" "kp \<noteq> 0"
    and memory: "memory_suffices img kv kp h es i f root" and buffer: "buffer_apart h (placed i es) s2"
  shows "\<exists>a s'. olive_entry ft isr_table cpuid img ver r s = Some (Hlt s') \<and> interrupts_on s' \<and>
    unat (a - (f + h)) < 65536 \<and>
    heap_state.more s' = heap_state.more (shown (banner_text ver @ heap_text a) (with_tables isr_table s2)) \<and>
    cr3 s' = root \<and> space (kernel_pm s') s' =
      fold (\<lambda>(v, p, f). page_set v (p OR f)) (boot_requests img kv kp h (placed i es)) (\<lambda>_. None) \<and>
    l_memRoot s' = 0 \<and> klog s' = []"
proof -
  have "ready (with_tables isr_table s2)" using s2(2) by (simp add: just_loaded_def)
  from print_banner_emits [OF this] obtain s3 where
    s3: "print_banner (version_major ver) (version_minor ver) (version_patch ver) (with_tables isr_table s2) = Some s3"
      "emitted (banner_text ver) (with_tables isr_table s2) s3" by blast
  note J = just_loaded_banner [OF s3(2)]
  have entry: "olive_entry ft isr_table cpuid img ver r s = start_memory cpuid img r s3"
    using answers(1,2) init s2(1) s3(1) by (simp add: olive_entry_def Let_def start_tables_continue)
  have "just_loaded s3" "buffer_apart h (placed i es) s3"
    using s2(2) buffer by (simp_all add: J(1,2) buffer_apart_def)
  from start_memory_boots [OF answers(3-7) memory this, of cpuid] obtain a s' where
    s': "start_memory cpuid img r s3 = Some (Hlt s')" "unat (a - (f + h)) < 65536" "cr3 s' = root"
      "space (kernel_pm s') s' =
        fold (\<lambda>(v, p, f). page_set v (p OR f)) (boot_requests img kv kp h (placed i es)) (\<lambda>_. None)"
      "l_memRoot s' = 0" "klog s' = []" "heap_state.more s' = heap_state.more (shown (heap_text a) s3)" by blast
  let ?w = "shown (banner_text ver @ heap_text a) (with_tables isr_table s2)"
  have more: "heap_state.more s' = heap_state.more ?w" using s'(7) by (simp only: J(3))
  have "interrupts_on s' = interrupts_on ?w" using more by (cases s'; cases ?w) simp
  then show ?thesis using entry s' more J(4) by (intro exI [of _ a] exI [of _ s']) simp
qed

section \<open>A machine that boots\<close>

text \<open>
  One megabyte up, twenty-four usable frames: one for the stack, one for the root, six for
  tables (three for the window of the higher half, three for the kernel's one page), sixteen
  for the heap.
\<close>

definition boot_map :: "limine_memmap_entry list" where
  "boot_map = [\<lparr>entry_base = 0x100000, entry_length = 0x18000, entry_type = LIMINE_MEMMAP_USABLE\<rparr>]"

definition full_responses :: limine_responses where
  "full_responses = bare_responses\<lparr>memmap_response := Some boot_map,
     hhdm_response := Some 0xffff800000000000, kernel_address_response := Some (0xffffffff80000000, 0x200000)\<rparr>"

definition loaded_kernel :: cpu_state where
  "loaded_kernel = cpu_zero\<lparr>vfprintf_buffer := 0x8000\<rparr>"

lemma boot_map_stack: "stack_bytes boot_map = 0x1000"
  by (simp add: stack_bytes_def boot_map_def usable_def ALIGN_UP_def DIV_ROUND_UP_def PAGE_SIZE_def)

lemma boot_map_placed:
  "placed 0 boot_map = [\<lparr>entry_base = 0x100000, entry_length = 0x17000, entry_type = LIMINE_MEMMAP_USABLE\<rparr>]"
  by (simp add: placed_def boot_map_stack shrunk_def) (simp add: boot_map_def)

lemma boot_map_pages: "usable_pages (placed 0 boot_map) = [] @ pages_from 0x100000 16 @ pages_from 0x110000 6 @ [0x116000]"
proof -
  have "usable_pages (placed 0 boot_map) = pages_from 0x100000 23"
    by (simp add: boot_map_placed usable_def entry_pages_def)
  then show ?thesis by (simp add: pages_from_def upt_rec PAGE_SIZE_def)
qed

lemma boot_map_requests:
  "boot_requests demo_image 0xffffffff80000000 0x200000 0xffff800000000000 (placed 0 boot_map) =
     map (\<lambda>a. (a + 0xffff800000000000, a, PTE_BIT_PRESENT OR PTE_BIT_READ_WRITE)) (pages_from 0x100000 23) @
     [(0xffffffff80000000, 0x200000, PTE_BIT_PRESENT)]"
proof -
  have up: "ALIGN_UP 0xffffffff80000800 PAGE_SIZE = 0xffffffff80001000"
    "ALIGN_UP 0xffffffff80001000 PAGE_SIZE = 0xffffffff80001000"
    "ALIGN_UP 0xffffffff80002000 PAGE_SIZE = 0xffffffff80002000"
    "ALIGN_DOWN 0xffffffff80000000 PAGE_SIZE = 0xffffffff80000000"
    "ALIGN_DOWN 0xffffffff80001000 PAGE_SIZE = 0xffffffff80001000"
    "ALIGN_DOWN 0xffffffff80002000 PAGE_SIZE = 0xffffffff80002000"
    by (simp_all add: ALIGN_UP_def ALIGN_DOWN_def DIV_ROUND_UP_def PAGE_SIZE_def)
  have "loop_pages 0x100000 0x117000 = pages_from 0x100000 23" "loop_pages 0xffffffff80000000 0xffffffff80001000 = [0xffffffff80000000]"
    by (simp_all add: loop_pages_def loop_count_def) (simp add: pages_from_def)
  moreover have "loop_pages 0xffffffff80001000 0xffffffff80001000 = []" "loop_pages 0xffffffff80002000 0xffffffff80002000 = []"
    by (simp_all add: loop_pages_def loop_count_def pages_from_def)
  ultimately show ?thesis
    by (simp add: boot_requests_def entry_requests_def boot_map_placed demo_image_def section_requests_def up)
qed

lemma boot_map_tables:
  "tables_needed (boot_requests demo_image 0xffffffff80000000 0x200000 0xffff800000000000 (placed 0 boot_map)) = 6"
proof -
  have low: "table_prefixes (a + 0xffff800000000000) = [[256], [256, 0], [256, 0, 0]]"
    if "a \<in> set (pages_from 0x100000 23)" for a
    using that by (auto simp: pages_from_def upt_rec PAGE_SIZE_def table_prefixes_def table_index_def)
  have "set (pages_from 0x100000 23) \<noteq> {}" by (simp add: pages_from_def)
  then have "set (request_tables (map (\<lambda>a. (a + 0xffff800000000000, a, PTE_BIT_PRESENT OR PTE_BIT_READ_WRITE))
      (pages_from 0x100000 23))) = {[256], [256, 0], [256, 0, 0]}"
    by (auto simp: request_tables_def low)
  moreover have "table_prefixes 0xffffffff80000000 = [[511], [511, 510], [511, 510, 0]]"
    by (simp add: table_prefixes_def table_index_def)
  ultimately show ?thesis
    unfolding boot_map_requests by (simp add: tables_needed_card request_tables_def)
qed

lemma boot_map_suffices:
  "memory_suffices demo_image 0xffffffff80000000 0x200000 0xffff800000000000 boot_map 0 0x100000 0x116000"
  unfolding memory_suffices_def
proof (intro conjI exI)
  show "memmap_wf 0xffff800000000000 boot_map"
    by (simp add: memmap_wf_def boot_map_def entry_wf_def usable_def aligned_dvd)
  show "pm_find_room boot_map (stack_bytes boot_map) (length boot_map) = Some 0"
    unfolding boot_map_stack by (simp add: boot_map_def usable_def)
  show "list_all entry_ends (placed 0 boot_map)"
    by (simp add: boot_map_placed entry_ends_def loop_ends_def loop_count_def ALIGN_UP_def DIV_ROUND_UP_def PAGE_SIZE_def)
  show "usable_pages (placed 0 boot_map) = [] @ pages_from 0x100000 16 @ pages_from 0x110000 6 @ [0x116000]"
    by (rule boot_map_pages)
  show "length (pages_from 0x110000 6) =
      tables_needed (boot_requests demo_image 0xffffffff80000000 0x200000 0xffff800000000000 (placed 0 boot_map))"
    by (simp add: boot_map_tables)
qed simp

lemma loaded_kernel_buffer: "buffer_apart 0xffff800000000000 (placed 0 boot_map) (loaded_kernel\<lparr>ft_ctx := c\<rparr>)"
  unfolding buffer_apart_def
proof (intro allI impI ballI)
  fix x p assume x: "in_buffer (loaded_kernel\<lparr>ft_ctx := c\<rparr>) x" and p: "p \<in> set (usable_pages (placed 0 boot_map))"
  have "unat (x - 0x8000) < 4096" using x by (simp add: in_buffer_def loaded_kernel_def)
  then have "pgno x = pgno 0x8000" using pgno_offset [of "0x8000" "x - 0x8000"] by (simp add: aligned_dvd)
  moreover have "p + 0xffff800000000000 \<noteq> 0x8000" "aligned (p + 0xffff800000000000)"
    using p by (auto simp: boot_map_pages pages_from_def upt_rec PAGE_SIZE_def aligned_dvd)
  ultimately show "pgno x \<noteq> pgno (p + 0xffff800000000000)"
    using pgno_eq_iff [of "p + 0xffff800000000000" "0x8000"] by (auto simp: aligned_dvd)
qed

lemma olive_entry_boots_witness:
  "\<exists>a s'. olive_entry plain_terminal (\<lambda>_. 0) (\<lambda>_. (0x3030, 0, 0, 0)) demo_image first_version full_responses loaded_kernel =
      Some (Hlt s') \<and> unat (a - 0xffff800000100000) < 65536 \<and> cr3 s' = 0x116000 \<and> l_memRoot s' = 0 \<and>
    heap_state.more s' = heap_state.more (shown (banner_text first_version @ heap_text a)
      (with_tables (\<lambda>_. 0) (loaded_kernel\<lparr>ft_ctx := 0x7000\<rparr>)))"
proof -
  let ?fb = "hd (the (framebuffer_response bare_responses))"
  have tm: "flanterm_fb_init plain_terminal ?fb loaded_kernel = (0x7000, loaded_kernel)"
    "loaded_kernel\<lparr>ft_ctx := 0x7000\<rparr> =
      full_refresh plain_terminal 0x7000 (cursor_disable plain_terminal 0x7000 (loaded_kernel\<lparr>ft_ctx := 0x7000\<rparr>))"
    by (simp_all add: plain_terminal_def)
  have nz: "(0x7000 :: u64) \<noteq> 0" "(0xffffffff80000000 :: u64) \<noteq> 0" "(0x200000 :: u64) \<noteq> 0" by simp_all
  have loaded: "just_loaded (loaded_kernel\<lparr>ft_ctx := 0x7000\<rparr>)"
    by (simp add: just_loaded_def ready_def loaded_kernel_def cpu_zero_def con_zero_def con_state.extend_def cpu_state.fields_def SPINLOCK_INIT_def)
  have r: "base_revision_supported full_responses" "framebuffer_response full_responses = Some (?fb # [])"
    "memmap_response full_responses = Some boot_map" "hhdm_response full_responses = Some 0xffff800000000000"
    "kernel_address_response full_responses = Some (0xffffffff80000000, 0x200000)"
    by (simp_all add: full_responses_def bare_responses_def)
  from olive_entry_boots [OF tm(1) nz(1) tm(2) loaded r nz(2,3) boot_map_suffices loaded_kernel_buffer,
      of "\<lambda>_. 0" "\<lambda>_. (0x3030, 0, 0, 0)" first_version]
  show ?thesis by (elim exE conjE) (intro exI conjI, assumption+, simp_all)
qed

end
