(* ===== verification/MemoryRuns.thy ===== *)
theory MemoryRuns
  imports BootHeap
begin

text \<open>
  The memory managers together. The heap, the page tables and the stack of free pages live in
  one memory and feed each other with frames: blocks of the heap and page tables are made of
  frames that were free. A run interleaves the heap's client, mappings, unmappings and
  requests for frames; the pages of the three managers stay apart all the way.
\<close>

section \<open>Pages that stay apart\<close>

definition free_page :: "'a pmm_state_scheme \<Rightarrow> u64 \<Rightarrow> bool" where
  "free_page s y \<longleftrightarrow> (\<exists>q \<in> set (free_list s). pgno y = pgno (q + hhdm_offset s))"

text \<open>A change off the tables that takes frames from the top of the stack, or none.\<close>

lemma stack_same:
  assumes "stack_wf s" "pm_stack t = pm_stack s" "pm_stack_idx t \<le> pm_stack_idx s"
    and "\<And>x. pgno x \<in> stack_region s \<Longrightarrow> mem t x = mem s x"
  shows "free_list t = take (unat (pm_stack_idx t)) (free_list s)"
proof -
  have "free_list (s\<lparr>mem := mem t\<rparr>) = free_list s"
    using assms(1,4) by (intro free_list_mem_cong) (auto simp: stack_wf_def)
  moreover have "free_list t = take (unat (pm_stack_idx t)) (free_list (s\<lparr>mem := mem t\<rparr>))"
    using assms(2,3) by (simp add: free_list_def take_map word_le_nat_alt min_def)
  ultimately show ?thesis by simp
qed

lemma tables_same:
  assumes ok: "vmm_ok pm s" and g: "hhdm_offset t = hhdm_offset s" "stack_region t = stack_region s" "stack_wf t"
      "map_lock t = map_lock s"
    and fl: "free_list t = take k (free_list s)"
    and same: "\<And>x. table_page s (pml4 pm) x \<Longrightarrow> mem t x = mem s x"
  shows "vmm_ok pm t" "space pm t = space pm s" "table_page t (pml4 pm) = table_page s (pml4 pm)"
    "free_page t y \<Longrightarrow> free_page s y"
proof -
  have tok: "tables_ok s (pml4 pm)" using ok by (simp add: vmm_ok_def)
  have sub: "set (free_list t) \<subseteq> set (free_list s)" unfolding fl by (rule set_take_subset)
  then show "free_page t y \<Longrightarrow> free_page s y" by (auto simp: free_page_def g)
  note walk = walk_mem_cong [OF tok same]
  have "frame_ok t = frame_ok s" by (simp add: frame_ok_def g(1,2) fun_eq_iff)
  moreover have pok: "pmm_ok s" by (rule tables_okD(1) [OF tok])
  ultimately have "pmm_ok t"
    using sub g(1,3) by (auto simp: pmm_ok_def fl)
  moreover have "table_ok t u" if "table_ok s u" for u
    using that sub by (auto simp: table_ok_def g)
  ultimately show "vmm_ok pm t"
    using ok walk tables_okD(2,3) [OF tok] by (simp add: vmm_ok_def tables_ok_def g(1,4))
  show "space pm t = space pm s"
    using translation_mem_cong [OF tok same] by (simp add: space_def g(1) fun_eq_iff)
  show "table_page t (pml4 pm) = table_page s (pml4 pm)"
    using walk by (auto simp: table_page_def g(1) fun_eq_iff)
qed

text \<open>A change off the blocks leaves the client's view.\<close>

lemma client_frame:
  assumes inv: "client_inv s rs P C" and same: "\<And>x. \<not> outside_all rs x \<Longrightarrow> mem t x = mem s x"
    and glob: "l_memRoot t = l_memRoot s" "l_bestBet t = l_bestBet s" "liballoc_lock_var t = liballoc_lock_var s"
    and stack: "stack_wf t" "stack_region t = stack_region s"
  shows "client_inv t rs P C"
proof -
  have ok: "heap_ok s rs" using inv by (simp add: client_inv_def)
  note H = heap_ok_cong [OF ok same glob]
  have ch: "chained (mem s) 0 rs 0" using ok by (simp add: heap_ok_def heap_inv_def)
  have "mem t (bptr B b + 40 + of_nat j) = mem s (bptr B b + 40 + of_nat j)"
    if b: "(B, b) \<in> live rs" "j < snd b" for B b j
  proof -
    obtain hi bs where r: "(B, hi, bs) \<in> set rs" "b \<in> set bs" using live_region [OF b(1)] by blast
    have rok: "region_ok (mem s) (B, hi, bs)" by (rule chained_region [OF ch r(1)])
    have "mem t (B + of_nat i) = mem s (B + of_nat i)" if "i < hi" for i
    proof (rule same)
      have "hi < 2 ^ 32" using rok by (simp add: region_ok_def block_def)
      then have "unat (B + of_nat i - B) = i" using that by (simp add: unat_of_nat_small)
      then show "\<not> outside_all rs (B + of_nat i)" using r(1) that by (auto simp: outside_all_def intro!: bexI [OF _ r(1)])
    qed
    then show ?thesis using region_cong(4) [OF rok, of "mem t"] r(2) b(2) by simp
  qed
  then have "preserved (mem s) (mem t) (live rs \<inter> live rs)" unfolding preserved_def by auto
  moreover have "\<exists>p n. P p = Some n \<and> unat (a - p) < n" if "C a = Some v" for a v
    using inv that unfolding client_inv_def by blast
  moreover have "outside_all rs y" if "pgno y \<in> stack_region t" for y
    using inv that stack(2) by (simp add: client_inv_def)
  ultimately show ?thesis
    by (intro client_carry [OF inv H(1) stack(1)]) (simp_all add: map_le_def)
qed

section \<open>Runs\<close>

text \<open>
  When no block has room, the heap takes the pages on top of the stack and uses them as one
  block; the code relies on their being frames in a row. Handing a block back breaks this run
  (\<open>kfree_last_returns_block\<close> in \<open>HeapLife\<close>: virtual addresses come onto the stack), so a
  pointer is freed here while another one of its block is held.
\<close>

definition row_on_top :: "'a pmm_state_scheme \<Rightarrow> u32 \<Rightarrow> bool" where
  "row_on_top s n \<longleftrightarrow>
     (\<exists>ps f. free_list s = ps @ pages_from f (unat n) \<and> unat (f + hhdm_offset s) + 4096 * unat n < 2 ^ 64)"

inductive memory_run ::
  "pagemap_t \<Rightarrow> 'a heap_state_scheme \<Rightarrow> (u64 \<rightharpoonup> nat) \<Rightarrow> (u64 \<rightharpoonup> u8) \<Rightarrow> (u64 \<Rightarrow> u64 option) \<Rightarrow> bool"
  for pm :: pagemap_t
where
  start: "\<lbrakk>heap_ok s []; vmm_ok pm s; klog s = []\<rbrakk> \<Longrightarrow> memory_run pm s Map.empty Map.empty (space pm s)"
| malloc: "\<lbrakk>memory_run pm s P C A; unat req + 4207 < 2 ^ 32;
      \<And>rs. heap_ok s rs \<Longrightarrow> some_fits rs req \<or> row_on_top s (request_pages req);
      kmalloc req s = Some (p, s')\<rbrakk> \<Longrightarrow>
    memory_run pm s' (P(p \<mapsto> unat req)) C A"
| free: "\<lbrakk>memory_run pm s P C A; P p = Some n; q \<in> dom P - {p}; block_of s q = block_of s p;
      kfree p s = Some (Ret () s')\<rbrakk> \<Longrightarrow>
    memory_run pm s' (P(p := None)) (C |` {a. n \<le> unat (a - p)}) A"
| store: "\<lbrakk>memory_run pm s P C A; P p = Some n; i < n\<rbrakk> \<Longrightarrow>
    memory_run pm (s\<lparr>mem := st8 (p + of_nat i) v (mem s)\<rparr>) P (C(p + of_nat i \<mapsto> v)) A"
| map: "\<lbrakk>memory_run pm s P C A; vmm_map pm v p f s = Some s'\<rbrakk> \<Longrightarrow>
    memory_run pm s' P C (if missing_tables pm v s \<le> length (free_list s) then page_set v (p OR f) A else A)"
| unmap: "\<lbrakk>memory_run pm s P C A; vmm_unmap pm v False s = Some (Ret r s')\<rbrakk> \<Longrightarrow>
    memory_run pm s' P C (page_cleared v A)"
| frames: "\<lbrakk>memory_run pm s P C A; pmm_request_pages k s = (q, s')\<rbrakk> \<Longrightarrow> memory_run pm s' P C A"

definition memory_inv ::
  "pagemap_t \<Rightarrow> 'a heap_state_scheme \<Rightarrow> region list \<Rightarrow> (u64 \<rightharpoonup> nat) \<Rightarrow> (u64 \<rightharpoonup> u8) \<Rightarrow> (u64 \<Rightarrow> u64 option) \<Rightarrow> bool"
where
  "memory_inv pm s rs P C A \<longleftrightarrow>
     client_inv s rs P C \<and> vmm_ok pm s \<and> space pm s = A \<and>
     (\<forall>y. table_page s (pml4 pm) y \<or> free_page s y \<longrightarrow> outside_all rs y)"

lemma memory_invD:
  assumes "memory_inv pm s rs P C A"
  shows "client_inv s rs P C" "vmm_ok pm s" "space pm s = A" "heap_ok s rs" "stack_wf s" "tables_ok s (pml4 pm)"
    "table_page s (pml4 pm) y \<Longrightarrow> outside_all rs y" "free_page s y \<Longrightarrow> outside_all rs y"
    "pgno y \<in> stack_region s \<Longrightarrow> outside_all rs y"
  using assms by (simp_all add: memory_inv_def client_inv_def vmm_ok_def)

lemma memory_inv_left:
  assumes "memory_inv pm s rs P C A" "q \<in> set (take k (free_list s))" "pgno y = pgno (q + hhdm_offset s)"
  shows "outside_all rs y"
  using memory_invD(8) [OF assms(1)] in_set_takeD [OF assms(2)] assms(3) unfolding free_page_def by blast

text \<open>A step of the heap: memory changes inside the blocks only.\<close>

lemma heap_step:
  assumes inv: "memory_inv pm s rs P C A" and cl: "client_inv t rs' P' C'"
    and rest: "rest t = rest s" and stk: "same_stack s t"
    and out: "\<And>y. table_page s (pml4 pm) y \<or> pgno y \<in> stack_region s \<Longrightarrow> outside_all rs' y"
    and left: "\<And>q y. \<lbrakk>q \<in> set (take (unat (pm_stack_idx t)) (free_list s)); pgno y = pgno (q + hhdm_offset s)\<rbrakk> \<Longrightarrow>
      outside_all rs' y"
    and same: "\<And>y. outside_all rs' y \<Longrightarrow> mem t y = mem s y"
  shows "memory_inv pm t rs' P' C' A"
proof -
  note I = memory_invD [OF inv]
  have g: "hhdm_offset t = hhdm_offset s" "map_lock t = map_lock s" using rest by (simp_all add: rest_def)
  note W = same_stack_wf [OF stk]
  have fl: "free_list t = take (unat (pm_stack_idx t)) (free_list s)"
    using stk out same by (intro stack_same I(5)) (auto simp: same_stack_def)
  have "table_page s (pml4 pm) x \<Longrightarrow> mem t x = mem s x" for x using out same by blast
  note T = tables_same [OF I(2) g(1) W(2) W(1) [OF I(5)] g(2) fl this]
  have "outside_all rs' y" if "free_page t y" for y
    using that left unfolding free_page_def fl g(1) by blast
  then show ?thesis using cl T(1-3) out I(3) by (simp add: memory_inv_def)
qed

section \<open>A block from the row on top\<close>

lemma request_pages_bounds:
  assumes "unat req + 4207 < 2 ^ 32"
  shows "16 \<le> unat (request_pages req)" "4096 * unat (request_pages req) < 2 ^ 32" "unat (request_pages req) < 2 ^ 31"
proof -
  have sz: "unat (req + 32) = unat req + 32" using assms by (simp add: unat_word_ariths)
  have "unat (ucast (req + 32) :: u32) = unat (req + 32)" using assms sz by (intro ucast_small) simp
  then have "unat (ucast (req + 32) :: u32) + 4175 < 2 ^ 32" using assms sz by simp
  from page_count_spec(2-4) [OF this] show "16 \<le> unat (request_pages req)" "4096 * unat (request_pages req) < 2 ^ 32"
    "unat (request_pages req) < 2 ^ 31"
    by (simp_all only: request_pages_def)
qed

lemma row_block:
  assumes inv: "memory_inv pm s rs P C A" and n: "0 < unat n" "4096 * unat n < 2 ^ 32" "unat n < 2 ^ 31"
    and row: "row_on_top s n"
  obtains q where "fst (liballoc_alloc n s) = q" "q \<noteq> 0" "supplies s rs n"
    "\<And>y. table_page s (pml4 pm) y \<or> pgno y \<in> stack_region s \<Longrightarrow> 4096 * unat n \<le> unat (y - q)"
    "\<And>p y. \<lbrakk>p \<in> set (take (unat (supply_idx s n)) (free_list s)); pgno y = pgno (p + hhdm_offset s)\<rbrakk> \<Longrightarrow>
      4096 * unat n \<le> unat (y - q)"
proof -
  note I = memory_invD [OF inv]
  obtain ps f where list: "free_list s = ps @ pages_from f (unat n)"
    and top: "unat (f + hhdm_offset s) + 4096 * unat n < 2 ^ 64" using row unfolding row_on_top_def by blast
  have pok: "pmm_ok s" by (rule tables_okD(1) [OF I(6)])
  have f: "f \<in> set (free_list s)" using n(1) by (simp add: list pages_from_def image_iff) (auto intro: bexI [of _ 0])
  then have fok: "f + hhdm_offset s \<noteq> 0" "aligned (f + hhdm_offset s)"
    using pok by (auto simp: pmm_ok_def frame_ok_def aligned_add)
  let ?q = "f + hhdm_offset s" and ?n = "ucast n :: u64"
  have sn: "scast n = ?n" by (rule scast_small [OF n(3)])
  have un: "unat ?n = unat n" by (rule unat_index(1))
  have len: "unat (pm_stack_idx s) = length ps + unat n" using arg_cong [OF list, of length] by simp
  have "pmm_request_pages ?n s = (free_list s ! (length (free_list s) - unat ?n), popped ?n s)"
    using n(1) len un by (intro request_some) simp_all
  moreover have "free_list s ! (length (free_list s) - unat ?n) = f"
    using n(1) unfolding un by (simp add: list nth_append pages_from_def del: length_free_list)
  ultimately have q: "fst (liballoc_alloc n s) = ?q" by (simp add: liballoc_alloc_def sn popped_def)
  have le: "?n \<le> pm_stack_idx s" "?n \<noteq> 0" using len un n(1) by (auto simp: word_le_nat_alt)
  then have idx: "supply_idx s n = pm_stack_idx s - ?n" by (simp add: supply_idx_def supply_log_def sn)
  have ps: "take (unat (supply_idx s n)) (free_list s) = ps"
    unfolding idx using le(1) len un by (simp add: unat_sub list)
  have small: "unat n \<le> 2 ^ 40" using n(3) by simp
  note B = block_of_frames [OF I(6) list small]
  have inside: "free_page s y" if "unat (y - ?q) < 4096 * unat n" for y
    using B(3) [OF that] by (auto simp: free_page_def list)
  have "region_disj (?q, 4096 * unat n, []) r" if r: "r \<in> set rs" for r
  proof -
    have "40 \<le> rsize r"
      using chained_region [OF _ r, of "mem s" 0 0] I(4) region_nonempty by (auto simp: heap_ok_def heap_inv_def)
    then have "\<not> outside_all rs (rbase r)" using r by (auto simp: outside_all_def intro!: bexI [OF _ r])
    then have "\<not> free_page s (rbase r)" using I(8) by blast
    then have "4096 * unat n \<le> unat (rbase r - ?q)" using inside [of "rbase r"] by (meson not_le)
    moreover have "free_page s ?q" using f by (auto simp: free_page_def)
    then have "rsize r \<le> unat (?q - rbase r)" using I(8) r by (auto simp: outside_all_def)
    ultimately show ?thesis by (simp add: region_disj_def disj_def)
  qed
  then have "supplies s rs n" using q fok top by (simp add: supplies_def)
  moreover have "4096 * unat n \<le> unat (y - ?q)" if "table_page s (pml4 pm) y \<or> pgno y \<in> stack_region s" for y
    using B(1,2) [of y] that by (meson not_le)
  moreover have "4096 * unat n \<le> unat (y - ?q)" if p: "p \<in> set ps" "pgno y = pgno (p + hhdm_offset s)" for p y
  proof (rule ccontr)
    assume "\<not> 4096 * unat n \<le> unat (y - ?q)"
    then obtain p' where p': "p' \<in> set (pages_from f (unat n))" "pgno y = pgno (p' + hhdm_offset s)"
      using B(3) [of y] by (auto simp: not_le)
    have "p \<in> set (free_list s)" "p' \<in> set (free_list s)" using p(1) p'(1) by (simp_all add: list)
    then have "aligned (p + hhdm_offset s)" "aligned (p' + hhdm_offset s)"
      using pok by (auto simp: pmm_ok_def frame_ok_def aligned_add)
    then have "p = p'" using p(2) p'(2) pgno_eq_iff by (metis add_right_cancel)
    then show False using p(1) p'(1) pok by (auto simp: pmm_ok_def list)
  qed
  ultimately show thesis using that [of ?q] q fok(1) by (simp add: ps)
qed

section \<open>The steps keep the invariant\<close>

lemma held_inside:
  assumes inv: "client_inv s rs P C" and p: "P p = Some n" "i < n"
  shows "\<not> outside_all rs (p + of_nat i)"
proof -
  obtain B b where b: "(B, b) \<in> live rs" "snd b = n + 32" "serves (mem s) B b n p"
    using inv p(1) unfolding client_inv_def holds_def by blast
  obtain hi bs where r: "(B, hi, bs) \<in> set rs" "b \<in> set bs" using live_region [OF b(1)] by blast
  have "region_ok (mem s) (B, hi, bs)"
    using inv chained_region [OF _ r(1)] unfolding client_inv_def heap_ok_def heap_inv_def by blast
  then have blk: "block (mem s) B hi bs" by (simp add: region_ok_def)
  obtain k where k: "k \<le> 31" "p = bptr B b + 40 + of_nat k" using b(3) unfolding serves_def by blast
  have lt: "fst b + 40 + k + i < hi" using bptr_unat(4) [OF blk r(2)] k(1) p(2) b(2) by simp
  have eq: "p + of_nat i - B = of_nat (fst b + 40 + k + i)" by (simp add: k(2) bptr_def)
  have "hi < 2 ^ 32" using blk by (simp add: block_def)
  then have "unat (p + of_nat i - B) = fst b + 40 + k + i" unfolding eq using lt by (intro unat_of_nat_small) simp
  then show ?thesis using lt r(1) by (auto simp: outside_all_def intro!: bexI [OF _ r(1)])
qed

lemma malloc_memory:
  assumes inv: "memory_inv pm s rs P C A" and req: "unat req + 4207 < 2 ^ 32"
    and row: "some_fits rs req \<or> row_on_top s (request_pages req)"
  shows "\<exists>p s' rs'. kmalloc req s = Some (p, s') \<and> p \<notin> dom P \<and> p \<noteq> 0 \<and>
    memory_inv pm s' rs' (P(p \<mapsto> unat req)) C A \<and> set (klog s') \<subseteq> set (klog s) \<union> supply_lines"
proof -
  note I = memory_invD [OF inv]
  note N = request_pages_bounds [OF req]
  let ?n = "request_pages req"
  have n: "0 < unat ?n" using N(1) by simp
  have ext: "outside_all rs' y"
    if new: "added (chosen s rs req) rs B x rs'" "outside_all rs y" "\<not> some_fits rs req \<Longrightarrow> 4096 * unat ?n \<le> unat (y - fst (liballoc_alloc ?n s))"
    for rs' B x y
  proof (cases "some_fits rs req")
    case True
    then obtain as hi us ws cs where "rs = as @ (B, hi, us @ ws) # cs" "rs' = as @ (B, hi, us @ x # ws) # cs"
      using new(1) by (auto simp: chosen_def)
    then show ?thesis using new(2) by (simp add: outside_all_def)
  qed (use new in \<open>simp add: chosen_def new_block_def outside_all_def\<close>)
  have sup: "supplied s rs req" and nonzero: "some_fits rs req \<or> fst (liballoc_alloc ?n s) \<noteq> 0"
    and far: "\<And>y. \<lbrakk>\<not> some_fits rs req; table_page s (pml4 pm) y \<or> pgno y \<in> stack_region s\<rbrakk> \<Longrightarrow>
      4096 * unat ?n \<le> unat (y - fst (liballoc_alloc ?n s))"
    and left: "\<And>q y. \<lbrakk>\<not> some_fits rs req; q \<in> set (take (unat (supply_idx s ?n)) (free_list s)); pgno y = pgno (q + hhdm_offset s)\<rbrakk> \<Longrightarrow>
      4096 * unat ?n \<le> unat (y - fst (liballoc_alloc ?n s))"
    by (cases "some_fits rs req"; use row in \<open>auto simp: supplied_def new_block_def elim!: row_block [OF inv n N(2,3)]\<close>)+
  obtain p s' where k: "kmalloc req s = Some (p, s')" "p \<noteq> 0" "p \<notin> dom P" "same_stack s s'"
      "set (klog s') \<subseteq> set (klog s) \<union> supply_lines"
    and R: "\<exists>rs' B off. client_inv s' rs' (P(p \<mapsto> unat req)) C \<and> added (chosen s rs req) rs B (off, unat req + 32) rs' \<and>
       (\<forall>x. outside_all rs' x \<longrightarrow> mem s' x = mem s x) \<and>
       pm_stack_idx s' = (if some_fits rs req then pm_stack_idx s else supply_idx s ?n)"
  proof -
    from kmalloc_client [OF I(1) req sup] nonzero obtain p s' where K: "kmalloc req s = Some (p, s')" "p \<noteq> 0"
      "same_stack s s'" "set (klog s') \<subseteq> set (klog s) \<union> supply_lines"
      "p \<notin> dom P \<and> (\<exists>rs' B off. client_inv s' rs' (P(p \<mapsto> unat req)) C \<and>
       (account_inv s rs P \<longrightarrow> account_inv s' rs' (P(p \<mapsto> unat req))) \<and>
       added (chosen s rs req) rs B (off, unat req + 32) rs' \<and>
       (\<forall>x. outside_all rs' x \<longrightarrow> mem s' x = mem s x) \<and>
       pm_stack_idx s' = (if some_fits rs req then pm_stack_idx s else supply_idx s ?n))"
      by metis
    then show thesis by (intro that [of p s']) blast+
  qed
  obtain rs' B off where r: "client_inv s' rs' (P(p \<mapsto> unat req)) C" "added (chosen s rs req) rs B (off, unat req + 32) rs'"
      "\<And>x. outside_all rs' x \<Longrightarrow> mem s' x = mem s x"
      "pm_stack_idx s' = (if some_fits rs req then pm_stack_idx s else supply_idx s ?n)"
    using R by blast
  have "memory_inv pm s' rs' (P(p \<mapsto> unat req)) C A"
  proof (rule heap_step [OF inv r(1) kmalloc_rest [OF k(1)] k(4)])
    show "mem s' y = mem s y" if "outside_all rs' y" for y by (rule r(3) [OF that])
    show "outside_all rs' y" if "table_page s (pml4 pm) y \<or> pgno y \<in> stack_region s" for y
      using that I(7,9) far [OF _ that] by (intro ext [OF r(2)]) blast+
    show "outside_all rs' y" if q: "q \<in> set (take (unat (pm_stack_idx s')) (free_list s))" "pgno y = pgno (q + hhdm_offset s)" for q y
    proof (rule ext [OF r(2)])
      show "outside_all rs y" by (rule memory_inv_left [OF inv q])
      show "4096 * unat ?n \<le> unat (y - fst (liballoc_alloc ?n s))" if "\<not> some_fits rs req"
        using left [OF that _ q(2)] q(1) r(4) that by simp
    qed
  qed
  with k show ?thesis by blast
qed

lemma free_memory:
  assumes inv: "memory_inv pm s rs P C A" and p: "P p = Some n" and q: "q \<in> dom P - {p}" "block_of s q = block_of s p"
  shows "\<exists>s' rs'. kfree p s = Some (Ret () s') \<and> memory_inv pm s' rs' (P(p := None)) (C |` {a. n \<le> unat (a - p)}) A \<and>
    set (klog s') \<subseteq> set (klog s) \<union> supply_lines"
proof -
  note I = memory_invD [OF inv]
  obtain s' rs' where f: "kfree p s = Some (Ret () s')" "client_inv s' rs' (P(p := None)) (C |` {a. n \<le> unat (a - p)})"
    "set (klog s') \<subseteq> set (klog s) \<union> supply_lines" "same_stack s s'" "pm_stack_idx s' = pm_stack_idx s"
    "outside_all rs' = outside_all rs" "\<And>y. outside_all rs y \<Longrightarrow> mem s' y = mem s y"
    using kfree_client [OF I(1) p] q by blast
  have "memory_inv pm s' rs' (P(p := None)) (C |` {a. n \<le> unat (a - p)}) A"
  proof (rule heap_step [OF inv f(2) kfree_rest [OF f(1)] f(4)])
    show "outside_all rs' y" if "table_page s (pml4 pm) y \<or> pgno y \<in> stack_region s" for y
      using that I(7,9) f(6) by auto
    show "outside_all rs' y" if "q \<in> set (take (unat (pm_stack_idx s')) (free_list s))" "pgno y = pgno (q + hhdm_offset s)" for q y
      using memory_inv_left [OF inv that] f(6) by simp
  qed (use f(6,7) in auto)
  with f(1,3) show ?thesis by blast
qed

lemma store_memory:
  assumes inv: "memory_inv pm s rs P C A" and p: "P p = Some n" "i < n"
  shows "memory_inv pm (s\<lparr>mem := st8 (p + of_nat i) v (mem s)\<rparr>) rs P (C(p + of_nat i \<mapsto> v)) A"
proof -
  note I = memory_invD [OF inv]
  have cl: "client_inv (s\<lparr>mem := st8 (p + of_nat i) v (mem s)\<rparr>) rs P (C(p + of_nat i \<mapsto> v))"
    using store_client [OF I(1) p] by blast
  have "\<not> outside_all rs (p + of_nat i)"
    using held_inside [OF I(1) p] .
  then have "st8 (p + of_nat i) v (mem s) y = mem s y" if "outside_all rs y" for y
    using that by (auto simp: st8_apply)
  moreover have "outside_all rs y" if "q \<in> set (free_list s)" "pgno y = pgno (q + hhdm_offset s)" for q y
    by (rule I(8)) (use that in \<open>auto simp: free_page_def\<close>)
  ultimately show ?thesis
    using I(7,9) by (intro heap_step [OF inv cl]) (auto simp: same_stack_def)
qed

text \<open>A step of the other managers: memory changes in tables only, frames leave the stack only.\<close>

lemma vmm_step:
  assumes inv: "memory_inv pm s rs P C A" and ok: "vmm_ok pm t" and g: "same_globals s t"
    and tables: "\<And>x. table_page t (pml4 pm) x \<Longrightarrow> table_page s (pml4 pm) x \<or> free_page s x"
    and fl: "set (free_list t) \<subseteq> set (free_list s)"
    and same: "\<And>x. \<not> table_page t (pml4 pm) x \<Longrightarrow> mem t x = mem s x"
  shows "memory_inv pm t rs P C (space pm t)"
proof -
  note I = memory_invD [OF inv]
  note G = g [unfolded same_globals_def] and H = heap_globals [of t s]
  have out: "outside_all rs x" if "table_page t (pml4 pm) x \<or> free_page t x" for x
    using that tables [of x] fl G I(7,8) by (auto simp: free_page_def)
  have "client_inv t rs P C"
    using ok G H same out by (intro client_frame [OF I(1)]) (auto simp: vmm_ok_def tables_ok_def pmm_ok_def)
  then show ?thesis using ok out by (simp add: memory_inv_def)
qed

lemma map_memory:
  assumes inv: "memory_inv pm s rs P C A"
  shows "\<exists>s'. vmm_map pm v p f s = Some s' \<and>
    memory_inv pm s' rs P C (if missing_tables pm v s \<le> length (free_list s) then page_set v (p OR f) A else A) \<and>
    set (klog s') \<subseteq> set (klog s) \<union> set map_failure"
proof -
  note I = memory_invD [OF inv]
  obtain s' where s': "vmm_map pm v p f s = Some s'" "extended pm s s'"
    "space pm s' = (if missing_tables pm v s \<le> length (free_list s) then page_set v (p OR f) A else A)"
    "klog s' = klog s \<or> klog s' = klog s @ map_failure"
    using vmm_map_outcome [OF I(2), of v p f] I(3) by (auto split: if_splits)
  have "memory_inv pm s' rs P C (space pm s')"
    using extendedD [OF s'(2)] by (intro vmm_step [OF inv]) (auto simp: free_page_def)
  with s' show ?thesis by auto
qed

lemma unmap_memory:
  assumes inv: "memory_inv pm s rs P C A"
  shows "\<exists>r s'. vmm_unmap pm v False s = Some (Ret r s') \<and> memory_inv pm s' rs P C (page_cleared v A) \<and> klog s' = klog s"
proof -
  note I = memory_invD [OF inv]
  show ?thesis
  proof (cases "walk (mem s) (hhdm_offset s) (pml4 pm) (table_path v)")
    case None
    note V = vmm_unmap_absent [OF I(2) None]
    have "page_cleared v (space pm s) = space pm s"
      using V(2) translation_same_page by (auto simp: page_cleared_def space_def fun_eq_iff)
    then have "page_cleared v A = A" by (simp only: I(3))
    then show ?thesis using inv V(1) [of False] by (intro exI [of _ False] exI [of _ s]) simp
  next
    case (Some pt)
    note U = unmapped_spec [OF I(2) Some]
    have pages: "table_page (unmapped pt v s) (pml4 pm) = table_page s (pml4 pm)"
      using leaf_written(4) [OF I(6) Some] by (simp add: unmapped_def tlb_flush_def)
    have "memory_inv pm (unmapped pt v s) rs P C (space pm (unmapped pt v s))"
      using U(4,6) by (intro vmm_step [OF inv U(1,2)]) (simp_all add: pages)
    moreover have "klog (unmapped pt v s) = klog s" by (simp add: unmapped_def tlb_flush_def)
    ultimately show ?thesis using vmm_unmap_present(1) [OF I(2) Some] U(3) I(3) by auto
  qed
qed

lemma frames_memory:
  assumes inv: "memory_inv pm s rs P C A" and r: "pmm_request_pages k s = (q, t)"
  shows "memory_inv pm t rs P C A"
proof -
  note I = memory_invD [OF inv]
  have "client_inv t rs P C" using frames_client [OF I(1) r] by blast
  then show ?thesis
    using I(7,9) memory_inv_left [OF inv] request_heap_fields(1) [OF r]
    by (intro heap_step [OF inv _ request_rest [OF r] request_same_stack [OF r]]) auto
qed

lemma memory_run_inv:
  "memory_run pm s P C A \<Longrightarrow> \<exists>rs. memory_inv pm s rs P C A \<and> set (klog s) \<subseteq> supply_lines \<union> set map_failure"
proof (induction rule: memory_run.induct)
  case (start s)
  then show ?case
    by (intro exI [of _ "[]"])
      (simp add: memory_inv_def client_inv_def outside_all_def vmm_ok_def tables_ok_def pmm_ok_def)
next
  case (malloc s P C A req p s')
  then obtain rs where rs: "memory_inv pm s rs P C A" "set (klog s) \<subseteq> supply_lines \<union> set map_failure" by blast
  from malloc_memory [OF rs(1) malloc.hyps(2) malloc.hyps(3) [OF memory_invD(4) [OF rs(1)]]] malloc.hyps(4) rs(2)
  show ?case by (auto simp del: fun_upd_apply)
next
  case (free s P C A p n q s')
  then obtain rs where rs: "memory_inv pm s rs P C A" "set (klog s) \<subseteq> supply_lines \<union> set map_failure" by blast
  from free_memory [OF rs(1) free.hyps(2-4)] free.hyps(5) rs(2) show ?case by (auto simp del: fun_upd_apply)
next
  case (store s P C A p n i v)
  then obtain rs where rs: "memory_inv pm s rs P C A" "set (klog s) \<subseteq> supply_lines \<union> set map_failure" by blast
  from store_memory [OF rs(1) store.hyps(2,3), of v] rs(2) show ?case by (intro exI [of _ rs]) (simp del: fun_upd_apply)
next
  case (map s P C A v p f s')
  then obtain rs where rs: "memory_inv pm s rs P C A" "set (klog s) \<subseteq> supply_lines \<union> set map_failure" by blast
  from map_memory [OF rs(1), of v p f] map.hyps(2) rs(2) show ?case by auto
next
  case (unmap s P C A v r s')
  then obtain rs where rs: "memory_inv pm s rs P C A" "set (klog s) \<subseteq> supply_lines \<union> set map_failure" by blast
  from unmap_memory [OF rs(1), of v] unmap.hyps(2) rs(2) show ?case by auto
next
  case (frames s P C A k q s')
  then obtain rs where rs: "memory_inv pm s rs P C A" "set (klog s) \<subseteq> supply_lines \<union> set map_failure" by blast
  have "set (klog s') \<subseteq> set (klog s) \<union> supply_lines"
    using frames.hyps(2) by (auto simp: pmm_request_pages_def supply_lines_def Let_def split: if_splits)
  with frames_memory [OF rs(1) frames.hyps(2)] rs(2) show ?case by blast
qed

section \<open>What everyone can rely on\<close>


text \<open>
  The witness starts where the memory managers of a booting machine leave off: sixteen frames in
  a row on top of the stack, and the boot mappings.
\<close>

lemma booted_managers:
  "\<exists>(s :: cpu_state) pm ps. heap_ok s [] \<and> vmm_ok pm s \<and> klog s = [] \<and> free_list s = ps @ pages_from 0x100000 16 \<and>
     hhdm_offset s = 0xffff800000000000"
proof -
  have nz: "(0xffffffff80000000 :: u64) \<noteq> 0" "(0x200000 :: u64) \<noteq> 0" by simp_all
  have "pm_total_pages loaded_kernel = 0" "pm_stack_idx loaded_kernel = 0" "locked (map_lock loaded_kernel) = 0"
    and z: "klog loaded_kernel = []" "locked (liballoc_lock_var loaded_kernel) = 0" "l_memRoot loaded_kernel = 0"
      "l_bestBet loaded_kernel = 0"
    by (simp_all add: loaded_kernel_def cpu_zero_def con_zero_def con_state.extend_def cpu_state.fields_def SPINLOCK_INIT_def)
  from managers_start [OF nz boot_map_suffices this(1-3), of "\<lambda>_. (0x3030, 0, 0, 0)"] obtain s where
    s: "vmm_state.more s = vmm_state.more loaded_kernel" "klog s = klog loaded_kernel"
    and up: "managers_up 0xffff800000000000 0x116000 0x100000 (placed 0 boot_map)
      (fold (\<lambda>(v, p, f). page_set v (p OR f))
        (boot_requests demo_image 0xffffffff80000000 0x200000 0xffff800000000000 (placed 0 boot_map)) (\<lambda>_. None)) s"
    by blast
  note G = heap_globals [OF s(1)]
  have "heap_ok s []" using G z by (simp add: heap_ok_def heap_inv_def root_of_def)
  moreover have "vmm_ok (kernel_pm s) s" "hhdm_offset s = 0xffff800000000000" using up by (simp_all add: managers_up_def vmm_ok_def)
  moreover obtain ps where "free_list s = ps @ pages_from 0x100000 16" using up unfolding managers_up_def by blast
  ultimately show ?thesis using s(2) z(1) by metis
qed


end
