(* ===== verification/IntStubs.thy ===== *)
theory IntStubs
  imports Interrupts
begin

text \<open>
  The interrupt stubs of \<^verbatim>\<open>olive/src/sys/idt.asm\<close>, instruction by instruction: what they push
  before \<open>idt_handler\<close> and pop after it. The registers are a function, the stack is memory
  below and above \<open>RSP\<close>; the code and data segments, \<open>CR3\<close> and the interrupt flag are the state's.
  The values that the compiled \<open>idt_handler\<close> leaves in the registers that a call need not
  preserve are the parameter \<open>clobber\<close>. \<open>iretq\<close> is modelled without its checks of the selectors.
\<close>

section \<open>Registers and instructions\<close>

datatype reg =
    RAX | RBX | RCX | RDX | RSI | RDI | RBP | R8 | R9 | R10 | R11 | R12 | R13 | R14 | R15
  | RSP | RIP | RFLAGS | SS | CR2

type_synonym regs = "reg \<Rightarrow> u64"

datatype instr =
    Push reg | PushImm u64 | Pop reg
  | MovRaxCr3 | MovRaxCr2 | MovRaxDs
  | AddRsp u64 | Cli | Cld | Iretq

definition push_word :: "u64 \<Rightarrow> regs \<times> 'a cpu_state_scheme \<Rightarrow> regs \<times> 'a cpu_state_scheme" where
  "push_word v c =
     (case c of (r, s) \<Rightarrow>
        (r(RSP := r RSP - 8), s\<lparr>mem := st64 (r RSP - 8) v (mem s)\<rparr>))"

definition IF_bit :: nat where "IF_bit = 9"
definition DF_bit :: nat where "DF_bit = 10"

fun exec :: "instr \<Rightarrow> regs \<times> 'a cpu_state_scheme \<Rightarrow> regs \<times> 'a cpu_state_scheme" where
  "exec (Push x) (r, s) = push_word (r x) (r, s)"
| "exec (PushImm v) (r, s) = push_word v (r, s)"
| "exec (Pop x) (r, s) = (r(RSP := r RSP + 8, x := ld64 (mem s) (r RSP)), s)"
| "exec MovRaxCr3 (r, s) = (r(RAX := cr3 s), s)"
| "exec MovRaxCr2 (r, s) = (r(RAX := r CR2), s)"
| "exec MovRaxDs (r, s) = (r(RAX := ucast (data_selectors s)), s)"
| "exec (AddRsp n) (r, s) = (r(RSP := r RSP + n), s)"
| "exec Cli (r, s) = (r(RFLAGS := unset_bit IF_bit (r RFLAGS)), s\<lparr>interrupts_on := False\<rparr>)"
| "exec Cld (r, s) = (r(RFLAGS := unset_bit DF_bit (r RFLAGS)), s)"
| "exec Iretq (r, s) =
     (let p = r RSP; m = mem s
      in (r(RIP := ld64 m p, RFLAGS := ld64 m (p + 16), RSP := ld64 m (p + 24), SS := ld64 m (p + 32)),
          s\<lparr>cs_selector := ucast (ld64 m (p + 8)), interrupts_on := bit (ld64 m (p + 16)) IF_bit\<rparr>))"

definition run :: "instr list \<Rightarrow> regs \<times> 'a cpu_state_scheme \<Rightarrow> regs \<times> 'a cpu_state_scheme" where
  "run is c = fold exec is c"

section \<open>The listing\<close>

definition pushaq :: "instr list" where
  "pushaq =
     [Push RAX, Push RBX, Push RCX, Push RDX, Push RSI, Push RDI, Push RBP,
      Push R8, Push R9, Push R10, Push R11, Push R12, Push R13, Push R14, Push R15,
      MovRaxCr3, Push RAX, MovRaxCr2, Push RAX, MovRaxDs, Push RAX]"

definition popaq :: "instr list" where
  "popaq =
     [Pop RAX, Pop RAX, Pop RAX,
      Pop R15, Pop R14, Pop R13, Pop R12, Pop R11, Pop R10, Pop R9, Pop R8,
      Pop RBP, Pop RDI, Pop RSI, Pop RDX, Pop RCX, Pop RBX, Pop RAX]"

text \<open>\<open>_int_stub\<close> before and after its call of \<open>idt_handler\<close>.\<close>

definition int_stub_entry :: "instr list" where "int_stub_entry = pushaq @ [Cld]"
definition int_stub_exit :: "instr list" where "int_stub_exit = popaq @ [AddRsp 16, Iretq]"

definition isr_noerr :: "nat \<Rightarrow> instr list" where
  "isr_noerr v = [Cli, PushImm 0, PushImm (of_nat v)]"

definition isr_err :: "nat \<Rightarrow> instr list" where
  "isr_err v = [Cli, PushImm (of_nat v)]"

text \<open>Which of the two macros each vector uses.\<close>

definition err_vectors :: "nat list" where "err_vectors = [8, 10, 11, 12, 13, 14, 17, 30]"

definition isr :: "nat \<Rightarrow> instr list" where
  "isr v = (if v \<in> set err_vectors then isr_err v else isr_noerr v)"

section \<open>The frame in memory\<close>

text \<open>\<open>int_frame_t\<close> (\<^verbatim>\<open>olive/include/sys/idt.h\<close>) at an address: twenty-five words in the order of the fields.\<close>

definition frame_at :: "mem \<Rightarrow> u64 \<Rightarrow> int_frame_t" where
  "frame_at m p =
     \<lparr>f_ds = ld64 m p, f_cr2 = ld64 m (p + 8), f_cr3 = ld64 m (p + 16),
      r15 = ld64 m (p + 24), r14 = ld64 m (p + 32), r13 = ld64 m (p + 40), r12 = ld64 m (p + 48),
      r11 = ld64 m (p + 56), r10 = ld64 m (p + 64), r9 = ld64 m (p + 72), r8 = ld64 m (p + 80),
      rbp = ld64 m (p + 88), rdi = ld64 m (p + 96), rsi = ld64 m (p + 104), rdx = ld64 m (p + 112),
      rcx = ld64 m (p + 120), rbx = ld64 m (p + 128), rax = ld64 m (p + 136),
      vector = ld64 m (p + 144), err = ld64 m (p + 152), rip = ld64 m (p + 160), f_cs = ld64 m (p + 168),
      rflags = ld64 m (p + 176), rsp = ld64 m (p + 184), f_ss = ld64 m (p + 192)\<rparr>"

definition frame_words :: "int_frame_t \<Rightarrow> u64 list" where
  "frame_words f =
     [f_ds f, f_cr2 f, f_cr3 f, r15 f, r14 f, r13 f, r12 f, r11 f, r10 f, r9 f, r8 f,
      rbp f, rdi f, rsi f, rdx f, rcx f, rbx f, rax f, vector f, err f,
      rip f, f_cs f, rflags f, rsp f, f_ss f]"

primrec put_words :: "u64 \<Rightarrow> u64 list \<Rightarrow> mem \<Rightarrow> mem" where
  "put_words p [] m = m"
| "put_words p (w # ws) m = put_words (p + 8) ws (st64 p w m)"

section \<open>A whole interrupt\<close>

definition caller_saved :: "reg list" where
  "caller_saved = [RAX, RCX, RDX, RSI, RDI, R8, R9, R10, R11, RFLAGS]"

text \<open>
  From the first instruction of the stub of vector \<open>v\<close>, with the stack as the processor left it,
  to the end of \<open>iretq\<close>. The frame is an argument of \<open>idt_handler\<close> by value: it is the stack itself,
  and what a registered handler writes to it is what \<open>popaq\<close> and \<open>iretq\<close> load. The stack
  is taken to be apart from the objects the handler writes, and the compiled handler to change
  its argument only as the C code does.
\<close>

definition interrupt ::
  "(u64 \<Rightarrow> int_frame_t \<Rightarrow> 'a cpu_state_scheme \<Rightarrow> (int_frame_t \<times> 'a cpu_state_scheme) option) \<Rightarrow>
   regs \<Rightarrow> u64 \<Rightarrow> nat \<Rightarrow> regs \<Rightarrow> 'a cpu_state_scheme \<Rightarrow> (regs, 'a cpu_state_scheme) outcome option" where
  "interrupt call clobber frame0 v r s =
     (case run (isr v @ int_stub_entry) (r, s) of (r1, s1) \<Rightarrow>
        (case idt_handler call frame0 (frame_at (mem s1) (r1 RSP)) s1 of
           None \<Rightarrow> None
         | Some (Halt t) \<Rightarrow> Some (Halt t)
         | Some (Ret f t) \<Rightarrow>
             (case run int_stub_exit
                     (\<lambda>x. if x \<in> set caller_saved then clobber x else r1 x,
                      t\<lparr>mem := put_words (r1 RSP) (frame_words f) (mem t)\<rparr>) of
                (r2, t') \<Rightarrow> Some (Ret r2 t'))))"

end
