(* ===== verification/IntStubProps.thy ===== *)
theory IntStubProps
  imports IntStubs InterruptProps
begin

text \<open>
  An interrupt as a whole. The stack is seen as a list of words from its top (\<open>stack_at\<close>);
  pushing puts words in front of it. So the frame the handler gets has
  every register of the interrupted code, and after the handler every register has what the
  frame says.
\<close>

section \<open>The stack as a list\<close>

primrec stack_at :: "mem \<Rightarrow> u64 \<Rightarrow> u64 list \<Rightarrow> bool" where
  "stack_at m p [] \<longleftrightarrow> True"
| "stack_at m p (w # ws) \<longleftrightarrow> ld64 m p = w \<and> stack_at m (p + 8) ws"

lemma stack_at_append: "stack_at m p (us @ ws) \<longleftrightarrow> stack_at m p us \<and> stack_at m (p + 8 * of_nat (length us)) ws"
  by (induction us arbitrary: p) (simp_all add: algebra_simps)

lemma word_apart:
  assumes "8 \<le> d" "d + 8 \<le> 2 ^ 64"
  shows "disj (q + of_nat d) 8 q 8"
proof -
  have u: "unat (of_nat d :: u64) = d" using assms by (intro unat_of_nat_small) simp
  have "(of_nat d :: u64) \<noteq> 0" using u assms(1) by auto
  then have "unat (0 - of_nat d :: u64) = 2 ^ 64 - d" using assms(1) unfolding unat_sub_if' u by simp
  then show ?thesis using u assms by (simp add: disj_def)
qed

lemma stack_at_below:
  assumes "8 \<le> d" "d + 8 * length ws \<le> 2 ^ 64"
  shows "stack_at (st64 q v m) (q + of_nat d) ws = stack_at m (q + of_nat d) ws"
  using assms
proof (induction ws arbitrary: d)
  case (Cons w ws)
  have "ld64 (st64 q v m) (q + of_nat d) = ld64 m (q + of_nat d)"
    using Cons.prems by (intro ld64_st64_disj word_apart) simp_all
  moreover have "stack_at (st64 q v m) (q + of_nat d + 8) ws = stack_at m (q + of_nat d + 8) ws"
    using Cons.IH [of "d + 8"] Cons.prems by (simp add: algebra_simps)
  ultimately show ?case by simp
qed simp

lemma stack_at_push:
  assumes "stack_at m p ws" "8 * Suc (length ws) \<le> 2 ^ 64"
  shows "stack_at (st64 (p - 8) v m) (p - 8) (v # ws)"
  using stack_at_below [of 8 ws "p - 8" v m] assms by simp

lemma stack_at_put: "8 * length ws \<le> 2 ^ 64 \<Longrightarrow> stack_at (put_words p ws m) p ws"
proof (induction ws arbitrary: p m)
  case (Cons w ws)
  have keep: "ld64 (put_words (p + of_nat d) us m') p = ld64 m' p" if "8 \<le> d" "d + 8 * length us \<le> 2 ^ 64" for d us m'
    using that
  proof (induction us arbitrary: d m')
    case (Cons u us)
    have "disj p 8 (p + of_nat d) 8" using Cons.prems by (intro disj_sym [OF word_apart]) simp_all
    then show ?case using Cons.IH [of "d + 8"] Cons.prems by (simp add: ld64_st64_disj algebra_simps)
  qed simp
  from keep [of 8 ws "st64 p w m"] Cons show ?case by simp
qed simp

section \<open>Pushing\<close>

lemma st64_outside:
  assumes "8 \<le> unat (a - p)"
  shows "st64 p v m a = m a"
proof (rule st64_other)
  fix j :: nat assume "j < 8"
  then have "unat (of_nat j :: u64) < 8" by (simp add: unat_of_nat)
  with assms show "a \<noteq> p + of_nat j" by auto
qed

lemma put_words_outside: "8 * length ws \<le> unat (a - p) \<Longrightarrow> put_words p ws m a = m a"
proof (induction ws arbitrary: p m)
  case (Cons w ws)
  have "(8 :: u64) \<le> a - p" using Cons.prems by (simp add: word_le_nat_alt)
  then have "unat (a - (p + 8)) = unat (a - p) - 8"
    unfolding diff_diff_eq [symmetric] by (simp add: unat_sub)
  then show ?case using Cons.IH [of "p + 8"] Cons.prems by (simp add: st64_outside)
qed simp

abbreviation push_words :: "u64 list \<Rightarrow> regs \<times> 'a cpu_state_scheme \<Rightarrow> regs \<times> 'a cpu_state_scheme" where
  "push_words \<equiv> fold push_word"

text \<open>The words pushed are on top, last first, and no other byte has changed.\<close>

lemma push_words_stack:
  assumes "stack_at (mem s) (r RSP) ws" "8 * (length vs + length ws) \<le> 2 ^ 64"
  shows "\<exists>m. push_words vs (r, s) = (r(RSP := r RSP - 8 * of_nat (length vs)), s\<lparr>mem := m\<rparr>) \<and>
    stack_at m (r RSP - 8 * of_nat (length vs)) (rev vs @ ws) \<and>
    (\<forall>a. 8 * length vs \<le> unat (a - (r RSP - 8 * of_nat (length vs))) \<longrightarrow> m a = mem s a)"
  using assms
proof (induction vs arbitrary: r s ws)
  case Nil
  then show ?case by (intro exI [of _ "mem s"]) simp
next
  case (Cons v vs)
  let ?p = "r RSP - 8" and ?q = "r RSP - 8 * of_nat (length (v # vs))"
  let ?m = "st64 ?p v (mem s)"
  have top: "stack_at ?m ?p (v # ws)"
    using stack_at_push [OF Cons.prems(1)] Cons.prems(2) by simp
  have q: "?p - 8 * of_nat (length vs) = ?q" by (simp add: algebra_simps)
  let ?r = "r(RSP := ?p)" and ?s = "s\<lparr>mem := ?m\<rparr>"
  have "\<exists>m. push_words vs (?r, ?s) = (?r(RSP := ?r RSP - 8 * of_nat (length vs)), ?s\<lparr>mem := m\<rparr>) \<and>
      stack_at m (?r RSP - 8 * of_nat (length vs)) (rev vs @ v # ws) \<and>
      (\<forall>a. 8 * length vs \<le> unat (a - (?r RSP - 8 * of_nat (length vs))) \<longrightarrow> m a = mem ?s a)"
    by (rule Cons.IH [where r = ?r and s = ?s and ws = "v # ws"]) (use top Cons.prems(2) in simp_all)
  then obtain m where
    m: "push_words vs (?r, ?s) = (r(RSP := ?q), s\<lparr>mem := m\<rparr>)"
      "stack_at m ?q (rev vs @ v # ws)"
      "\<forall>a. 8 * length vs \<le> unat (a - ?q) \<longrightarrow> m a = ?m a"
    unfolding fun_upd_same fun_upd_upd q by auto
  have "m a = mem s a" if a: "8 * length (v # vs) \<le> unat (a - ?q)" for a
  proof -
    let ?n = "8 * of_nat (length vs) :: u64"
    have n: "unat ?n = 8 * length vs"
      using Cons.prems(2) unat_of_nat_small [of "8 * length vs"] by simp
    have "a - ?p = (a - ?q) - ?n" by (simp add: algebra_simps)
    moreover have "?n \<le> a - ?q" using a n by (simp add: word_le_nat_alt)
    ultimately have "unat (a - ?p) = unat (a - ?q) - unat ?n" by (simp only: unat_sub)
    then have "?m a = mem s a" using a n by (simp add: st64_outside)
    moreover have "m a = ?m a" using m(3) a by simp
    ultimately show ?thesis by simp
  qed
  moreover have "push_word v (r, s) = (?r, ?s)" by (simp add: push_word_def)
  ultimately show ?case using m(1,2) by (intro exI [of _ m]) (simp del: fun_upd_apply)
qed

section \<open>The frame that the stub builds\<close>

lemma frame_at_words: "stack_at m p ws \<Longrightarrow> length ws = 25 \<Longrightarrow> frame_words (frame_at m p) = ws"
  by (auto simp: frame_at_def frame_words_def numeral_eq_Suc length_Suc_conv add.assoc)

lemma frame_words_inject: "frame_words f = frame_words g \<longleftrightarrow> f = g"
  by (cases f; cases g) (auto simp: frame_words_def)

text \<open>
  The frame of vector \<open>v\<close>: the registers as the interrupt found them, and the words of the
  processor, the error code first where the stub expects one.
\<close>

definition interrupted_frame :: "nat \<Rightarrow> regs \<Rightarrow> 'a cpu_state_scheme \<Rightarrow> int_frame_t" where
  "interrupted_frame v r s =
     (let q = (if v \<in> set err_vectors then r RSP + 8 else r RSP)
      in \<lparr>f_ds = ucast (data_selectors s), f_cr2 = r CR2, f_cr3 = cr3 s,
          r15 = r R15, r14 = r R14, r13 = r R13, r12 = r R12, r11 = r R11, r10 = r R10, r9 = r R9, r8 = r R8,
          rbp = r RBP, rdi = r RDI, rsi = r RSI, rdx = r RDX, rcx = r RCX, rbx = r RBX, rax = r RAX,
          vector = of_nat v, err = (if v \<in> set err_vectors then ld64 (mem s) (r RSP) else 0),
          rip = ld64 (mem s) q, f_cs = ld64 (mem s) (q + 8), rflags = ld64 (mem s) (q + 16),
          rsp = ld64 (mem s) (q + 24), f_ss = ld64 (mem s) (q + 32)\<rparr>)"

lemma vector_interrupted_frame: "vector (interrupted_frame v r s) = of_nat v"
  by (simp add: interrupted_frame_def Let_def)

definition entry_words :: "nat \<Rightarrow> regs \<Rightarrow> 'a cpu_state_scheme \<Rightarrow> u64 list" where
  "entry_words v r s =
     (if v \<in> set err_vectors then [] else [0]) @
     [of_nat v, r RAX, r RBX, r RCX, r RDX, r RSI, r RDI, r RBP, r R8, r R9, r R10, r R11, r R12, r R13,
      r R14, r R15, cr3 s, r CR2, ucast (data_selectors s)]"

definition entry_regs :: "regs \<Rightarrow> 'a cpu_state_scheme \<Rightarrow> regs" where
  "entry_regs r s = r(RAX := ucast (data_selectors s), RFLAGS := unset_bit DF_bit (unset_bit IF_bit (r RFLAGS)))"

lemma run_entry:
  "run (isr v @ int_stub_entry) (r, s) =
     push_words (entry_words v r s) (entry_regs r s, s\<lparr>interrupts_on := False\<rparr>)"
  by (simp add: run_def isr_def isr_err_def isr_noerr_def int_stub_entry_def pushaq_def entry_words_def
      entry_regs_def push_word_def fun_eq_iff)

text \<open>The stack of the processor, from its error code if there is one.\<close>

lemma stack_of_processor:
  "\<exists>ws. stack_at (mem s) (r RSP) ws \<and> rev (entry_words v r s) @ ws = frame_words (interrupted_frame v r s)"
proof (cases "v \<in> set err_vectors")
  case True
  show ?thesis
    by (intro exI [of _ "map (\<lambda>k. ld64 (mem s) (r RSP + k)) [0, 8, 16, 24, 32, 40]"])
      (use True in \<open>simp add: entry_words_def interrupted_frame_def frame_words_def Let_def add.assoc\<close>)
next
  case False
  show ?thesis
    by (intro exI [of _ "map (\<lambda>k. ld64 (mem s) (r RSP + k)) [0, 8, 16, 24, 32]"])
      (use False in \<open>simp add: entry_words_def interrupted_frame_def frame_words_def Let_def add.assoc\<close>)
qed

lemma length_frame_words: "length (frame_words f) = 25"
  by (simp add: frame_words_def)

lemma run_entry_frame:
  "\<exists>m. run (isr v @ int_stub_entry) (r, s) =
       ((entry_regs r s)(RSP := r RSP - 8 * of_nat (length (entry_words v r s))), s\<lparr>mem := m, interrupts_on := False\<rparr>) \<and>
     frame_at m (r RSP - 8 * of_nat (length (entry_words v r s))) = interrupted_frame v r s \<and>
     (\<forall>a. 8 * length (entry_words v r s) \<le> unat (a - (r RSP - 8 * of_nat (length (entry_words v r s)))) \<longrightarrow> m a = mem s a)"
proof -
  let ?r = "entry_regs r s" and ?s = "s\<lparr>interrupts_on := False\<rparr>" and ?vs = "entry_words v r s"
  obtain ws where ws: "stack_at (mem s) (r RSP) ws" "rev ?vs @ ws = frame_words (interrupted_frame v r s)"
    using stack_of_processor by blast
  have RSP: "?r RSP = r RSP" by (simp add: entry_regs_def)
  have len: "length ?vs + length ws = 25"
    using arg_cong [OF ws(2), of length] by (simp add: length_frame_words)
  obtain m where m: "push_words ?vs (?r, ?s) = (?r(RSP := r RSP - 8 * of_nat (length ?vs)), ?s\<lparr>mem := m\<rparr>)"
      "stack_at m (r RSP - 8 * of_nat (length ?vs)) (rev ?vs @ ws)"
      "\<forall>a. 8 * length ?vs \<le> unat (a - (r RSP - 8 * of_nat (length ?vs))) \<longrightarrow> m a = mem s a"
    using push_words_stack [of ?s ?r ws ?vs] ws(1) len unfolding RSP by auto
  have "frame_words (frame_at m (r RSP - 8 * of_nat (length ?vs))) = frame_words (interrupted_frame v r s)"
    using m(2) unfolding ws(2) by (rule frame_at_words) (rule length_frame_words)
  with m(1,3) show ?thesis by (intro exI [of _ m]) (simp add: run_entry frame_words_inject)
qed

section \<open>Back to the interrupted code\<close>

text \<open>The registers that a frame says.\<close>

definition resumed :: "int_frame_t \<Rightarrow> regs \<Rightarrow> regs" where
  "resumed f r x =
     (case x of RAX \<Rightarrow> rax f | RBX \<Rightarrow> rbx f | RCX \<Rightarrow> rcx f | RDX \<Rightarrow> rdx f | RSI \<Rightarrow> rsi f | RDI \<Rightarrow> rdi f
      | RBP \<Rightarrow> rbp f | R8 \<Rightarrow> r8 f | R9 \<Rightarrow> r9 f | R10 \<Rightarrow> r10 f | R11 \<Rightarrow> r11 f | R12 \<Rightarrow> r12 f
      | R13 \<Rightarrow> r13 f | R14 \<Rightarrow> r14 f | R15 \<Rightarrow> r15 f | RSP \<Rightarrow> rsp f | RIP \<Rightarrow> rip f
      | RFLAGS \<Rightarrow> rflags f | SS \<Rightarrow> f_ss f | CR2 \<Rightarrow> r CR2)"

lemma run_exit:
  assumes "stack_at (mem t) (r RSP) (frame_words f)"
  shows "run int_stub_exit (r, t) =
    (resumed f r, t\<lparr>cs_selector := ucast (f_cs f), interrupts_on := bit (rflags f) IF_bit\<rparr>)"
proof -
  have "fst (run int_stub_exit (r, t)) x = resumed f r x" for x
    using assms
    by (cases x) (simp_all add: run_def int_stub_exit_def popaq_def frame_words_def resumed_def add.assoc)
  moreover have "snd (run int_stub_exit (r, t)) = t\<lparr>cs_selector := ucast (f_cs f), interrupts_on := bit (rflags f) IF_bit\<rparr>"
    using assms by (simp add: run_def int_stub_exit_def popaq_def frame_words_def add.assoc)
  ultimately show ?thesis by (simp add: prod_eq_iff fun_eq_iff)
qed

section \<open>The interrupt\<close>

definition frame_addr :: "nat \<Rightarrow> regs \<Rightarrow> u64" where
  "frame_addr v r = r RSP - (if v \<in> set err_vectors then 152 else 160)"

lemma frame_addr_words: "r RSP - 8 * of_nat (length (entry_words v r s)) = frame_addr v r"
  by (simp add: entry_words_def frame_addr_def)

lemma interrupt_is_handler:
  "\<exists>m. (\<forall>a. 160 \<le> unat (a - frame_addr v r) \<longrightarrow> m a = mem s a) \<and>
    interrupt call clobber fp v r s =
      (case idt_handler call fp (interrupted_frame v r s) (s\<lparr>mem := m, interrupts_on := False\<rparr>) of
         None \<Rightarrow> None
       | Some (Halt t) \<Rightarrow> Some (Halt t)
       | Some (Ret f t) \<Rightarrow>
           Some (Ret (resumed f r)
             (t\<lparr>mem := put_words (frame_addr v r) (frame_words f) (mem t), cs_selector := ucast (f_cs f),
                interrupts_on := bit (rflags f) IF_bit\<rparr>)))"
proof -
  obtain m where m: "run (isr v @ int_stub_entry) (r, s) =
       ((entry_regs r s)(RSP := frame_addr v r), s\<lparr>mem := m, interrupts_on := False\<rparr>)"
     "frame_at m (frame_addr v r) = interrupted_frame v r s"
     "\<forall>a. 8 * length (entry_words v r s) \<le> unat (a - frame_addr v r) \<longrightarrow> m a = mem s a"
    using run_entry_frame [of v r s] unfolding frame_addr_words by blast
  have "length (entry_words v r s) \<le> 20" by (simp add: entry_words_def)
  then have "\<forall>a. 160 \<le> unat (a - frame_addr v r) \<longrightarrow> m a = mem s a" using m(3) by auto
  moreover have res: "resumed f (\<lambda>x. if x \<in> set caller_saved then clobber x else ((entry_regs r s)(RSP := frame_addr v r)) x) = resumed f r" for f
    by (simp add: fun_eq_iff resumed_def caller_saved_def entry_regs_def split: reg.split)
  moreover have "run int_stub_exit
      (\<lambda>x. if x \<in> set caller_saved then clobber x else ((entry_regs r s)(RSP := frame_addr v r)) x,
       t\<lparr>mem := put_words (frame_addr v r) (frame_words f) (mem t)\<rparr>) =
      (resumed f r, t\<lparr>mem := put_words (frame_addr v r) (frame_words f) (mem t), cs_selector := ucast (f_cs f),
         interrupts_on := bit (rflags f) IF_bit\<rparr>)" for f and t :: "'a cpu_state_scheme"
    unfolding res [symmetric]
    by (subst run_exit [where f = f]) (simp_all add: caller_saved_def stack_at_put length_frame_words)
  ultimately show ?thesis using m(1,2)
    by (intro exI [of _ m])
      (simp add: interrupt_def fun_upd_same split: option.split outcome.split del: fun_upd_apply)
qed

text \<open>
  C15. An interrupt refines the handler on a value: the stub builds the frame with every register
  of the interrupted code, the error code or a zero, and the processor's five words, below the
  stack pointer and touching no other byte; it runs \<open>idt_handler\<close> with interrupts off; and
  when that returns, every register is what the frame then says, whatever the compiled handler
  left in the registers a call need not preserve. When the handler halts or spins, so does the
  interrupt.
\<close>

theorem interrupt_refines:
  "\<exists>m. (\<forall>a. 160 \<le> unat (a - frame_addr v r) \<longrightarrow> m a = mem s a) \<and>
    interrupt call clobber fp v r s =
      (case idt_handler call fp (interrupted_frame v r s) (s\<lparr>mem := m, interrupts_on := False\<rparr>) of
         None \<Rightarrow> None
       | Some (Halt t) \<Rightarrow> Some (Halt t)
       | Some (Ret f t) \<Rightarrow>
           Some (Ret (resumed f r)
             (t\<lparr>mem := put_words (frame_addr v r) (frame_words f) (mem t), cs_selector := ucast (f_cs f),
                interrupts_on := bit (rflags f) IF_bit\<rparr>)))"
  by (rule interrupt_is_handler)

definition stub_regs :: regs where
  "stub_regs = (\<lambda>x. if x = RSP then 0x9000 else if x = RBX then 5 else 1)"

definition stub_state :: "u64 list \<Rightarrow> cpu_state" where
  "stub_state ws = cpu_zero\<lparr>mem := put_words 0x9000 ws (\<lambda>_. 0), vfprintf_buffer := 0x20000,
     irq_handlers := (replicate 16 0)[1 := 0x5000]\<rparr>"

lemma stub_state_stack: "length ws < 10 \<Longrightarrow> stack_at (mem (stub_state ws)) (stub_regs RSP) ws"
  by (simp add: stub_state_def stub_regs_def stack_at_put)

lemma interrupt_refines_witness:
  "\<exists>r2 t. interrupt (\<lambda>_ f s. Some (f\<lparr>rax := 7\<rparr>, s)) (\<lambda>_. 0xBAD) 0 33 stub_regs (stub_state [0x1234, 8, 0x202, 0x9800, 16]) = Some (Ret r2 t) \<and>
    r2 RAX = 7 \<and> r2 RBX = 5 \<and> r2 RIP = 0x1234"
proof -
  let ?s = "stub_state [0x1234, 8, 0x202, 0x9800, 16]"
  let ?F = "interrupted_frame 33 stub_regs ?s" and ?call = "\<lambda>_ f s. Some (f\<lparr>rax := 7\<rparr>, s)"
  have F: "vector ?F = 33" "rbx ?F = 5" "rip ?F = 0x1234"
    using stub_state_stack [of "[0x1234, 8, 0x202, 0x9800, 16]"]
    by (simp_all add: interrupted_frame_def Let_def err_vectors_def) (simp add: stub_regs_def)
  have irq: "irq_handlers ?s ! 1 = 0x5000" by (simp add: stub_state_def)
  have "idt_handler ?call 0 ?F (?s\<lparr>mem := m, interrupts_on := False\<rparr>) =
      Some (Ret (?F\<lparr>rax := 7\<rparr>) (?s\<lparr>mem := m, interrupts_on := False\<rparr>))" for m
    by (subst idt_handler_registered [where irq = 1]) (simp_all add: F(1) IRQ_BASE_def IRQ_COUNT_def irq [simplified])
  with interrupt_refines [where call = ?call and clobber = "\<lambda>_. 0xBAD" and fp = 0 and v = 33
      and r = stub_regs and s = ?s]
  show ?thesis by (auto simp: resumed_def F)
qed

section \<open>Exceptions that resume\<close>

text \<open>
  An exception that is not fatal, with the five words that the stub expects on the stack.
\<close>

lemma nonfatal_interrupt:
  assumes "ready s" "v < 32" "\<not> fatal (exception_info ! v)"
    and stack: "stack_at (mem s) (r RSP) [rip', cs', fl', sp', ss']"
  shows "\<exists>r2 s2 t. interrupt call clobber fp v r s = Some (Ret r2 s2) \<and>
    r2 RIP = rip' \<and> r2 RFLAGS = fl' \<and> r2 RSP = sp' \<and> r2 SS = ss' \<and>
    (\<forall>x. x \<notin> {RIP, RFLAGS, RSP, SS} \<longrightarrow> r2 x = r x) \<and>
    cs_selector s2 = ucast cs' \<and> interrupts_on s2 = bit fl' IF_bit \<and>
    s2 = (shown t s)\<lparr>mem := mem s2, cs_selector := ucast cs', interrupts_on := bit fl' IF_bit\<rparr> \<and>
    (\<forall>a. \<not> in_buffer s a \<longrightarrow> 200 \<le> unat (a - (r RSP - 160)) \<longrightarrow> mem s2 a = mem s a) \<and>
    (v \<noteq> 3 \<longrightarrow> t = ''[FATAL]: '' @ nl @ ''[WARN]: Non-fatal exception: '' @ c_string (message (exception_info ! v)) @ nl)"
proof -
  let ?F = "interrupted_frame v r s"
  have "list_all (\<lambda>v. fatal (exception_info ! v)) err_vectors" by code_simp
  with assms(3) have e: "v \<notin> set err_vectors" by (auto simp: list_all_iff)
  then have p: "frame_addr v r = r RSP - 160" by (simp add: frame_addr_def)
  have F: "vector ?F = of_nat v" "rip ?F = rip'" "f_cs ?F = cs'" "rflags ?F = fl'" "rsp ?F = sp'" "f_ss ?F = ss'"
    using stack e by (simp_all add: interrupted_frame_def Let_def add.assoc)
  have v: "unat (vector ?F) = v" "vector ?F < 32"
    using assms(2) by (simp_all add: F(1) unat_of_nat word_less_nat_alt)
  have v3: "vector ?F = 3 \<longleftrightarrow> v = 3" using v(1) by (auto simp: F(1))
  have res: "resumed ?F r x = (case x of RIP \<Rightarrow> rip' | RFLAGS \<Rightarrow> fl' | RSP \<Rightarrow> sp' | SS \<Rightarrow> ss' | _ \<Rightarrow> r x)" for x
    by (cases x; simp add: resumed_def F(2-); simp add: interrupted_frame_def Let_def)
  obtain m where m: "\<forall>a. 160 \<le> unat (a - (r RSP - 160)) \<longrightarrow> m a = mem s a"
    "interrupt call clobber fp v r s =
      (case idt_handler call fp ?F (s\<lparr>mem := m, interrupts_on := False\<rparr>) of
         None \<Rightarrow> None
       | Some (Halt t) \<Rightarrow> Some (Halt t)
       | Some (Ret f t) \<Rightarrow>
           Some (Ret (resumed f r)
             (t\<lparr>mem := put_words (r RSP - 160) (frame_words f) (mem t), cs_selector := ucast (f_cs f),
                interrupts_on := bit (rflags f) IF_bit\<rparr>)))"
    using interrupt_is_handler [where v = v and r = r and s = s and call = call and clobber = clobber and fp = fp] unfolding p by blast
  let ?s = "s\<lparr>mem := m, interrupts_on := False\<rparr>"
  have ready: "locked (printf_lock ?s) = 0" "vfprintf_buffer ?s \<noteq> 0" using assms(1) by (simp_all add: ready_def)
  obtain s' t where h: "idt_handler call fp ?F ?s = Some (Ret ?F s')" "emitted (''[FATAL]: '' @ nl @ t @ nl) ?s s'"
      "v \<noteq> 3 \<longrightarrow> t = ''[WARN]: Non-fatal exception: '' @ c_string (message (exception_info ! v))"
    using idt_handler_nonfatal_resumes [OF ready v(2), of call fp] assms(3) unfolding v(1) v3 by blast
  let ?u = "''[FATAL]: '' @ nl @ t @ nl"
  let ?s2 = "s'\<lparr>mem := put_words (r RSP - 160) (frame_words ?F) (mem s'), cs_selector := ucast cs', interrupts_on := bit fl' IF_bit\<rparr>"
  have run: "interrupt call clobber fp v r s = Some (Ret (resumed ?F r) ?s2)"
    using m(2) by (simp add: h(1) F(3,4))
  from h(2) have eq: "s' = (shown ?u ?s)\<lparr>mem := mem s'\<rparr>" and out: "\<And>a. \<not> in_buffer ?s a \<Longrightarrow> mem s' a = m a"
    by (simp_all add: emitted_def)
  have 1: "?s2 = (shown ?u s)\<lparr>mem := mem ?s2, cs_selector := ucast cs', interrupts_on := bit fl' IF_bit\<rparr>"
    by (subst eq) (simp add: shown_def Let_def)
  have 2: "mem ?s2 a = mem s a" if "\<not> in_buffer s a" "200 \<le> unat (a - (r RSP - 160))" for a
    using that m(1) out [of a] by (simp add: put_words_outside length_frame_words in_buffer_def)
  show ?thesis
    using run res 1 2 h(3) by (intro exI [of _ "resumed ?F r"] exI [of _ ?s2] exI [of _ ?u]) (auto split: reg.split)
qed



text \<open>
  C28. The stubs of the vectors 21 (control protection) and 29 (VMM communication) are of the kind
  without an error code, but the processor pushes one for these exceptions. Both are reported and
  resumed, with every word of the processor taken for the one below it: \<open>iretq\<close> goes to
  the error code, with the old code segment as flags and the old flags as stack pointer.
\<close>

theorem error_code_taken_for_rip:
  assumes "locked (printf_lock s) = 0" "vfprintf_buffer s \<noteq> 0" "v \<in> {21, 29}"
    and "stack_at (mem s) (r RSP) [code, rip', cs', fl', sp', ss']"
  shows "\<exists>r2 s2. interrupt call clobber fp v r s = Some (Ret r2 s2) \<and>
    r2 RIP = code \<and> r2 RFLAGS = cs' \<and> r2 RSP = fl' \<and> r2 SS = sp' \<and> cs_selector s2 = ucast rip'"
proof -
  have "\<not> fatal (exception_info ! v)" "v < 32" using assms(3) exception_kinds by auto
  moreover have "stack_at (mem s) (r RSP) [code, rip', cs', fl', sp']" using assms(4) by simp
  moreover have "ready s" using assms(1,2) by (simp add: ready_def)
  ultimately obtain r2 s2 t where "interrupt call clobber fp v r s = Some (Ret r2 s2)"
      "r2 RIP = code" "r2 RFLAGS = cs'" "r2 RSP = fl'" "r2 SS = sp'"
      "cs_selector s2 = ucast rip'"
    using nonfatal_interrupt [of s v r code rip' cs' fl' sp' call clobber fp] by blast
  then show ?thesis by blast
qed

lemma error_code_taken_for_rip_witness:
  "\<exists>r2 s2. interrupt (\<lambda>_ _ _. None) (\<lambda>_. 0xBAD) 0 21 stub_regs (stub_state [3, 0x1234, 8, 0x202, 0x9800, 16]) =
       Some (Ret r2 s2) \<and> r2 RIP = 3 \<and> r2 RSP = 0x202"
proof -
  let ?s = "stub_state [3, 0x1234, 8, 0x202, 0x9800, 16]"
  have "locked (printf_lock ?s) = 0" "vfprintf_buffer ?s \<noteq> 0"
    by (simp_all add: stub_state_def cpu_zero_fields SPINLOCK_INIT_def)
  then show ?thesis
    using error_code_taken_for_rip [where s = ?s and v = 21 and r = stub_regs and call = "\<lambda>_ _ _. None"
        and clobber = "\<lambda>_. 0xBAD" and fp = 0, OF _ _ _ stub_state_stack [of "[3, 0x1234, 8, 0x202, 0x9800, 16]"]]
    by auto
qed

end
