(* ===== verification/Spec2Isabelle.thy ===== *)
theory Spec2Isabelle
  imports LibString PmmProps VmmProps NanoProps ConsoleProps InterruptProps HeapCopy HeapRuns HeapDump BootProps BootHeap MemoryRuns IntStubProps
begin

text \<open>
  Olive, the kernel of Athix, under \<^verbatim>\<open>olive/\<close>. The development models the C code of the
  kernel for one x86-64 processor in the release configuration (\<open>_DEBUG\<close> and \<open>_TRACE\<close> off)
  and proves what its parts do, alone and together.

  \<^bold>\<open>The program.\<close> \<^verbatim>\<open>src/olive.c\<close> takes the answers of the Limine boot loader, opens a
  terminal, loads the descriptor tables (\<^verbatim>\<open>src/sys/gdt.c\<close>, \<^verbatim>\<open>src/sys/idt.c\<close>), prints a banner
  (\<^verbatim>\<open>src/lib/printf.c\<close> over \<^verbatim>\<open>include/lib/internal/nanoprintf.h\<close>), starts the physical memory
  manager (\<^verbatim>\<open>src/mm/pmm.c\<close>), then the virtual one (\<^verbatim>\<open>src/mm/vmm.c\<close>), and allocates one byte
  from the heap (\<^verbatim>\<open>src/mm/liballoc/\<close>). The heap takes its blocks from the physical memory
  manager; so does the virtual one for its page tables. Spin locks
  (\<^verbatim>\<open>include/lib/stdlock.h\<close>) guard the page tables, the heap and the console, and
  \<^verbatim>\<open>src/lib/string.c\<close> has the block operations.

  \<^bold>\<open>State.\<close> Every C file's globals are one record that extends the record of the file it
  builds on: \<open>pmm_state\<close>, \<open>vmm_state\<close>, \<open>heap_state\<close>, \<open>con_state\<close>, \<open>cpu_state\<close>. Operations are
  polymorphic in the rest of the record, so an operation of a lower layer runs unchanged on
  the state of a higher one. Structs that the code reaches through pointers (page tables,
  the page stack, both headers of the heap, buffers) are bytes in one memory \<open>mem\<close>, read and
  written at the offsets of the compiled layout. Machine integers keep their width. A result
  \<open>None\<close> is a call that never returns, which a held lock or a loop whose counter wraps
  causes; \<open>Halt\<close> is the end in \<open>hcf\<close> (a failed \<open>ASSERT\<close> or a fatal exception). What the
  memory managers and the heap log is data: each use of a log macro appends its level, format
  and arguments to the field \<open>klog\<close>, and \<open>flush_log\<close> prints the recorded lines.

  \<^bold>\<open>Theories, in the order they build on each other.\<close>
  \<^item> \<open>Prelude\<close>: the word types, the page macros of \<^verbatim>\<open>include/olive.h\<close>, page arithmetic.
    \<open>Memory\<close>: typed loads and stores, disjoint ranges. \<open>LibString\<close>: \<^verbatim>\<open>src/lib/string.c\<close>.
    \<open>Spinlock\<close>: the lock, on one processor and interleaved on many; the locale \<open>guarded\<close> for a
    state that embeds a lock, interpreted on the map lock (\<open>VmmSpec\<close>), the console's
    (\<open>ConsoleProps\<close>) and the heap's (\<open>HeapProps\<close>).
  \<^item> \<open>Klog\<close>: the lines of the kernel log.
  \<^item> \<open>Pmm\<close>, \<open>PmmSpec\<close>, \<open>PmmInit\<close>, \<open>PmmProps\<close>: the physical memory manager; its stack array as the
    list \<open>free_list\<close>, the invariant \<open>pmm_ok\<close>, the locale \<open>page_source\<close> with its interpretation
    \<open>pmm\<close>, initialisation from a memory map, and runs of requests and frees.
  \<^item> \<open>Vmm\<close>, \<open>VmmWalk\<close>, \<open>VmmTree\<close>, \<open>VmmSpec\<close>, \<open>VmmInit\<close>, \<open>VmmProps\<close>: page tables in memory as a tree of
    tables, the address space they denote as a function on page numbers (locale and
    interpretation \<open>aspace\<close>), and the operations as updates of that function; every frame a
    mapping takes is counted by the table it becomes (\<open>paths\<close>, \<open>tables_needed\<close>).
  \<^item> \<open>Liballoc\<close>, \<open>HeapFields\<close>, \<open>HeapSpec\<close>, \<open>HeapAlloc\<close>, \<open>HeapProps\<close>, \<open>HeapLife\<close>, \<open>HeapCopy\<close>: the heap; the
    algebra of header fields, a block as a list of allocations \<open>(offset, size)\<close>, each way to
    place an allocation as an insertion into that list, \<open>kmalloc\<close> and \<open>kfree\<close> as insertion and
    removal, the first and the last allocation of a block, \<open>kcalloc\<close> and \<open>krealloc\<close>.
  \<^item> \<open>HeapBlocks\<close>, \<open>HeapGrow\<close>, \<open>HeapFree\<close>, \<open>HeapRuns\<close>: the heap of any number of blocks as a list of
    regions \<open>(base, size, allocations)\<close>; the search through the blocks, growth by a block that
    the page manager supplies, release of a block among others, and \<open>heap_run\<close>, the runs of the
    heap with a client that allocates, writes and frees while others request frames. \<open>HeapDump\<close>:
    the dump of the debug build as the list of those regions.
  \<^item> \<open>Nanoprintf\<close>, \<open>NanoText\<close>, \<open>NanoProps\<close>: the formatter, a reference formatter \<open>npf_text\<close> that is
    a plain function to strings, and the equivalence of the two.
  \<^item> \<open>Console\<close>, \<open>ConsoleProps\<close>: the printing functions and the log macro over the serial port and
    the terminal; \<open>emitted\<close> says that exactly a text went out.
  \<^item> \<open>Interrupts\<close>, \<open>InterruptProps\<close>: descriptor tables, the handler with its report and
    backtrace, registration of handlers. \<open>IntStubs\<close>, \<open>IntStubProps\<close>: the stubs of
    \<^verbatim>\<open>idt.asm\<close> as lists of instructions on registers and a stack in memory, and an interrupt from
    the first push to \<open>iretq\<close> as the handler on a frame.
  \<^item> \<open>HeapRest\<close>: what no operation of the heap touches. \<open>Boot\<close>, \<open>BootProps\<close>, \<open>BootHeap\<close>: the
    entry point, its refusals, and the boot that succeeds, from the loader's answers through both
    memory managers and the heap to \<open>hlt\<close>. \<open>MemoryRuns\<close>: runs of all three memory managers
    interleaved, whose pages stay apart.

  \<^bold>\<open>What the lemmas show.\<close> Refinement: the page table operations against the address space,
  page requests against the free list, interrupts against the handler on a frame, \<open>kmalloc\<close> and \<open>kfree\<close> against the lists of allocations of all blocks.
  Equivalence: the formatter against its reference, the heap's word-wise copy against
  \<open>memcpy\<close>. Invariants and safety: the free list, the allocation lists, the handler table, no
  frame handed out twice, mutual exclusion. Round trips: request and free, \<open>kmalloc\<close> and
  \<open>kfree\<close>, the address of a gate, decimal output. Bounds: the formatter's buffers. Errors and
  termination: every failure branch of the memory managers with its log lines, calls on held locks, fatal
  exceptions, \<open>puts\<close> (which never returns), and the places where the code does not do what
  it means to, each a theorem about the code as it is.

  \<^bold>\<open>Bounds and loops.\<close> No definition takes fuel. Loops whose measure is visible are total
  functions; loops that the code can leave running (\<open>spinlock_acquire\<close>, the mapping loops,
  \<open>liballoc_memset\<close>, the walks over the heap's lists, the backtrace) are partial functions
  with result \<open>None\<close>, and a theorem about one of them says that it returns. Blocks of
  the heap are smaller than 4 GiB, since their sizes are 32-bit fields, and so are requests
  (less 4207 bytes for headers, alignment and rounding to pages); \<open>has_gap\<close> with 72 bytes of
  overhead (header 40, alignment 32) is what a request needs in a block. Formatted lines are dropped
  from 1024 characters on, as in the code.

  \<^bold>\<open>Parameters.\<close> The memory map, the other answers of the boot loader, the answers of
  the CPUID instruction and of the devices behind the ports, the section symbols of the linker
  script, the addresses of the interrupt stubs, registered handlers, what the compiled handler
  leaves in the registers a call need not preserve, and the entry points of flanterm are arguments of the definitions that use them.

  \<^bold>\<open>Not modelled.\<close> Limine, flanterm and the linker script are not C code under
  \<^verbatim>\<open>src/\<close>. \<open>gdt_flush\<close> and \<open>idt_load\<close> are modelled by their effect, not by instruction. The lines
  of the memory managers and the heap are printed when their call is over and not in the
  middle of it: the print buffer is apart from what these calls read and write, so only a
  call that spins on the console's lock can tell. The lines of \<open>TRACE\<close> are switched off. Of
  the debug build only the dump of the heap is modelled. The formatter's float, binary and
  write-back conversions are switched off in the kernel's configuration. Accesses to unmapped addresses do not fault, and
  a processor does not see another's stores late.

  \<^bold>\<open>Left for later.\<close> Runs of all managers in which a whole block of the heap is handed back:
  the code puts virtual addresses on the stack of free pages then
  (\<open>kfree_last_returns_block\<close>), and what comes after depends on the memory at addresses that
  were never mapped. Runs in which unmapping frees the frame.
\<close>

end
